(* ===== verification/Mux_Prelude.thy ===== *)
theory Mux_Prelude
  imports Main "HOL-Library.Word" "HOL-Library.Monad_Syntax"
begin

text \<open>
  Shared vocabulary of the development: machine integers and bytes, the result types of the Rust
  code (\<open>Poll\<close>, \<open>io::Result\<close>, and a call that may panic or run into undefined behaviour),
  byte memory with uninitialised cells, big-endian numbers, and the generic lemmas on them. The
  collections \<open>outcome_simps\<close> and \<open>mem_simps\<close> carry the component proofs.
\<close>

section \<open>Machine integers and results\<close>

type_synonym byte = "8 word"
type_synonym u8 = "8 word"
type_synonym u16 = "16 word"
type_synonym u32 = "32 word"
type_synonym u128 = "128 word"

text \<open>\<open>std::task::Poll\<close>.\<close>

datatype 'a poll = Pending | Ready 'a

text \<open>
  \<open>std::io::Error\<close>: the kind and the message. \<open>Os n\<close> stands for an error of the operating
  system that the program only passes on.
\<close>

datatype error_kind =
    AddrInUse | OutOfMemory | UnexpectedEof | BrokenPipe | WriteZero | OtherKind | Os nat

datatype io_error = IoError (kind: error_kind) (message: string)

type_synonym 'a io_result = "io_error + 'a"

text \<open>
  How a call ends when it does not diverge: with a value, with a panic (a failed \<open>assert!\<close>,
  \<open>debug_assert!\<close>, \<open>expect\<close>, slice index or checked arithmetic operation), or in undefined
  behaviour (a violated precondition of an \<open>unsafe\<close> operation).
\<close>

datatype 'a run = Done 'a | Panicked | Undefined

primrec run_map :: "('a \<Rightarrow> 'b) \<Rightarrow> 'a run \<Rightarrow> 'b run" where
  "run_map f (Done x) = Done (f x)"
| "run_map f Panicked = Panicked"
| "run_map f Undefined = Undefined"

text \<open>\<open>std::cmp::Ordering\<close> and \<open>Ord::cmp\<close> on unsigned machine integers.\<close>

datatype ordering = Less | Equal | Greater

definition cmp_word :: "'n::len word \<Rightarrow> 'n word \<Rightarrow> ordering" where
  "cmp_word a b = (if a < b then Less else if a = b then Equal else Greater)"

text \<open>\<open>std::task::Waker\<close>: the no-op waker, or the waker of a numbered task.\<close>

datatype waker = Noop | Task nat

named_theorems outcome_simps \<open>case analysis of polls, results and runs\<close>
named_theorems mem_simps \<open>reads of byte memory after writes\<close>

lemma run_map_eq_Done [simp, outcome_simps]:
  "run_map f r = Done y \<longleftrightarrow> (\<exists>x. r = Done x \<and> y = f x)"
  by (cases r) auto

lemma cmp_word_eq_Equal [simp, outcome_simps]: "cmp_word a b = Equal \<longleftrightarrow> a = b"
  by (auto simp: cmp_word_def)

lemma cmp_word_eq_Less [simp, outcome_simps]: "cmp_word a b = Less \<longleftrightarrow> a < b"
  by (auto simp: cmp_word_def)

lemma cmp_word_eq_Greater [simp, outcome_simps]: "cmp_word a b = Greater \<longleftrightarrow> b < a"
  by (auto simp: cmp_word_def)

lemma cmp_word_refl [simp]: "cmp_word a a = Equal"
  by (simp add: cmp_word_def)

section \<open>Byte memory\<close>

text \<open>
  A block of \<open>MaybeUninit<u8>\<close> cells: \<open>None\<close> is a cell that is not initialised (or out of the
  block). \<open>mem_read m i n\<close> reads \<open>n\<close> cells from \<open>i\<close> and is \<open>None\<close> when one of them is not
  initialised; \<open>mem_write\<close> is \<open>ptr::copy_nonoverlapping\<close> into the block.
\<close>

type_synonym mem = "nat \<rightharpoonup> byte"

definition mem_read :: "mem \<Rightarrow> nat \<Rightarrow> nat \<Rightarrow> byte list option" where
  "mem_read m i n = those (map m [i..<i + n])"

definition mem_write :: "mem \<Rightarrow> nat \<Rightarrow> byte list \<Rightarrow> mem" where
  "mem_write m i bs = (\<lambda>k. if i \<le> k \<and> k < i + length bs then Some (bs ! (k - i)) else m k)"

lemma those_append:
  "those (xs @ ys) = (case those xs of None \<Rightarrow> None | Some as \<Rightarrow> map_option ((@) as) (those ys))"
proof (induction xs)
  case Nil
  show ?case by (cases "those ys") auto
next
  case (Cons x xs)
  then show ?case
    by (cases x; cases "those xs"; cases "those ys") auto
qed

lemma those_eq_Some_iff: "those xs = Some ys \<longleftrightarrow> xs = map Some ys"
proof (induction xs arbitrary: ys)
  case Nil
  then show ?case by auto
next
  case (Cons x xs)
  then show ?case by (cases ys) (auto split: option.splits)
qed

lemma mem_read_Some_iff:
  "mem_read m i n = Some bs \<longleftrightarrow> length bs = n \<and> (\<forall>k < n. m (i + k) = Some (bs ! k))"
  by (auto simp: mem_read_def those_eq_Some_iff list_eq_iff_nth_eq)

lemma mem_read_0 [simp, mem_simps]: "mem_read m i 0 = Some []"
  by (simp add: mem_read_def)

lemma mem_read_length [dest]: "mem_read m i n = Some bs \<Longrightarrow> length bs = n"
  by (simp add: mem_read_Some_iff)

lemma mem_read_append:
  assumes "mem_read m i n = Some as" and "mem_read m (i + n) k = Some bs"
  shows "mem_read m i (n + k) = Some (as @ bs)"
proof -
  have "m (i + j) = Some ((as @ bs) ! j)" if "j < n + k" for j
  proof (cases "j < n")
    case True
    with assms(1) show ?thesis by (simp add: mem_read_Some_iff nth_append)
  next
    case False
    with that have "j - n < k" by simp
    with assms(2) have "m (i + n + (j - n)) = Some (bs ! (j - n))"
      by (simp add: mem_read_Some_iff)
    with False assms(1) show ?thesis
      by (simp add: mem_read_Some_iff nth_append)
  qed
  with assms show ?thesis
    by (simp add: mem_read_Some_iff)
qed

lemma mem_read_prefix:
  assumes "mem_read m i n = Some bs" and "k \<le> n"
  shows "mem_read m i k = Some (take k bs)"
  using assms by (auto simp: mem_read_Some_iff)

lemma mem_read_suffix:
  assumes "mem_read m i n = Some bs" and "k \<le> n"
  shows "mem_read m (i + k) (n - k) = Some (drop k bs)"
  using assms by (auto simp: mem_read_Some_iff add.assoc)

lemma mem_read_sub:
  assumes "mem_read m i n = Some bs" and "k + l \<le> n"
  shows "mem_read m (i + k) l = Some (take l (drop k bs))"
  using assms by (auto simp: mem_read_Some_iff add.assoc)

lemma mem_write_Nil [simp, mem_simps]: "mem_write m i [] = m"
  by (auto simp: mem_write_def fun_eq_iff)

lemma mem_write_same [simp, mem_simps]: "mem_read (mem_write m i bs) i (length bs) = Some bs"
  by (simp add: mem_read_Some_iff mem_write_def)

lemma mem_write_below [mem_simps]: "i + n \<le> j \<Longrightarrow> mem_read (mem_write m j bs) i n = mem_read m i n"
proof -
  assume "i + n \<le> j"
  then have "map (mem_write m j bs) [i..<i + n] = map m [i..<i + n]"
    by (auto simp: mem_write_def)
  then show ?thesis
    unfolding mem_read_def by (rule arg_cong)
qed

lemma mem_write_append [mem_simps]:
  assumes "mem_read m 0 n = Some as"
  shows "mem_read (mem_write m n bs) 0 (n + length bs) = Some (as @ bs)"
  using assms by (intro mem_read_append) (auto simp: mem_simps)

section \<open>Big-endian numbers\<close>

text \<open>\<open>to_be_bytes\<close> and \<open>from_be_bytes\<close> of an unsigned integer of \<open>k\<close> bytes.\<close>

definition be_val :: "byte list \<Rightarrow> nat" where
  "be_val bs = foldl (\<lambda>acc b. 256 * acc + unat b) 0 bs"

primrec be_bytes :: "nat \<Rightarrow> nat \<Rightarrow> byte list" where
  "be_bytes 0 n = []"
| "be_bytes (Suc k) n = be_bytes k (n div 256) @ [of_nat n]"

lemma be_val_Nil [simp]: "be_val [] = 0"
  by (simp add: be_val_def)

lemma be_val_snoc [simp]: "be_val (bs @ [b]) = 256 * be_val bs + unat b"
  by (simp add: be_val_def)

lemma length_be_bytes [simp]: "length (be_bytes k n) = k"
  by (induction k arbitrary: n) auto

lemma unat_byte_bound: "unat (b :: byte) < 256"
  using unsigned_less [where ?'a = nat, of b] by simp

lemma unat_u16_bound: "unat (x :: u16) < 65536"
  using unsigned_less [where ?'a = nat, of x] by simp

lemma unat_ucast_mod: "unat (ucast (w :: 'a::len word) :: 'b::len word) = unat w mod 2 ^ LENGTH('b)"
  by (simp add: unsigned_ucast_eq take_bit_eq_mod)

lemma unat_of_nat_byte: "unat (of_nat n :: byte) = n mod 256"
  by (simp add: unat_of_nat)

lemma base256_unique:
  fixes a b c d :: nat
  assumes "256 * a + b = 256 * c + d" and "b < 256" and "d < 256"
  shows "a = c \<and> b = d"
proof -
  have "a = (256 * a + b) div 256" and "c = (256 * c + d) div 256"
    using assms(2,3) by simp_all
  with assms(1) show ?thesis by simp
qed

lemma div_256_add: "n mod 256 + k < 256 \<Longrightarrow> (n + k) div 256 = n div 256" for n k :: nat
proof -
  assume k: "n mod 256 + k < 256"
  define q r where "q = n div 256" and "r = n mod 256"
  then have "n = 256 * q + r"
    using mult_div_mod_eq [of 256 n] by simp
  moreover have "r + k < 256"
    using k by (simp only: r_def)
  ultimately have "(n + k) div 256 = q"
    by (simp add: add.assoc)
  then show ?thesis by (simp only: q_def)
qed

lemma round_up_256_bound: "n \<le> 65535 \<Longrightarrow> n + (255 - n mod 256) \<le> 65535" for n :: nat
proof -
  assume n: "n \<le> 65535"
  define q r where "q = n div 256" and "r = n mod 256"
  then have "n = 256 * q + r" and "r < 256"
    using mult_div_mod_eq [of 256 n] by simp_all
  moreover from this n have "q \<le> 255" by linarith
  ultimately have "n + (255 - r) \<le> 65535" by linarith
  then show ?thesis by (simp only: r_def)
qed

lemma be_val_bound: "be_val bs < 256 ^ length bs"
proof (induction bs rule: rev_induct)
  case Nil
  show ?case by simp
next
  case (snoc b bs)
  then show ?case using unat_byte_bound [of b] by (simp add: be_val_snoc)
qed

lemma be_bytes_be_val [simp]: "be_bytes (length bs) (be_val bs) = bs"
proof (induction bs rule: rev_induct)
  case Nil
  show ?case by simp
next
  case (snoc b bs)
  have "(of_nat (256 * be_val bs + unat b) :: byte) = b"
    by (simp only: word_unat_eq_iff unat_of_nat_byte) (simp add: unat_byte_bound)
  then show ?case
    using snoc unat_byte_bound [of b] by simp
qed

lemma be_val_be_bytes [simp]: "n < 256 ^ k \<Longrightarrow> be_val (be_bytes k n) = n"
proof (induction k arbitrary: n)
  case 0
  then show ?case by simp
next
  case (Suc k)
  from Suc.prems have "n div 256 < 256 ^ k"
    by (simp add: less_mult_imp_div_less mult.commute)
  then show ?case
    using Suc.IH by (simp add: unat_of_nat_byte)
qed

section \<open>Lists\<close>

lemma take_take_append:
  "k \<le> length xs \<Longrightarrow> take k (xs @ ys) = take k xs"
  by simp

lemma take_add_drop: "take n xs @ take k (drop n xs) = take (n + k) xs"
  by (simp add: take_add)

end
