(* ===== verification/Integers.thy ===== *)
theory Integers
  imports Mux_Prelude
begin

text \<open>
  \<open>src/integers.rs\<close>: the 16-bit integer kept in network byte order, with its comparisons. The
  locale \<open>total_cmp\<close> is the contract of Rust's \<open>Ord\<close>; the theory shows that \<open>Ord for
  NetworkOrderU16\<close> meets it and that \<open>PartialOrd for NetworkOrderU16\<close> does not agree with it.
\<close>

section \<open>Model\<close>

text \<open>\<open>NetworkOrderU16(pub [u8; 2])\<close>: the most significant byte first.\<close>

datatype network_order_u16 = NetworkOrderU16 (msb: u8) (lsb: u8)

definition NetworkOrderU16_new :: "u16 \<Rightarrow> network_order_u16" where
  "NetworkOrderU16_new x =
     NetworkOrderU16 (ucast (drop_bit 8 x)) (ucast x)"

definition NetworkOrderU16_get :: "network_order_u16 \<Rightarrow> u16" where
  "NetworkOrderU16_get n = push_bit 8 (ucast (msb n)) + ucast (lsb n)"

text \<open>The two bytes as they lie in memory.\<close>

definition NetworkOrderU16_bytes :: "network_order_u16 \<Rightarrow> byte list" where
  "NetworkOrderU16_bytes n = [msb n, lsb n]"

text \<open>
  \<open>Display\<close> shows the number, \<open>Debug\<close> the name of the type, the bytes and the number. The formatting of the standard library is a
  parameter.
\<close>

definition NetworkOrderU16_fmt :: "(u16 \<Rightarrow> 'r) \<Rightarrow> network_order_u16 \<Rightarrow> 'r" where
  "NetworkOrderU16_fmt display n = display (NetworkOrderU16_get n)"

definition NetworkOrderU16_debug :: "(string \<Rightarrow> string \<times> byte list \<Rightarrow> string \<times> u16 \<Rightarrow> 'r) \<Rightarrow> network_order_u16 \<Rightarrow> 'r" where
  "NetworkOrderU16_debug debug_struct n =
     debug_struct ''NetworkOrderU16'' (''bytes'', NetworkOrderU16_bytes n) (''value'', NetworkOrderU16_get n)"

text \<open>\<open>Ord::cmp\<close> and \<open>PartialOrd::partial_cmp\<close>. The source compares \<open>other\<close> with \<open>other\<close>.\<close>

definition NetworkOrderU16_cmp :: "network_order_u16 \<Rightarrow> network_order_u16 \<Rightarrow> ordering" where
  "NetworkOrderU16_cmp self other =
     cmp_word (NetworkOrderU16_get self) (NetworkOrderU16_get other)"

definition NetworkOrderU16_partial_cmp ::
  "network_order_u16 \<Rightarrow> network_order_u16 \<Rightarrow> ordering option" where
  "NetworkOrderU16_partial_cmp self other = Some (NetworkOrderU16_cmp other other)"

text \<open>The comparisons with a plain \<open>u16\<close>.\<close>

definition NetworkOrderU16_eq_u16 :: "network_order_u16 \<Rightarrow> u16 \<Rightarrow> bool" where
  "NetworkOrderU16_eq_u16 self other \<longleftrightarrow> NetworkOrderU16_get self = other"

definition NetworkOrderU16_ne_u16 :: "network_order_u16 \<Rightarrow> u16 \<Rightarrow> bool" where
  "NetworkOrderU16_ne_u16 self other \<longleftrightarrow> NetworkOrderU16_get self \<noteq> other"

definition NetworkOrderU16_partial_cmp_u16 :: "network_order_u16 \<Rightarrow> u16 \<Rightarrow> ordering option" where
  "NetworkOrderU16_partial_cmp_u16 self other =
     Some (cmp_word (NetworkOrderU16_get self) other)"

definition NetworkOrderU16_lt_u16 :: "network_order_u16 \<Rightarrow> u16 \<Rightarrow> bool" where
  "NetworkOrderU16_lt_u16 self other \<longleftrightarrow> NetworkOrderU16_get self < other"

definition NetworkOrderU16_le_u16 :: "network_order_u16 \<Rightarrow> u16 \<Rightarrow> bool" where
  "NetworkOrderU16_le_u16 self other \<longleftrightarrow> NetworkOrderU16_get self \<le> other"

definition NetworkOrderU16_gt_u16 :: "network_order_u16 \<Rightarrow> u16 \<Rightarrow> bool" where
  "NetworkOrderU16_gt_u16 self other \<longleftrightarrow> NetworkOrderU16_get self > other"

definition NetworkOrderU16_ge_u16 :: "network_order_u16 \<Rightarrow> u16 \<Rightarrow> bool" where
  "NetworkOrderU16_ge_u16 self other \<longleftrightarrow> NetworkOrderU16_get self \<ge> other"

section \<open>The contract of \<open>Ord\<close>\<close>

text \<open>
  What \<open>std::cmp::Ord\<close> asks of \<open>cmp\<close>: equality agrees with \<open>Eq\<close>, the relation is
  antisymmetric and transitive. \<open>PartialOrd\<close> has to agree: \<open>partial_cmp a b = Some (cmp a b)\<close>.
\<close>

fun flip_ordering :: "ordering \<Rightarrow> ordering" where
  "flip_ordering Less = Greater"
| "flip_ordering Equal = Equal"
| "flip_ordering Greater = Less"

locale total_cmp =
  fixes cmp :: "'a \<Rightarrow> 'a \<Rightarrow> ordering"
  assumes cmp_Equal: "cmp a b = Equal \<longleftrightarrow> a = b"
    and cmp_flip: "cmp b a = flip_ordering (cmp a b)"
    and cmp_Less_trans: "cmp a b = Less \<Longrightarrow> cmp b c = Less \<Longrightarrow> cmp a c = Less"
begin

lemma cmp_refl: "cmp a a = Equal"
  by (simp add: cmp_Equal)

lemma cmp_trichotomy: "cmp a b = Less \<or> a = b \<or> cmp b a = Less"
  using cmp_flip [of b a] cmp_Equal [of a b] by (cases "cmp a b") auto

lemma cmp_asym: "cmp a b = Less \<Longrightarrow> cmp b a \<noteq> Less"
  using cmp_flip [of b a] by auto

end

text \<open>Lexicographic comparison of two fields, as \<open>#[derive(Ord)]\<close> generates it.\<close>

definition then_cmp :: "ordering \<Rightarrow> ordering \<Rightarrow> ordering" where
  "then_cmp a b = (case a of Equal \<Rightarrow> b | _ \<Rightarrow> a)"

lemma then_cmp_Equal [simp]: "then_cmp a b = Equal \<longleftrightarrow> a = Equal \<and> b = Equal"
  by (cases a) (auto simp: then_cmp_def)

lemma then_cmp_Less: "then_cmp a b = Less \<longleftrightarrow> a = Less \<or> a = Equal \<and> b = Less"
  by (cases a) (auto simp: then_cmp_def)

lemma flip_then_cmp: "flip_ordering (then_cmp a b) = then_cmp (flip_ordering a) (flip_ordering b)"
  by (cases a) (auto simp: then_cmp_def)

text \<open>Comparing by an injective key, and comparing pairs, give the contract again.\<close>

locale total_cmp_key = total_cmp cmp for cmp :: "'a \<Rightarrow> 'a \<Rightarrow> ordering" +
  fixes key :: "'b \<Rightarrow> 'a"
  assumes key_inject: "key x = key y \<longleftrightarrow> x = y"

sublocale total_cmp_key \<subseteq> by_key: total_cmp "\<lambda>x y. cmp (key x) (key y)"
  by unfold_locales (auto simp: cmp_Equal key_inject intro: cmp_flip cmp_Less_trans)

locale total_cmp_pair = fst_cmp: total_cmp cmp1 + snd_cmp: total_cmp cmp2
  for cmp1 :: "'a \<Rightarrow> 'a \<Rightarrow> ordering" and cmp2 :: "'b \<Rightarrow> 'b \<Rightarrow> ordering"

sublocale total_cmp_pair \<subseteq>
  lex: total_cmp "\<lambda>p q. then_cmp (cmp1 (fst p) (fst q)) (cmp2 (snd p) (snd q))"
proof unfold_locales
  fix p q r :: "'a \<times> 'b"
  show "then_cmp (cmp1 (fst p) (fst q)) (cmp2 (snd p) (snd q)) = Equal \<longleftrightarrow> p = q"
    by (simp add: fst_cmp.cmp_Equal snd_cmp.cmp_Equal prod_eq_iff)
  show "then_cmp (cmp1 (fst q) (fst p)) (cmp2 (snd q) (snd p)) =
      flip_ordering (then_cmp (cmp1 (fst p) (fst q)) (cmp2 (snd p) (snd q)))"
    using fst_cmp.cmp_flip [of "fst q" "fst p"] snd_cmp.cmp_flip [of "snd q" "snd p"]
    by (simp add: flip_then_cmp)
  show "then_cmp (cmp1 (fst p) (fst r)) (cmp2 (snd p) (snd r)) = Less"
    if "then_cmp (cmp1 (fst p) (fst q)) (cmp2 (snd p) (snd q)) = Less"
      and "then_cmp (cmp1 (fst q) (fst r)) (cmp2 (snd q) (snd r)) = Less"
    using that fst_cmp.cmp_Less_trans [of "fst p" "fst q" "fst r"]
      snd_cmp.cmp_Less_trans [of "snd p" "snd q" "snd r"]
    by (auto simp: then_cmp_Less fst_cmp.cmp_Equal)
qed

text \<open>\<open>Ord\<close> of the machine integers.\<close>

lemma cmp_word_total: "total_cmp (cmp_word :: 'n::len word \<Rightarrow> _)"
  by unfold_locales (auto simp: cmp_word_def split: if_splits)

section \<open>Lemmas\<close>

lemma unat_NetworkOrderU16_get:
  "unat (NetworkOrderU16_get n) = 256 * unat (msb n) + unat (lsb n)"
proof -
  have hi: "unat (msb n) < 256" and lo: "unat (lsb n) < 256"
    by (rule unat_byte_bound)+
  have "unat (push_bit 8 (ucast (msb n) :: u16)) = 256 * unat (msb n)"
    using hi by (simp add: push_bit_eq_mult unat_word_ariths unat_ucast_mod)
  moreover have "unat (ucast (lsb n) :: u16) = unat (lsb n)"
    using lo by (simp add: unat_ucast_mod)
  ultimately show ?thesis
    using hi lo by (simp add: NetworkOrderU16_get_def unat_word_ariths)
qed

lemma unat_msb_new [simp]: "unat (msb (NetworkOrderU16_new x)) = unat x div 256"
proof -
  have "unat (drop_bit 8 x) = unat x div 256"
    by (simp add: drop_bit_eq_div unat_div_distrib)
  moreover have "unat x div 256 < 256"
    using unat_u16_bound [of x] by (simp add: less_mult_imp_div_less)
  ultimately show ?thesis
    by (simp add: NetworkOrderU16_new_def unat_ucast_mod)
qed

lemma unat_lsb_new [simp]: "unat (lsb (NetworkOrderU16_new x)) = unat x mod 256"
  by (simp add: NetworkOrderU16_new_def unat_ucast_mod)

lemma get_new [simp]: "NetworkOrderU16_get (NetworkOrderU16_new x) = x"
  by (rule word_unat_eq_iff [THEN iffD2]) (simp add: unat_NetworkOrderU16_get)

lemma get_inject: "NetworkOrderU16_get a = NetworkOrderU16_get b \<longleftrightarrow> a = b"
proof
  assume "NetworkOrderU16_get a = NetworkOrderU16_get b"
  then have "256 * unat (msb a) + unat (lsb a) = 256 * unat (msb b) + unat (lsb b)"
    by (metis unat_NetworkOrderU16_get)
  then have "unat (msb a) = unat (msb b) \<and> unat (lsb a) = unat (lsb b)"
    by (rule base256_unique) (rule unat_byte_bound)+
  then show "a = b"
    by (metis network_order_u16.expand word_unat_eq_iff)
qed simp

lemma new_get [simp]: "NetworkOrderU16_new (NetworkOrderU16_get n) = n"
  by (simp add: get_inject [symmetric])

lemma length_NetworkOrderU16_bytes [simp]: "length (NetworkOrderU16_bytes n) = 2"
  by (simp add: NetworkOrderU16_bytes_def)

interpretation no_ord: total_cmp_key cmp_word NetworkOrderU16_get
  by (rule total_cmp_key.intro [OF cmp_word_total]) (unfold_locales, rule get_inject)

lemma NetworkOrderU16_cmp_total: "total_cmp NetworkOrderU16_cmp"
  using no_ord.by_key.total_cmp_axioms unfolding NetworkOrderU16_cmp_def .

section \<open>Round trip and comparisons\<close>

text \<open>
  Storing a \<open>u16\<close> in network order and reading it back loses nothing in either direction, and the
  two bytes in memory are the big-endian digits of the number.
\<close>

lemma NetworkOrderU16_roundtrip:
  "NetworkOrderU16_get (NetworkOrderU16_new x) = x \<and>
   NetworkOrderU16_new (NetworkOrderU16_get n) = n \<and>
   map unat (NetworkOrderU16_bytes (NetworkOrderU16_new x)) = [unat x div 256, unat x mod 256] \<and>
   unat (NetworkOrderU16_get n) = be_val (NetworkOrderU16_bytes n)"
  by (simp add: NetworkOrderU16_bytes_def unat_NetworkOrderU16_get be_val_def)

text \<open>
  The comparisons with a plain \<open>u16\<close> are all those of the number the two bytes spell: each
  operator agrees with the ordering that \<open>partial_cmp\<close> reports.
\<close>

lemma NetworkOrderU16_u16_comparisons:
  "(NetworkOrderU16_lt_u16 n x \<longleftrightarrow> NetworkOrderU16_partial_cmp_u16 n x = Some Less) \<and>
   (NetworkOrderU16_gt_u16 n x \<longleftrightarrow> NetworkOrderU16_partial_cmp_u16 n x = Some Greater) \<and>
   (NetworkOrderU16_eq_u16 n x \<longleftrightarrow> NetworkOrderU16_partial_cmp_u16 n x = Some Equal) \<and>
   (NetworkOrderU16_ne_u16 n x \<longleftrightarrow> \<not> NetworkOrderU16_eq_u16 n x) \<and>
   (NetworkOrderU16_le_u16 n x \<longleftrightarrow> \<not> NetworkOrderU16_gt_u16 n x) \<and>
   (NetworkOrderU16_ge_u16 n x \<longleftrightarrow> \<not> NetworkOrderU16_lt_u16 n x) \<and>
   (NetworkOrderU16_eq_u16 n x \<longleftrightarrow> n = NetworkOrderU16_new x)"
proof -
  have eq: "NetworkOrderU16_get n = x \<longleftrightarrow> n = NetworkOrderU16_new x"
    by (metis get_new new_get)
  moreover have "x < NetworkOrderU16_get n" if "NetworkOrderU16_get n \<noteq> x" "\<not> NetworkOrderU16_get n < x"
    using that by simp
  ultimately show ?thesis
    by (auto simp: NetworkOrderU16_lt_u16_def NetworkOrderU16_gt_u16_def NetworkOrderU16_eq_u16_def
        NetworkOrderU16_ne_u16_def NetworkOrderU16_le_u16_def NetworkOrderU16_ge_u16_def
        NetworkOrderU16_partial_cmp_u16_def cmp_word_def)
qed

end
