(* ===== verification/Thin_Addr.thy ===== *)
theory Thin_Addr
  imports Integers
begin

text \<open>
  \<open>src/thin_addr.rs\<close>: the 16-byte \<open>IpAddr\<close> and the 18-byte \<open>SocketAddr\<close>, their conversions from
  and to the standard library's addresses, their layout in memory, hashing and comparison. The
  standard library's addresses and the conversions the source calls are modelled first.
\<close>

section \<open>Addresses of the standard library\<close>

text \<open>\<open>[u8; 16]\<close>.\<close>

typedef octets16 = "{xs :: byte list. length xs = 16}" morphisms octet_list Abs_octets16
  by (rule exI [of _ "replicate 16 0"]) simp

lemma Abs_octets16_inverse_code [code abstype]: "Abs_octets16 (octet_list a) = a"
  by (rule octet_list_inverse)

definition octets16_of :: "byte list \<Rightarrow> octets16" where
  "octets16_of xs = Abs_octets16 (take 16 (xs @ replicate 16 0))"

lemma octet_list_octets16_of_code [code abstract]:
  "octet_list (octets16_of xs) = take 16 (xs @ replicate 16 0)"
  by (simp add: octets16_of_def Abs_octets16_inverse)

instantiation octets16 :: equal
begin

definition equal_octets16 :: "octets16 \<Rightarrow> octets16 \<Rightarrow> bool" where
  "equal_octets16 a b \<longleftrightarrow> octet_list a = octet_list b"

instance
  by standard (simp add: equal_octets16_def octet_list_inject)

end

lemma length_octet_list [simp]: "length (octet_list a) = 16"
  using octet_list [of a] by simp

lemma octet_list_octets16_of [simp]: "length xs = 16 \<Longrightarrow> octet_list (octets16_of xs) = xs"
  by (simp add: octet_list_octets16_of_code)

lemma octets16_of_octet_list [simp]: "octets16_of (octet_list a) = a"
  by (simp add: octet_list_inject [symmetric])

lemma octets16_of_inject:
  "length xs = 16 \<Longrightarrow> length ys = 16 \<Longrightarrow> octets16_of xs = octets16_of ys \<longleftrightarrow> xs = ys"
  by (metis octet_list_octets16_of)

datatype ipv4_addr = Ipv4Addr u8 u8 u8 u8

type_synonym ipv6_addr = octets16

datatype std_ip_addr = V4 ipv4_addr | V6 ipv6_addr

text \<open>\<open>std::net::SocketAddr\<close>; an IPv6 socket address also has a flow label and a scope id.\<close>

datatype std_socket_addr =
    SockV4 ipv4_addr u16
  | SockV6 ipv6_addr u16 (flowinfo: u32) (scope_id: u32)

fun std_ip :: "std_socket_addr \<Rightarrow> std_ip_addr" where
  "std_ip (SockV4 a p) = V4 a"
| "std_ip (SockV6 a p f s) = V6 a"

fun std_port :: "std_socket_addr \<Rightarrow> u16" where
  "std_port (SockV4 a p) = p"
| "std_port (SockV6 a p f s) = p"

fun std_socket_addr_new :: "std_ip_addr \<Rightarrow> u16 \<Rightarrow> std_socket_addr" where
  "std_socket_addr_new (V4 a) p = SockV4 a p"
| "std_socket_addr_new (V6 a) p = SockV6 a p 0 0"

definition u128_from_be_bytes :: "octets16 \<Rightarrow> u128" where
  "u128_from_be_bytes o' = of_nat (be_val (octet_list o'))"

definition ipv6_from_bits :: "u128 \<Rightarrow> ipv6_addr" where
  "ipv6_from_bits w = octets16_of (be_bytes 16 (unat w))"

fun to_ipv6_mapped :: "ipv4_addr \<Rightarrow> ipv6_addr" where
  "to_ipv6_mapped (Ipv4Addr a b c d) = octets16_of (replicate 10 0 @ [255, 255, a, b, c, d])"

definition is_ipv4_mapped :: "ipv6_addr \<Rightarrow> bool" where
  "is_ipv4_mapped v6 \<longleftrightarrow> take 12 (octet_list v6) = replicate 10 0 @ [255, 255]"

definition to_canonical :: "ipv6_addr \<Rightarrow> std_ip_addr" where
  "to_canonical v6 =
     (if is_ipv4_mapped v6
      then V4 (Ipv4Addr (octet_list v6 ! 12) (octet_list v6 ! 13)
                        (octet_list v6 ! 14) (octet_list v6 ! 15))
      else V6 v6)"

section \<open>Model\<close>

record ip_addr =
  octets :: octets16

definition IpAddr_to_std :: "ip_addr \<Rightarrow> std_ip_addr" where
  "IpAddr_to_std self = to_canonical (ipv6_from_bits (u128_from_be_bytes (octets self)))"

definition IpAddr_from_std :: "std_ip_addr \<Rightarrow> ip_addr" where
  "IpAddr_from_std ip =
     (let v6 = (case ip of V4 v4 \<Rightarrow> to_ipv6_mapped v4 | V6 v6 \<Rightarrow> v6)
      in \<lparr>octets = v6\<rparr>)"

record socket_addr =
  ip :: ip_addr
  port :: network_order_u16

definition SocketAddr_ip :: "socket_addr \<Rightarrow> ip_addr" where
  "SocketAddr_ip self = ip self"

definition SocketAddr_port :: "socket_addr \<Rightarrow> u16" where
  "SocketAddr_port self = NetworkOrderU16_get (port self)"

definition SocketAddr_to_std :: "socket_addr \<Rightarrow> std_socket_addr" where
  "SocketAddr_to_std self =
     std_socket_addr_new (IpAddr_to_std (ip self)) (NetworkOrderU16_get (port self))"

definition SocketAddr_from_std :: "std_socket_addr \<Rightarrow> socket_addr" where
  "SocketAddr_from_std sock =
     \<lparr>ip = IpAddr_from_std (std_ip sock), port = NetworkOrderU16_new (std_port sock)\<rparr>"

text \<open>\<open>bytemuck::bytes_of\<close>: the layout of the packed structs.\<close>

definition IpAddr_bytes :: "ip_addr \<Rightarrow> byte list" where
  "IpAddr_bytes self = octet_list (octets self)"

definition SocketAddr_bytes :: "socket_addr \<Rightarrow> byte list" where
  "SocketAddr_bytes self = IpAddr_bytes (ip self) @ NetworkOrderU16_bytes (port self)"

definition SocketAddr_of_bytes :: "byte list \<Rightarrow> socket_addr" where
  "SocketAddr_of_bytes bs =
     \<lparr>ip = \<lparr>octets = octets16_of (take 16 bs)\<rparr>, port = NetworkOrderU16 (bs ! 16) (bs ! 17)\<rparr>"

text \<open>\<open>impl_display_debug!\<close>, over the standard library's formatter of the standard type.\<close>

definition IpAddr_fmt :: "(std_ip_addr \<Rightarrow> 'r) \<Rightarrow> ip_addr \<Rightarrow> 'r" where
  "IpAddr_fmt fmt self = fmt (IpAddr_to_std self)"

definition SocketAddr_fmt :: "(std_socket_addr \<Rightarrow> 'r) \<Rightarrow> socket_addr \<Rightarrow> 'r" where
  "SocketAddr_fmt fmt self = fmt (SocketAddr_to_std self)"

text \<open>\<open>impl_byte_hash!\<close>, over the hasher's \<open>write\<close>.\<close>

definition IpAddr_hash :: "('h \<Rightarrow> byte list \<Rightarrow> 'h) \<Rightarrow> ip_addr \<Rightarrow> 'h \<Rightarrow> 'h" where
  "IpAddr_hash hasher self state = hasher state (IpAddr_bytes self)"

definition SocketAddr_hash :: "('h \<Rightarrow> byte list \<Rightarrow> 'h) \<Rightarrow> socket_addr \<Rightarrow> 'h \<Rightarrow> 'h" where
  "SocketAddr_hash hasher self state = hasher state (SocketAddr_bytes self)"

definition IpAddr_hash_slice :: "('h \<Rightarrow> byte list \<Rightarrow> 'h) \<Rightarrow> ip_addr list \<Rightarrow> 'h \<Rightarrow> 'h" where
  "IpAddr_hash_slice hasher data state = hasher state (concat (map IpAddr_bytes data))"

definition SocketAddr_hash_slice ::
  "('h \<Rightarrow> byte list \<Rightarrow> 'h) \<Rightarrow> socket_addr list \<Rightarrow> 'h \<Rightarrow> 'h" where
  "SocketAddr_hash_slice hasher data state = hasher state (concat (map SocketAddr_bytes data))"

text \<open>\<open>impl_from_str!\<close>, over the standard library's parser.\<close>

definition SocketAddr_from_str :: "(string \<Rightarrow> 'e + std_socket_addr) \<Rightarrow> string \<Rightarrow> 'e + socket_addr" where
  "SocketAddr_from_str parse s =
     (case parse s of Inl e \<Rightarrow> Inl e | Inr a \<Rightarrow> Inr (SocketAddr_from_std a))"

definition IpAddr_from_str :: "(string \<Rightarrow> 'e + std_ip_addr) \<Rightarrow> string \<Rightarrow> 'e + ip_addr" where
  "IpAddr_from_str parse s =
     (case parse s of Inl e \<Rightarrow> Inl e | Inr a \<Rightarrow> Inr (IpAddr_from_std a))"

text \<open>The derived comparisons: arrays lexicographically, then the fields in order.\<close>

fun cmp_bytes :: "byte list \<Rightarrow> byte list \<Rightarrow> ordering" where
  "cmp_bytes [] [] = Equal"
| "cmp_bytes [] (y # ys) = Less"
| "cmp_bytes (x # xs) [] = Greater"
| "cmp_bytes (x # xs) (y # ys) = then_cmp (cmp_word x y) (cmp_bytes xs ys)"

definition IpAddr_cmp :: "ip_addr \<Rightarrow> ip_addr \<Rightarrow> ordering" where
  "IpAddr_cmp self other = cmp_bytes (octet_list (octets self)) (octet_list (octets other))"

definition IpAddr_partial_cmp :: "ip_addr \<Rightarrow> ip_addr \<Rightarrow> ordering option" where
  "IpAddr_partial_cmp self other =
     Some (cmp_bytes (octet_list (octets self)) (octet_list (octets other)))"

definition SocketAddr_cmp :: "socket_addr \<Rightarrow> socket_addr \<Rightarrow> ordering" where
  "SocketAddr_cmp self other =
     then_cmp (IpAddr_cmp (ip self) (ip other)) (NetworkOrderU16_cmp (port self) (port other))"

definition SocketAddr_partial_cmp :: "socket_addr \<Rightarrow> socket_addr \<Rightarrow> ordering option" where
  "SocketAddr_partial_cmp self other =
     (case IpAddr_partial_cmp (ip self) (ip other) of
        Some Equal \<Rightarrow> NetworkOrderU16_partial_cmp (port self) (port other)
      | c \<Rightarrow> c)"

section \<open>Lemmas\<close>

lemma ipv6_from_bits_from_be [simp]: "ipv6_from_bits (u128_from_be_bytes v6) = v6"
proof -
  have "be_val (octet_list v6) < 2 ^ 128"
    using be_val_bound [of "octet_list v6"] by simp
  then have "unat (u128_from_be_bytes v6) = be_val (octet_list v6)"
    by (simp add: u128_from_be_bytes_def unat_of_nat)
  then show ?thesis
    using be_bytes_be_val [of "octet_list v6"] by (simp add: ipv6_from_bits_def)
qed

lemma take_12_mapped: "is_ipv4_mapped (to_ipv6_mapped v4)"
  by (cases v4) (simp add: is_ipv4_mapped_def eval_nat_numeral)

lemma to_canonical_mapped [simp]: "to_canonical (to_ipv6_mapped v4) = V4 v4"
  using take_12_mapped [of v4] by (cases v4) (simp add: to_canonical_def eval_nat_numeral)

lemma drop_12_octets: "drop 12 (octet_list v6) =
    [octet_list v6 ! 12, octet_list v6 ! 13, octet_list v6 ! 14, octet_list v6 ! 15]"
  by (simp add: list_eq_iff_nth_eq less_Suc_eq eval_nat_numeral all_conj_distrib)

lemma mapped_to_canonical [simp]:
  "(case to_canonical v6 of V4 v4 \<Rightarrow> to_ipv6_mapped v4 | V6 v6' \<Rightarrow> v6') = v6"
proof (cases "is_ipv4_mapped v6")
  case True
  have "take 12 (octet_list v6) @ drop 12 (octet_list v6) = octet_list v6"
    by simp
  with True have "replicate 10 0 @ [255, 255, octet_list v6 ! 12, octet_list v6 ! 13,
      octet_list v6 ! 14, octet_list v6 ! 15] = octet_list v6"
    by (simp add: is_ipv4_mapped_def drop_12_octets)
  with True show ?thesis
    by (simp add: to_canonical_def)
qed (simp add: to_canonical_def)

lemma length_SocketAddr_bytes [simp]: "length (SocketAddr_bytes a) = 18"
  by (simp add: SocketAddr_bytes_def IpAddr_bytes_def)

lemma SocketAddr_of_bytes_append [simp]:
  "SocketAddr_of_bytes (SocketAddr_bytes a @ bs) = a"
  by (simp add: SocketAddr_of_bytes_def SocketAddr_bytes_def IpAddr_bytes_def nth_append
      NetworkOrderU16_bytes_def)

lemma SocketAddr_bytes_inject: "SocketAddr_bytes a = SocketAddr_bytes b \<longleftrightarrow> a = b"
  by (metis SocketAddr_of_bytes_append append_Nil2)

lemma SocketAddr_bytes_of_bytes:
  assumes "18 \<le> length bs"
  shows "SocketAddr_bytes (SocketAddr_of_bytes bs) = take 18 bs"
proof -
  have "take 18 bs = take 16 bs @ take 2 (drop 16 bs)"
    by (simp add: take_add [of 16 2, simplified])
  moreover have "take 2 (drop 16 bs) = [bs ! 16, bs ! 17]"
    using assms by (auto simp: list_eq_iff_nth_eq less_2_cases_iff)
  ultimately show ?thesis
    using assms by (simp add: SocketAddr_bytes_def SocketAddr_of_bytes_def IpAddr_bytes_def
        NetworkOrderU16_bytes_def)
qed

text \<open>The derived \<open>Ord\<close> instances meet the contract.\<close>

lemma cmp_bytes_total: "total_cmp cmp_bytes"
proof
  fix a b c :: "byte list"
  show "cmp_bytes a b = Equal \<longleftrightarrow> a = b"
    by (induction a b rule: cmp_bytes.induct) auto
  show "cmp_bytes b a = flip_ordering (cmp_bytes a b)"
  proof (induction a b rule: cmp_bytes.induct)
    case (4 x xs y ys)
    then show ?case
      using total_cmp.cmp_flip [OF cmp_word_total, of y x] by (simp add: flip_then_cmp)
  qed auto
  show "cmp_bytes a c = Less" if "cmp_bytes a b = Less" and "cmp_bytes b c = Less"
    using that
  proof (induction a b arbitrary: c rule: cmp_bytes.induct)
    case (2 y ys)
    then show ?case by (cases c) auto
  next
    case (4 x xs y ys)
    then show ?case
      by (cases c) (auto simp: then_cmp_Less)
  qed auto
qed

interpretation ip_ord: total_cmp_key cmp_bytes "\<lambda>a :: ip_addr. octet_list (octets a)"
  by (rule total_cmp_key.intro [OF cmp_bytes_total])
    (unfold_locales, auto simp: octet_list_inject intro: ip_addr.equality)

lemma IpAddr_cmp_total: "total_cmp IpAddr_cmp"
  using ip_ord.by_key.total_cmp_axioms unfolding IpAddr_cmp_def .

interpretation socket_fields_ord: total_cmp_pair IpAddr_cmp NetworkOrderU16_cmp
  by (rule total_cmp_pair.intro [OF IpAddr_cmp_total NetworkOrderU16_cmp_total])

interpretation socket_ord: total_cmp_key
  "\<lambda>p q. then_cmp (IpAddr_cmp (fst p) (fst q)) (NetworkOrderU16_cmp (snd p) (snd q))"
  "\<lambda>a :: socket_addr. (ip a, port a)"
  by (rule total_cmp_key.intro [OF socket_fields_ord.lex.total_cmp_axioms])
    (unfold_locales, auto intro: socket_addr.equality)

lemma SocketAddr_cmp_total: "total_cmp SocketAddr_cmp"
  using socket_ord.by_key.total_cmp_axioms unfolding SocketAddr_cmp_def by simp

lemma std_socket_addr_new_fields [simp]:
  "std_ip (std_socket_addr_new i p) = i" "std_port (std_socket_addr_new i p) = p"
  by (cases i; simp)+

lemma IpAddr_from_to_std [simp]: "IpAddr_from_std (IpAddr_to_std i) = i"
  by (simp add: IpAddr_from_std_def IpAddr_to_std_def)

lemma SocketAddr_from_to_std [simp]: "SocketAddr_from_std (SocketAddr_to_std a) = a"
  by (simp add: SocketAddr_from_std_def SocketAddr_to_std_def)

lemma IpAddr_to_from_std:
  "IpAddr_to_std (IpAddr_from_std i) = (case i of V4 v4 \<Rightarrow> V4 v4 | V6 v6 \<Rightarrow> to_canonical v6)"
  by (cases i) (simp_all add: IpAddr_from_std_def IpAddr_to_std_def)

lemma SocketAddr_to_from_std:
  "SocketAddr_to_std (SocketAddr_from_std s) =
     std_socket_addr_new (case std_ip s of V4 v4 \<Rightarrow> V4 v4 | V6 v6 \<Rightarrow> to_canonical v6) (std_port s)"
  by (simp add: SocketAddr_to_std_def SocketAddr_from_std_def IpAddr_to_from_std)

section \<open>Properties\<close>

text \<open>
  C32. Every thin address survives the way through the standard type; a standard address comes back
  canonical (an IPv4-mapped IPv6 address as IPv4) with its port, and without the flow label and
  scope id, which the thin address does not store.
\<close>

theorem SocketAddr_std_roundtrip:
  "SocketAddr_from_std (SocketAddr_to_std a) = a \<and>
   SocketAddr_to_std (SocketAddr_from_std s) =
     (case s of SockV4 v4 p \<Rightarrow> SockV4 v4 p
      | SockV6 v6 p f sc \<Rightarrow> std_socket_addr_new (to_canonical v6) p)"
  by (simp add: SocketAddr_to_from_std split: std_socket_addr.split)

text \<open>
  Printing a thin address and parsing the text gives the address back, whenever the standard
  library parses what it printed.
\<close>

theorem SocketAddr_text_roundtrip:
  assumes "parse (fmt (SocketAddr_to_std a)) = Inr (SocketAddr_to_std a)"
  shows "SocketAddr_from_str parse (SocketAddr_fmt fmt a) = Inr a"
  using assms by (simp add: SocketAddr_from_str_def SocketAddr_fmt_def)

theorem SocketAddr_text_roundtrip_witness:
  "SocketAddr_from_str (\<lambda>t. Inr (SockV4 (Ipv4Addr 127 0 0 1) 80) :: string + std_socket_addr)
     (SocketAddr_fmt (\<lambda>a. ''127.0.0.1:80'') (SocketAddr_from_std (SockV4 (Ipv4Addr 127 0 0 1) 80))) =
   Inr (SocketAddr_from_std (SockV4 (Ipv4Addr 127 0 0 1) 80))"
  by (rule SocketAddr_text_roundtrip)
    (simp add: SocketAddr_to_std_def SocketAddr_from_std_def IpAddr_to_from_std)

text \<open>
  \<open>Ord for SocketAddr\<close> is a strict linear order: its \<open>Less\<close> is irreflexive, transitive and total,
  its \<open>Equal\<close> is equality, and the comparison of the swapped arguments is the flipped one.
\<close>

theorem SocketAddr_cmp_linear:
  "trans {(a, b). SocketAddr_cmp a b = Less} \<and> irrefl {(a, b). SocketAddr_cmp a b = Less} \<and>
   total {(a, b). SocketAddr_cmp a b = Less} \<and>
   (SocketAddr_cmp x y = Equal \<longleftrightarrow> x = y) \<and> SocketAddr_cmp y x = flip_ordering (SocketAddr_cmp x y)"
proof (intro conjI)
  show "trans {(a, b). SocketAddr_cmp a b = Less}"
    by (rule transI) (use total_cmp.cmp_Less_trans [OF SocketAddr_cmp_total] in blast)
  show "irrefl {(a, b). SocketAddr_cmp a b = Less}"
    by (rule irreflI) (simp add: total_cmp.cmp_refl [OF SocketAddr_cmp_total])
  show "total {(a, b). SocketAddr_cmp a b = Less}"
    by (rule total_onI) (use total_cmp.cmp_trichotomy [OF SocketAddr_cmp_total] in blast)
  show "SocketAddr_cmp x y = Equal \<longleftrightarrow> x = y"
    by (rule total_cmp.cmp_Equal [OF SocketAddr_cmp_total])
  show "SocketAddr_cmp y x = flip_ordering (SocketAddr_cmp x y)"
    by (rule total_cmp.cmp_flip [OF SocketAddr_cmp_total])
qed

text \<open>
  C35. \<open>PartialOrd for NetworkOrderU16\<close> compares its argument with itself and always answers
  \<open>Some(Equal)\<close>, so the derived \<open>PartialOrd for SocketAddr\<close> ignores the port: it disagrees with
  \<open>Ord\<close> exactly when the addresses differ in nothing but the port.
\<close>

theorem SocketAddr_partial_cmp_ignores_port:
  "NetworkOrderU16_partial_cmp m n = Some Equal \<and>
   SocketAddr_partial_cmp a b = Some (IpAddr_cmp (ip a) (ip b)) \<and>
   (SocketAddr_partial_cmp a b \<noteq> Some (SocketAddr_cmp a b) \<longleftrightarrow> ip a = ip b \<and> port a \<noteq> port b)"
proof -
  have p: "NetworkOrderU16_partial_cmp m n = Some Equal" for m n
    by (simp add: NetworkOrderU16_partial_cmp_def total_cmp.cmp_refl [OF NetworkOrderU16_cmp_total])
  have q: "SocketAddr_partial_cmp a b = Some (IpAddr_cmp (ip a) (ip b))"
    by (simp add: SocketAddr_partial_cmp_def IpAddr_partial_cmp_def IpAddr_cmp_def p split: ordering.split)
  have "then_cmp (IpAddr_cmp (ip a) (ip b)) c = IpAddr_cmp (ip a) (ip b) \<longleftrightarrow> ip a \<noteq> ip b \<or> c = Equal" for c
    using total_cmp.cmp_Equal [OF IpAddr_cmp_total, of "ip a" "ip b"]
    by (cases "IpAddr_cmp (ip a) (ip b)") (auto simp: then_cmp_def)
  then have "SocketAddr_cmp a b = IpAddr_cmp (ip a) (ip b) \<longleftrightarrow> ip a \<noteq> ip b \<or> port a = port b"
    by (simp add: SocketAddr_cmp_def total_cmp.cmp_Equal [OF NetworkOrderU16_cmp_total])
  with p q show ?thesis by auto
qed

end
