(* ===== verification/Protocol.thy ===== *)
theory Protocol
  imports Thin_Addr
begin

text \<open>
  \<open>src/protocol.rs\<close>: the 20-byte frame header, a socket address followed by the big-endian length
  of the payload, and the abstract format of the wire: a sequence of frames. A frame with an empty
  payload opens or closes a connection.
\<close>

section \<open>Model\<close>

record mux_frame_header =
  socket :: socket_addr
  len :: network_order_u16

definition MuxFrameHeader_empty :: "socket_addr \<Rightarrow> mux_frame_header" where
  "MuxFrameHeader_empty s = \<lparr>socket = s, len = NetworkOrderU16_new 0\<rparr>"

definition MuxFrameHeader_addr :: "mux_frame_header \<Rightarrow> socket_addr" where
  "MuxFrameHeader_addr self = socket self"

definition MuxFrameHeader_len :: "mux_frame_header \<Rightarrow> u16" where
  "MuxFrameHeader_len self = NetworkOrderU16_get (len self)"

text \<open>
  The struct is \<open>repr(C, packed)\<close> and \<open>Pod\<close>: its 20 bytes (\<open>bytemuck::bytes_of\<close>), and the header
  that 20 initialised bytes hold (\<open>uninit_bytes\<close> filled by a read, then \<open>assume_init\<close>).
\<close>

abbreviation MuxFrameHeader_size :: nat where
  "MuxFrameHeader_size \<equiv> 20"

definition MuxFrameHeader_bytes :: "mux_frame_header \<Rightarrow> byte list" where
  "MuxFrameHeader_bytes self = SocketAddr_bytes (socket self) @ NetworkOrderU16_bytes (len self)"

definition MuxFrameHeader_of_bytes :: "byte list \<Rightarrow> mux_frame_header" where
  "MuxFrameHeader_of_bytes bs =
     \<lparr>socket = SocketAddr_of_bytes bs, len = NetworkOrderU16 (bs ! 18) (bs ! 19)\<rparr>"

section \<open>The wire format\<close>

text \<open>A frame of at most 65535 payload bytes, as it travels.\<close>

definition frame :: "socket_addr \<Rightarrow> byte list \<Rightarrow> byte list" where
  "frame a p = MuxFrameHeader_bytes \<lparr>socket = a, len = NetworkOrderU16_new (of_nat (length p))\<rparr> @ p"

definition frames :: "(socket_addr \<times> byte list) list \<Rightarrow> byte list" where
  "frames fs = concat (map (\<lambda>(a, p). frame a p) fs)"

section \<open>Lemmas\<close>

lemma length_MuxFrameHeader_bytes [simp]: "length (MuxFrameHeader_bytes h) = MuxFrameHeader_size"
  by (simp add: MuxFrameHeader_bytes_def)

lemma MuxFrameHeader_of_bytes_append [simp]:
  "MuxFrameHeader_of_bytes (MuxFrameHeader_bytes h @ bs) = h"
  by (simp add: MuxFrameHeader_of_bytes_def MuxFrameHeader_bytes_def nth_append
      NetworkOrderU16_bytes_def)

lemma MuxFrameHeader_bytes_of_bytes:
  assumes "length bs = MuxFrameHeader_size"
  shows "MuxFrameHeader_bytes (MuxFrameHeader_of_bytes bs) = bs"
proof -
  have "drop 18 bs = [bs ! 18, bs ! 19]"
    using assms by (auto simp: list_eq_iff_nth_eq less_2_cases_iff)
  then have "take 18 bs @ [bs ! 18, bs ! 19] = bs"
    by (metis append_take_drop_id)
  with assms show ?thesis
    by (simp add: MuxFrameHeader_bytes_def MuxFrameHeader_of_bytes_def
        SocketAddr_bytes_of_bytes NetworkOrderU16_bytes_def)
qed

lemma length_frame [simp]: "length (frame a p) = 20 + length p"
  by (simp add: frame_def)

lemma frames_Nil [simp]: "frames [] = []"
  by (simp add: frames_def)

lemma frames_Cons [simp]: "frames ((a, p) # fs) = frame a p @ frames fs"
  by (simp add: frames_def)

lemma frames_append [simp]: "frames (fs @ gs) = frames fs @ frames gs"
  by (simp add: frames_def)

lemma frame_empty: "frame a [] = MuxFrameHeader_bytes (MuxFrameHeader_empty a)"
  by (simp add: frame_def MuxFrameHeader_empty_def)

lemma frame_eq_prefix:
  assumes "frame a p @ xs = frame b q @ ys" and "length p \<le> 65535" and "length q \<le> 65535"
  shows "a = b \<and> p = q \<and> xs = ys"
proof -
  let ?h = "\<lambda>a p. \<lparr>socket = a, len = NetworkOrderU16_new (of_nat (length (p :: byte list)))\<rparr>"
  from assms(1) have eq: "MuxFrameHeader_bytes (?h a p) @ (p @ xs) = MuxFrameHeader_bytes (?h b q) @ (q @ ys)"
    by (simp add: frame_def)
  then have h: "?h a p = ?h b q"
    by (metis MuxFrameHeader_of_bytes_append)
  then have "NetworkOrderU16_get (NetworkOrderU16_new (of_nat (length p))) =
      NetworkOrderU16_get (NetworkOrderU16_new (of_nat (length q)))"
    by simp
  then have "(of_nat (length p) :: u16) = of_nat (length q)"
    by simp
  then have "unat (of_nat (length p) :: u16) = unat (of_nat (length q) :: u16)"
    by simp
  with assms(2,3) have "length p = length q"
    by (simp add: unat_of_nat)
  with eq h show ?thesis by simp
qed

section \<open>Properties\<close>

text \<open>
  C31. The 20 bytes of a frame header and the header determine each other: encoding is a bijection
  onto the byte strings of length 20, and decoding the front of the stream inverts it.
\<close>

theorem MuxFrameHeader_roundtrip:
  "bij_betw MuxFrameHeader_bytes UNIV {bs. length bs = MuxFrameHeader_size} \<and>
   MuxFrameHeader_of_bytes (MuxFrameHeader_bytes h @ rest) = h \<and>
   MuxFrameHeader_addr (MuxFrameHeader_empty s) = s \<and> MuxFrameHeader_len (MuxFrameHeader_empty s) = 0"
proof -
  have "bij_betw MuxFrameHeader_bytes UNIV {bs. length bs = MuxFrameHeader_size}"
    by (rule bij_betw_byWitness [where f' = MuxFrameHeader_of_bytes])
      (use MuxFrameHeader_of_bytes_append [of _ "[]"] in \<open>auto simp: MuxFrameHeader_bytes_of_bytes\<close>)
  then show ?thesis
    by (simp add: MuxFrameHeader_addr_def MuxFrameHeader_len_def MuxFrameHeader_empty_def)
qed

text \<open>
  C30. The wire format is unambiguous: two sequences of frames with payloads of at most 65535 bytes
  that give the same bytes are the same sequence.
\<close>

theorem frames_unambiguous:
  "inj_on frames {fs. \<forall>p \<in> snd ` set fs. length p \<le> 65535}"
proof (rule inj_onI)
  fix fs gs
  assume "fs \<in> {fs. \<forall>p \<in> snd ` set fs. length p \<le> 65535}"
    and "gs \<in> {fs. \<forall>p \<in> snd ` set fs. length p \<le> 65535}" and "frames fs = frames gs"
  then show "fs = gs"
  proof (induction fs arbitrary: gs)
    case Nil
    then show ?case by (cases gs) (auto simp: frames_def frame_def MuxFrameHeader_bytes_def SocketAddr_bytes_def NetworkOrderU16_bytes_def)
  next
    case (Cons f fs)
    obtain a p where f: "f = (a, p)" by fastforce
    with Cons.prems(3) obtain b q gs' where gs: "gs = (b, q) # gs'"
      by (cases gs) (auto simp: frame_def MuxFrameHeader_bytes_def SocketAddr_bytes_def NetworkOrderU16_bytes_def)
    have "a = b \<and> p = q \<and> frames fs = frames gs'"
      by (rule frame_eq_prefix) (use Cons.prems f gs in auto)
    then show ?case using Cons f gs by auto
  qed
qed

text \<open>A byte sent in one frame, and the same byte after an empty frame.\<close>

theorem frames_unambiguous_witness:
  "frames [(SocketAddr_from_std (SockV4 (Ipv4Addr 127 0 0 1) 80), [7])] \<noteq>
   frames [(SocketAddr_from_std (SockV4 (Ipv4Addr 127 0 0 1) 80), []),
           (SocketAddr_from_std (SockV4 (Ipv4Addr 127 0 0 1) 80), [7])]"
  by (rule inj_on_contraD [OF frames_unambiguous]) auto

end
