(* ===== verification/Constructor.thy ===== *)
theory Constructor
  imports Mux_Prelude
begin

text \<open>
  \<open>src/constructor.rs\<close>: in-place construction. \<open>init\<close> writes the fields of an object through a
  pointer to memory whose contents are arbitrary; \<open>box_new\<close> allocates such memory and assumes that
  \<open>init\<close> has initialised it. The locale \<open>construct\<close> is the obligation the trait puts on its
  implementations: what can be observed of the object after \<open>init\<close> does not depend on what the
  memory held before.
\<close>

definition box_new :: "('t \<Rightarrow> 'd \<Rightarrow> 't) \<Rightarrow> 't \<Rightarrow> 'd \<Rightarrow> 't" where
  "box_new init uninit data = (let this = uninit in init this data)"

locale construct =
  fixes init :: "'t \<Rightarrow> 'd \<Rightarrow> 't"
    and observe :: "'t \<Rightarrow> 'o"
  assumes init_complete: "observe (init this data) = observe (init this' data)"
begin

lemma box_new_deterministic: "observe (box_new init u data) = observe (box_new init u' data)"
  unfolding box_new_def Let_def by (rule init_complete)

end

end
