(* ===== verification/Packet_Buffer.thy ===== *)
theory Packet_Buffer
  imports Protocol Constructor
begin

text \<open>
  \<open>src/packet_buffer.rs\<close>: the frame a connection is filling. The buffer may grow while its first
  bytes are already on the wire, as long as the length field can still be corrected: without
  restriction while no byte of the length field has been sent (\<open>written < 19\<close>), up to the next
  multiple of 256 when its most significant byte has been sent (\<open>written = 19\<close>).
\<close>

section \<open>Model\<close>

definition PACKET_SIZE :: u16 where
  "PACKET_SIZE = 65535"

text \<open>\<open>(size_of::<SocketAddr>() + 1) as u32\<close>.\<close>

definition LEN_FIELD_CUTOFF :: u32 where
  "LEN_FIELD_CUTOFF = 19"

record packet_buffer =
  pb_socket_addr :: socket_addr
  pb_len :: network_order_u16
  pb_data :: mem

definition PacketBuffer_init :: "packet_buffer \<Rightarrow> socket_addr \<Rightarrow> packet_buffer" where
  "PacketBuffer_init this s = this\<lparr>pb_socket_addr := s, pb_len := NetworkOrderU16_new 0\<rparr>"

definition PacketBuffer_addr :: "packet_buffer \<Rightarrow> socket_addr" where
  "PacketBuffer_addr self = pb_socket_addr self"

definition PacketBuffer_packet_size :: "packet_buffer \<Rightarrow> u16" where
  "PacketBuffer_packet_size self = NetworkOrderU16_get (pb_len self)"

definition PacketBuffer_is_full :: "packet_buffer \<Rightarrow> bool" where
  "PacketBuffer_is_full self \<longleftrightarrow> PacketBuffer_packet_size self = PACKET_SIZE"

definition PacketBuffer_must_flush_for :: "packet_buffer \<Rightarrow> u32 \<Rightarrow> bool" where
  "PacketBuffer_must_flush_for self written =
     (case cmp_word written LEN_FIELD_CUTOFF of
        Less \<Rightarrow> PacketBuffer_is_full self
      | Equal \<Rightarrow> lsb (pb_len self) = 255
      | Greater \<Rightarrow> True)"

definition PacketBuffer_is_empty :: "packet_buffer \<Rightarrow> bool" where
  "PacketBuffer_is_empty self \<longleftrightarrow> PacketBuffer_packet_size self = 0"

definition PacketBuffer_clear :: "packet_buffer \<Rightarrow> packet_buffer" where
  "PacketBuffer_clear self = self\<lparr>pb_len := NetworkOrderU16_new 0\<rparr>"

text \<open>
  \<open>push\<close>: an \<open>unchecked_add\<close> that overflows and a copy past the end of \<open>data\<close> are undefined
  behaviour.
\<close>

definition PacketBuffer_push :: "packet_buffer \<Rightarrow> byte list \<Rightarrow> u32 \<Rightarrow> (u16 \<times> packet_buffer) run" where
  "PacketBuffer_push self data written =
     (let max_len = (case cmp_word written LEN_FIELD_CUTOFF of
                       Less \<Rightarrow> (let spare_capacity = NetworkOrderU16_get (pb_len self)
                                in Some (PACKET_SIZE - spare_capacity))
                     | Equal \<Rightarrow> (let unsent_len = lsb (pb_len self)
                                 in Some (ucast (255 - unsent_len)))
                     | Greater \<Rightarrow> None)
      in case max_len of
           None \<Rightarrow> Done (0, self)
         | Some max_len \<Rightarrow>
             (let n = (if length data > unat max_len then max_len else of_nat (length data));
                  last_len = NetworkOrderU16_get (pb_len self)
              in if unat n + unat last_len \<ge> 2 ^ 16 then Undefined
                 else if unat last_len + unat n > unat PACKET_SIZE then Undefined
                 else Done (n, self\<lparr>pb_len := NetworkOrderU16_new (n + last_len),
                                    pb_data := mem_write (pb_data self) (unat last_len)
                                                 (take (unat n) data)\<rparr>)))"

text \<open>
  \<open>bytes\<close> views the header fields and the first \<open>len\<close> cells of \<open>data\<close> as one slice of initialised
  bytes; \<open>bytes_from\<close> indexes it, which panics past its end.
\<close>

definition PacketBuffer_bytes :: "packet_buffer \<Rightarrow> byte list run" where
  "PacketBuffer_bytes self =
     (case mem_read (pb_data self) 0 (unat (NetworkOrderU16_get (pb_len self))) of
        None \<Rightarrow> Undefined
      | Some d \<Rightarrow> Done (SocketAddr_bytes (pb_socket_addr self) @
                        NetworkOrderU16_bytes (pb_len self) @ d))"

definition PacketBuffer_bytes_from :: "packet_buffer \<Rightarrow> u32 \<Rightarrow> byte list run" where
  "PacketBuffer_bytes_from self written =
     (case PacketBuffer_bytes self of
        Done bs \<Rightarrow> if unat written \<le> length bs then Done (drop (unat written) bs) else Panicked
      | Panicked \<Rightarrow> Panicked
      | Undefined \<Rightarrow> Undefined)"

section \<open>Invariant and contents\<close>

text \<open>The first \<open>len\<close> cells of \<open>data\<close> are initialised; they are the payload of the frame.\<close>

definition pb_inv :: "packet_buffer \<Rightarrow> bool" where
  "pb_inv b \<longleftrightarrow> mem_read (pb_data b) 0 (unat (PacketBuffer_packet_size b)) \<noteq> None"

definition payload :: "packet_buffer \<Rightarrow> byte list" where
  "payload b = the (mem_read (pb_data b) 0 (unat (PacketBuffer_packet_size b)))"

text \<open>How many more bytes the frame can take when \<open>written\<close> bytes of it have been sent.\<close>

definition push_room :: "byte list \<Rightarrow> u32 \<Rightarrow> nat" where
  "push_room p written =
     (if written < 19 then 65535 - length p
      else if written = 19 then 255 - length p mod 256
      else 0)"

lemma payload_read:
  "pb_inv b \<Longrightarrow> mem_read (pb_data b) 0 (unat (NetworkOrderU16_get (pb_len b))) = Some (payload b)"
  by (auto simp: pb_inv_def payload_def PacketBuffer_packet_size_def)

lemma length_payload: "pb_inv b \<Longrightarrow> length (payload b) = unat (NetworkOrderU16_get (pb_len b))"
  using payload_read by (rule mem_read_length)

lemma length_payload_bound: "pb_inv b \<Longrightarrow> length (payload b) \<le> 65535"
  using unat_u16_bound [of "NetworkOrderU16_get (pb_len b)"] by (simp add: length_payload)

lemma pb_len_payload: "pb_inv b \<Longrightarrow> pb_len b = NetworkOrderU16_new (of_nat (length (payload b)))"
  by (simp add: length_payload)

lemma payloadI:
  assumes "mem_read (pb_data b) 0 (unat (NetworkOrderU16_get (pb_len b))) = Some p"
  shows "pb_inv b" and "payload b = p"
  using assms by (simp_all add: pb_inv_def payload_def PacketBuffer_packet_size_def)

lemma is_empty_payload: "pb_inv b \<Longrightarrow> PacketBuffer_is_empty b \<longleftrightarrow> payload b = []"
  using length_payload [of b]
  by (auto simp: PacketBuffer_is_empty_def PacketBuffer_packet_size_def unat_eq_zero)

lemma is_full_payload: "pb_inv b \<Longrightarrow> PacketBuffer_is_full b \<longleftrightarrow> length (payload b) = 65535"
  by (simp add: PacketBuffer_is_full_def PacketBuffer_packet_size_def PACKET_SIZE_def
      length_payload word_unat_eq_iff)

lemma clear_spec [simp]:
  "pb_inv (PacketBuffer_clear b)" "payload (PacketBuffer_clear b) = []"
  "pb_socket_addr (PacketBuffer_clear b) = pb_socket_addr b"
  by (auto simp: PacketBuffer_clear_def intro!: payloadI)

lemma init_spec [simp]:
  "pb_inv (PacketBuffer_init this s)" "payload (PacketBuffer_init this s) = []"
  "pb_socket_addr (PacketBuffer_init this s) = s"
  by (auto simp: PacketBuffer_init_def intro!: payloadI)

interpretation packet_init: construct PacketBuffer_init "\<lambda>b. (PacketBuffer_addr b, payload b)"
  by unfold_locales (simp add: PacketBuffer_addr_def)

lemma bytes_frame:
  "pb_inv b \<Longrightarrow> PacketBuffer_bytes b = Done (frame (pb_socket_addr b) (payload b))"
  using pb_len_payload [of b] payload_read [of b]
  by (simp add: PacketBuffer_bytes_def frame_def MuxFrameHeader_bytes_def)

lemma bytes_from_frame:
  "pb_inv b \<Longrightarrow> PacketBuffer_bytes_from b w =
     (if unat w \<le> 20 + length (payload b)
      then Done (drop (unat w) (frame (pb_socket_addr b) (payload b))) else Panicked)"
  by (simp add: PacketBuffer_bytes_from_def bytes_frame)

lemma unat_lsb_payload: "pb_inv b \<Longrightarrow> unat (lsb (pb_len b)) = length (payload b) mod 256"
  by (simp add: length_payload unat_NetworkOrderU16_get unat_byte_bound)

section \<open>Pushing\<close>

lemma push_max_len:
  assumes "pb_inv b"
  shows "unat (PACKET_SIZE - NetworkOrderU16_get (pb_len b)) = 65535 - length (payload b)"
    and "unat (ucast (255 - lsb (pb_len b)) :: u16) = 255 - length (payload b) mod 256"
proof -
  show "unat (PACKET_SIZE - NetworkOrderU16_get (pb_len b)) = 65535 - length (payload b)"
    using length_payload_bound [OF assms]
    by (simp add: length_payload [OF assms] PACKET_SIZE_def unat_sub word_le_nat_alt)
  have "unat (255 - lsb (pb_len b)) = 255 - length (payload b) mod 256"
    using unat_byte_bound [of "lsb (pb_len b)"]
    by (simp add: unat_lsb_payload [OF assms, symmetric] unat_sub word_le_nat_alt)
  then show "unat (ucast (255 - lsb (pb_len b)) :: u16) = 255 - length (payload b) mod 256"
    by (simp add: unat_ucast_mod)
qed

text \<open>The store of the copied bytes, once their number is known to fit.\<close>

lemma push_store:
  assumes inv: "pb_inv b" and n: "unat n \<le> length d" "length (payload b) + unat n \<le> 65535"
  defines "b' \<equiv> b\<lparr>pb_len := NetworkOrderU16_new (n + NetworkOrderU16_get (pb_len b)),
      pb_data := mem_write (pb_data b) (unat (NetworkOrderU16_get (pb_len b))) (take (unat n) d)\<rparr>"
  shows "pb_inv b' \<and> payload b' = payload b @ take (unat n) d"
proof -
  let ?l = "unat (NetworkOrderU16_get (pb_len b))"
  have "unat (n + NetworkOrderU16_get (pb_len b)) = ?l + unat n"
    using n(2) by (simp add: length_payload [OF inv] unat_word_ariths)
  moreover have "mem_read (mem_write (pb_data b) ?l (take (unat n) d)) 0
      (?l + length (take (unat n) d)) = Some (payload b @ take (unat n) d)"
    by (rule mem_write_append) (rule payload_read [OF inv])
  ultimately show ?thesis
    using n(1) payloadI [of b' "payload b @ take (unat n) d"] by (simp add: b'_def)
qed

lemma push_spec:
  assumes inv: "pb_inv b"
  obtains n b' where "PacketBuffer_push b d w = Done (n, b')"
    and "unat n = min (length d) (push_room (payload b) w)"
    and "pb_inv b'" and "payload b' = payload b @ take (unat n) d"
    and "pb_socket_addr b' = pb_socket_addr b"
proof (cases "19 < w")
  case True
  then have "PacketBuffer_push b d w = Done (0, b)" and "push_room (payload b) w = 0"
    by (auto simp: PacketBuffer_push_def LEN_FIELD_CUTOFF_def cmp_word_def push_room_def)
  with inv show ?thesis by (intro that [of 0 b]) auto
next
  case False
  let ?room = "push_room (payload b) w"
  define m where "m = (if w < 19 then PACKET_SIZE - NetworkOrderU16_get (pb_len b)
                       else ucast (255 - lsb (pb_len b)))"
  define n where "n = (if length d > unat m then m else of_nat (length d))"
  define b' where "b' = b\<lparr>pb_len := NetworkOrderU16_new (n + NetworkOrderU16_get (pb_len b)),
      pb_data := mem_write (pb_data b) (unat (NetworkOrderU16_get (pb_len b))) (take (unat n) d)\<rparr>"
  have m: "unat m = ?room"
    using False push_max_len [OF inv] by (auto simp: m_def push_room_def)
  have room: "length (payload b) + ?room \<le> 65535"
    using length_payload_bound [OF inv] round_up_256_bound by (auto simp: push_room_def)
  have n: "unat n = min (length d) ?room"
    using m room by (auto simp: n_def unat_of_nat min_def)
  have fits: "length (payload b) + unat n \<le> 65535"
    using n room by simp
  have max_len: "(case cmp_word w LEN_FIELD_CUTOFF of
        Less \<Rightarrow> Some (PACKET_SIZE - NetworkOrderU16_get (pb_len b))
      | Equal \<Rightarrow> Some (ucast (255 - lsb (pb_len b))) | Greater \<Rightarrow> None) = Some m"
    using False by (auto simp: LEN_FIELD_CUTOFF_def cmp_word_def m_def)
  have "PacketBuffer_push b d w =
      (if unat n + unat (NetworkOrderU16_get (pb_len b)) \<ge> 2 ^ 16 then Undefined
       else if unat (NetworkOrderU16_get (pb_len b)) + unat n > unat PACKET_SIZE then Undefined
       else Done (n, b'))"
    unfolding PacketBuffer_push_def Let_def max_len option.case n_def [symmetric]
      b'_def [symmetric] by (rule refl)
  then have push: "PacketBuffer_push b d w = Done (n, b')"
    using fits by (simp add: length_payload [OF inv] PACKET_SIZE_def)
  have "pb_inv b' \<and> payload b' = payload b @ take (unat n) d"
    unfolding b'_def by (rule push_store [OF inv]) (use n fits in auto)
  then show ?thesis
    using that [OF push n] by (simp add: b'_def)
qed

lemma must_flush_for_room:
  assumes "pb_inv b"
  shows "PacketBuffer_must_flush_for b w \<longleftrightarrow> push_room (payload b) w = 0"
proof -
  have "lsb (pb_len b) = 255 \<longleftrightarrow> length (payload b) mod 256 = 255"
    by (simp add: word_unat_eq_iff unat_lsb_payload [OF assms])
  moreover have "length (payload b) mod 256 < 256"
    by simp
  ultimately show ?thesis
    using length_payload_bound [OF assms]
    by (auto simp: PacketBuffer_must_flush_for_def LEN_FIELD_CUTOFF_def cmp_word_def
        is_full_payload [OF assms] push_room_def)
qed

text \<open>The bytes that have been sent do not change when the frame grows within its room.\<close>

lemma frame_header_prefix:
  assumes "k \<le> 18"
  shows "take k (frame a p) = take k (SocketAddr_bytes a)"
  using assms by (simp add: frame_def MuxFrameHeader_bytes_def)

lemma frame_prefix_19:
  "take 19 (frame a p) = SocketAddr_bytes a @ [msb (NetworkOrderU16_new (of_nat (length p)))]"
  by (simp add: frame_def MuxFrameHeader_bytes_def NetworkOrderU16_bytes_def)

lemma msb_of_length:
  assumes "length p \<le> 65535" and "length q \<le> 65535" and "length p div 256 = length q div 256"
  shows "msb (NetworkOrderU16_new (of_nat (length p))) = msb (NetworkOrderU16_new (of_nat (length q)))"
  using assms by (simp add: word_unat_eq_iff unat_of_nat)

lemma frame_extend_prefix:
  assumes len: "length p \<le> 65535" and room: "length q \<le> push_room p w" and q: "q \<noteq> []"
  shows "take (unat w) (frame a (p @ q)) = take (unat w) (frame a p)"
proof -
  from room q have w: "w < 19 \<or> w = 19"
    by (auto simp: push_room_def split: if_splits)
  then show ?thesis
  proof
    assume "w < 19"
    then have "unat w \<le> 18"
      by (simp add: word_less_nat_alt)
    then show ?thesis by (simp add: frame_header_prefix)
  next
    assume w19: "w = 19"
    have "length p mod 256 < 256"
      by simp
    with w19 room have "length p mod 256 + length q < 256"
      by (simp add: push_room_def)
    then have "(length p + length q) div 256 = length p div 256"
      by (rule div_256_add)
    moreover have "length p + length q \<le> 65535"
      using w19 room round_up_256_bound [OF len] by (simp add: push_room_def)
    ultimately have "msb (NetworkOrderU16_new (of_nat (length (p @ q)))) =
        msb (NetworkOrderU16_new (of_nat (length p)))"
      using len by (intro msb_of_length) auto
    then show ?thesis
      by (simp add: w19 frame_prefix_19)
  qed
qed

text \<open>The bytes a push leaves where the stream has already read them.\<close>

lemma push_keeps_prefix:
  assumes inv: "pb_inv b" and push: "PacketBuffer_push b d w = Done (n, b')"
  shows "take (unat w) (frame (pb_socket_addr b') (payload b')) =
         take (unat w) (frame (pb_socket_addr b) (payload b))"
proof -
  from push_spec [OF inv, of d w] push
  have n: "unat n = min (length d) (push_room (payload b) w)"
    and p: "payload b' = payload b @ take (unat n) d" and a: "pb_socket_addr b' = pb_socket_addr b"
    by fastforce+
  show ?thesis
  proof (cases "take (unat n) d = []")
    case True
    then show ?thesis unfolding p a by (simp only: append_Nil2)
  next
    case False
    with n show ?thesis
      by (simp add: p a frame_extend_prefix [OF length_payload_bound [OF inv]])
  qed
qed

section \<open>Properties\<close>

text \<open>A small buffer for the concrete applications: three bytes of payload.\<close>

definition sample_packet :: packet_buffer where
  "sample_packet = \<lparr>pb_socket_addr = SocketAddr_from_std (SockV4 (Ipv4Addr 127 0 0 1) 80),
     pb_len = NetworkOrderU16_new 3, pb_data = [0 \<mapsto> 1, 1 \<mapsto> 2, 2 \<mapsto> 3]\<rparr>"

lemma sample_packet_payload: "pb_inv sample_packet" "payload sample_packet = [1, 2, 3]"
proof -
  have "mem_read (pb_data sample_packet) 0 (unat (NetworkOrderU16_get (pb_len sample_packet))) = Some [1, 2, 3]"
    by (simp add: sample_packet_def mem_read_Some_iff nth_Cons' less_Suc_eq)
  then show "pb_inv sample_packet" "payload sample_packet = [1, 2, 3]"
    by (rule payloadI)+
qed

text \<open>
  C27. On a well-formed buffer \<open>push\<close> never overflows or writes out of bounds: it appends the longest
  prefix of the data that fits without invalidating what has been sent, says how long it is, and
  \<open>must_flush_for\<close> is true exactly when nothing would fit.
\<close>

theorem push_appends:
  assumes "pb_inv b"
  shows "\<exists>n b'. PacketBuffer_push b d w = Done (n, b') \<and>
    unat n = min (length d) (push_room (payload b) w) \<and> pb_inv b' \<and>
    payload b' = payload b @ take (unat n) d \<and> PacketBuffer_addr b' = PacketBuffer_addr b \<and>
    (PacketBuffer_must_flush_for b w \<longleftrightarrow> push_room (payload b) w = 0)"
  using push_spec [OF assms, of d w] must_flush_for_room [OF assms, of w]
  by (metis PacketBuffer_addr_def)

theorem push_appends_witness:
  "\<exists>n b'. PacketBuffer_push sample_packet [9, 9] 19 = Done (n, b') \<and>
    unat n = 2 \<and> pb_inv b' \<and> payload b' = [1, 2, 3, 9, 9]"
proof -
  from push_appends [OF sample_packet_payload(1), of "[9, 9]" 19] obtain n b'
    where "PacketBuffer_push sample_packet [9, 9] 19 = Done (n, b')"
      "unat n = min 2 (push_room [1, 2, 3] 19)" "pb_inv b'" "payload b' = [1, 2, 3] @ take (unat n) [9, 9]"
    by (auto simp: sample_packet_payload)
  then show ?thesis by (intro exI [of _ n] exI [of _ b']) (simp add: push_room_def)
qed

text \<open>
  C28. A buffer may grow while it is being sent: after a push at send offset \<open>w\<close> the first \<open>w\<close> bytes
  of the encoded frame, which are on the wire, are what they were.
\<close>

theorem push_keeps_sent:
  assumes "pb_inv b" and "PacketBuffer_push b d w = Done (n, b')"
  shows "\<exists>bs bs'. PacketBuffer_bytes b = Done bs \<and> PacketBuffer_bytes b' = Done bs' \<and>
    take (unat w) bs' = take (unat w) bs \<and> drop MuxFrameHeader_size bs' = drop MuxFrameHeader_size bs @ take (unat n) d"
proof -
  from push_spec [OF assms(1), of d w] assms(2)
  have "pb_inv b'" and p: "payload b' = payload b @ take (unat n) d"
    by fastforce+
  then show ?thesis
    using push_keeps_prefix [OF assms] by (simp add: bytes_frame assms(1) frame_def p)
qed

theorem push_keeps_sent_witness:
  "\<exists>bs bs'. PacketBuffer_bytes sample_packet = Done bs \<and>
     take 19 bs' = take 19 bs \<and>
     (\<exists>n b'. PacketBuffer_push sample_packet [9, 9] 19 = Done (n, b') \<and> PacketBuffer_bytes b' = Done bs')"
proof -
  obtain n b' where p: "PacketBuffer_push sample_packet [9, 9] 19 = Done (n, b')"
    by (rule push_spec [OF sample_packet_payload(1)])
  from push_keeps_sent [OF sample_packet_payload(1) p] show ?thesis
    by (auto simp: p)
qed

text \<open>
  \<open>bytes\<close> is the frame of the buffer's address and payload, and \<open>bytes_from\<close> what is left of it:
  a panic exactly when more bytes are said to be sent than the frame has. \<open>clear\<close> empties it.
\<close>

theorem bytes_are_frame:
  assumes "pb_inv b"
  shows "PacketBuffer_bytes b = Done (frame (PacketBuffer_addr b) (payload b)) \<and>
    PacketBuffer_bytes_from b w =
      (if unat w \<le> MuxFrameHeader_size + length (payload b)
       then Done (drop (unat w) (frame (PacketBuffer_addr b) (payload b))) else Panicked) \<and>
    PacketBuffer_bytes (PacketBuffer_clear b) = Done (frame (PacketBuffer_addr b) []) \<and>
    (PacketBuffer_is_empty b \<longleftrightarrow> payload b = []) \<and> (PacketBuffer_is_full b \<longleftrightarrow> length (payload b) = 65535)"
  using assms by (simp add: bytes_frame bytes_from_frame PacketBuffer_addr_def is_empty_payload is_full_payload)

theorem bytes_are_frame_witness:
  "PacketBuffer_bytes_from sample_packet 21 = Done [2, 3] \<and> PacketBuffer_bytes_from sample_packet 24 = Panicked"
  using bytes_are_frame [OF sample_packet_payload(1), of 21] bytes_are_frame [OF sample_packet_payload(1), of 24]
  by (simp add: sample_packet_payload frame_def)

end
