(* ===== verification/Poll_Mutex.thy ===== *)
theory Poll_Mutex
  imports Mux_Prelude
begin

text \<open>
  \<open>src/poll_mutex.rs\<close>: a handle on the shared \<open>tokio::sync::Mutex\<close> that can be polled for the
  lock. The mutex and the writer behind it belong to tokio and are a parameter: the record
  \<open>writer_api\<close> holds the operations the program calls, over a world \<open>'w\<close> that contains the mutex
  with its queue and the TCP write half. \<open>'g\<close> is the type of lock guards, \<open>'f\<close> that of lock futures
  and \<open>'a\<close> that of \<open>write_all\<close> futures. What the program relies on is stated by \<open>lock_laws\<close> and
  \<open>write_laws\<close>.
\<close>

section \<open>The parameters\<close>

record ('w, 'g, 'f, 'a) writer_api =
  try_lock_owned :: "nat \<Rightarrow> 'w \<Rightarrow> 'g option \<times> 'w"
  lock_owned :: "nat \<Rightarrow> 'w \<Rightarrow> 'f \<times> 'w"
  lock_ref :: "nat \<Rightarrow> 'w \<Rightarrow> 'f \<times> 'w"
  poll_lock_fut :: "'f \<Rightarrow> waker \<Rightarrow> 'w \<Rightarrow> 'g poll \<times> 'f \<times> 'w"
  drop_lock_fut :: "'f \<Rightarrow> 'w \<Rightarrow> 'w"
  drop_guard :: "'g \<Rightarrow> 'w \<Rightarrow> 'w"
  poll_write_w :: "'g \<Rightarrow> waker \<Rightarrow> byte list \<Rightarrow> 'w \<Rightarrow> nat io_result poll \<times> 'w"
  poll_flush_w :: "'g \<Rightarrow> waker \<Rightarrow> 'w \<Rightarrow> unit io_result poll \<times> 'w"
  write_all :: "byte list \<Rightarrow> 'a"
  poll_write_all :: "'a \<Rightarrow> 'g \<Rightarrow> waker \<Rightarrow> 'w \<Rightarrow> unit io_result poll \<times> 'a \<times> 'w"

text \<open>
  Documented behaviour of \<open>tokio::sync::Mutex\<close> at address \<open>m\<close>, seen through the outstanding guard
  (\<open>holder\<close>) and the bytes the writer has accepted (\<open>wire\<close>): a guard is handed out only while none
  is outstanding, dropping it releases the mutex, and no lock operation writes to the stream.
\<close>

definition quiet :: "('w \<Rightarrow> byte list) \<Rightarrow> ('w \<Rightarrow> 'g option) \<Rightarrow> 'w \<Rightarrow> 'w \<Rightarrow> bool" where
  "quiet wire holder w w' \<longleftrightarrow> wire w' = wire w \<and> holder w' = holder w"

definition acquires :: "('w \<Rightarrow> byte list) \<Rightarrow> ('w \<Rightarrow> 'g option) \<Rightarrow> 'w \<Rightarrow> 'g \<Rightarrow> 'w \<Rightarrow> bool" where
  "acquires wire holder w g w' \<longleftrightarrow> wire w' = wire w \<and> holder w = None \<and> holder w' = Some g"

definition lock_laws ::
  "('w, 'g, 'f, 'a) writer_api \<Rightarrow> nat \<Rightarrow> ('w \<Rightarrow> byte list) \<Rightarrow> ('w \<Rightarrow> 'g option) \<Rightarrow> bool" where
  "lock_laws W m wire holder \<longleftrightarrow>
     (\<forall>w g w'. try_lock_owned W m w = (Some g, w') \<longrightarrow> acquires wire holder w g w') \<and>
     (\<forall>w w'. try_lock_owned W m w = (None, w') \<longrightarrow> quiet wire holder w w') \<and>
     (\<forall>w f w'. lock_owned W m w = (f, w') \<longrightarrow> quiet wire holder w w') \<and>
     (\<forall>w f w'. lock_ref W m w = (f, w') \<longrightarrow> quiet wire holder w w') \<and>
     (\<forall>f cx w g f' w'. poll_lock_fut W f cx w = (Ready g, f', w') \<longrightarrow> acquires wire holder w g w') \<and>
     (\<forall>f cx w f' w'. poll_lock_fut W f cx w = (Pending, f', w') \<longrightarrow> quiet wire holder w w') \<and>
     (\<forall>f w. quiet wire holder w (drop_lock_fut W f w)) \<and>
     (\<forall>g w. holder w = Some g \<longrightarrow> wire (drop_guard W g w) = wire w \<and> holder (drop_guard W g w) = None)"

text \<open>
  Documented behaviour of \<open>AsyncWrite\<close> for the write half: a ready write has accepted a prefix of
  the bytes offered, of the length it reports; a pending or failed one has accepted none. A
  \<open>write_all\<close> future writes the bytes it has left (\<open>rest\<close>) and is done when none is left.
\<close>

definition write_laws ::
  "('w, 'g, 'f, 'a) writer_api \<Rightarrow> ('w \<Rightarrow> byte list) \<Rightarrow> ('w \<Rightarrow> 'g option) \<Rightarrow> ('a \<Rightarrow> byte list) \<Rightarrow> bool" where
  "write_laws W wire holder rest \<longleftrightarrow>
     (\<forall>g cx bs w r w'. poll_write_w W g cx bs w = (r, w') \<longrightarrow> holder w' = holder w \<and>
        (case r of Ready (Inr n) \<Rightarrow> n \<le> length bs \<and> wire w' = wire w @ take n bs
         | _ \<Rightarrow> wire w' = wire w)) \<and>
     (\<forall>g cx w r w'. poll_flush_w W g cx w = (r, w') \<longrightarrow> quiet wire holder w w') \<and>
     (\<forall>bs. rest (write_all W bs) = bs) \<and>
     (\<forall>a g cx w r a' w'. poll_write_all W a g cx w = (r, a', w') \<longrightarrow> holder w' = holder w \<and>
        (\<exists>bs. rest a = bs @ rest a' \<and> wire w' = wire w @ bs) \<and>
        (r = Ready (Inr ()) \<longrightarrow> rest a' = []))"

text \<open>A TCP stream has no buffer of its own to flush: its \<open>poll_flush\<close> is always ready.\<close>

definition flush_always_ready :: "('w, 'g, 'f, 'a) writer_api \<Rightarrow> bool" where
  "flush_always_ready W \<longleftrightarrow> (\<forall>g cx w. fst (poll_flush_w W g cx w) \<noteq> Pending)"

section \<open>Model\<close>

text \<open>\<open>PollMutex<T>\<close>: the address of the mutex and the lock future in progress.\<close>

record 'f poll_mutex =
  pm_mutex :: nat
  pm_fut :: "'f option"

datatype 'g maybe_owned_guard = Borrowed 'g | Owned 'g

fun MaybeOwnedGuard_deref :: "'g maybe_owned_guard \<Rightarrow> 'g" where
  "MaybeOwnedGuard_deref (Borrowed g) = g"
| "MaybeOwnedGuard_deref (Owned g) = g"

definition PollMutex_new :: "nat \<Rightarrow> 'f poll_mutex" where
  "PollMutex_new m = \<lparr>pm_mutex = m, pm_fut = None\<rparr>"

definition PollMutex_poll_fut ::
  "('w, 'g, 'f, 'a) writer_api \<Rightarrow> 'f poll_mutex \<Rightarrow> 'f \<Rightarrow> waker \<Rightarrow> 'w \<Rightarrow> 'g poll \<times> 'f poll_mutex \<times> 'w" where
  "PollMutex_poll_fut W self fut cx w =
     (case poll_lock_fut W fut cx w of
        (Ready lock, fut', w') \<Rightarrow> (Ready lock, self\<lparr>pm_fut := None\<rparr>, drop_lock_fut W fut' w')
      | (Pending, fut', w') \<Rightarrow> (Pending, self\<lparr>pm_fut := Some fut'\<rparr>, w'))"

definition PollMutex_poll_lock ::
  "('w, 'g, 'f, 'a) writer_api \<Rightarrow> 'f poll_mutex \<Rightarrow> waker \<Rightarrow> 'w \<Rightarrow> 'g poll \<times> 'f poll_mutex \<times> 'w" where
  "PollMutex_poll_lock W self cx w =
     (case pm_fut self of
        Some fut \<Rightarrow> PollMutex_poll_fut W self fut cx w
      | None \<Rightarrow>
          (case try_lock_owned W (pm_mutex self) w of
             (Some lock, w') \<Rightarrow> (Ready lock, self, w')
           | (None, w') \<Rightarrow>
               (case lock_owned W (pm_mutex self) w' of
                  (fut, w'') \<Rightarrow> PollMutex_poll_fut W (self\<lparr>pm_fut := Some fut\<rparr>) fut cx w'')))"

text \<open>The token and what is left of the handle.\<close>

definition PollMutex_take_token :: "'f poll_mutex \<Rightarrow> 'f poll_mutex \<times> 'f poll_mutex" where
  "PollMutex_take_token self =
     (\<lparr>pm_mutex = pm_mutex self, pm_fut = pm_fut self\<rparr>, self\<lparr>pm_fut := None\<rparr>)"

text \<open>
  \<open>async fn lock\<close>: the future that the first poll of the call awaits, and one poll of it.
\<close>

datatype 'f lock_await = AwaitOwned 'f | AwaitBorrowed 'f

definition PollMutex_lock ::
  "('w, 'g, 'f, 'a) writer_api \<Rightarrow> 'f poll_mutex \<Rightarrow> 'w \<Rightarrow> 'f lock_await \<times> 'f poll_mutex \<times> 'w" where
  "PollMutex_lock W self w =
     (case pm_fut self of
        Some fut \<Rightarrow> (AwaitOwned fut, self\<lparr>pm_fut := None\<rparr>, w)
      | None \<Rightarrow> (case lock_ref W (pm_mutex self) w of (fut, w') \<Rightarrow> (AwaitBorrowed fut, self, w')))"

fun PollMutex_lock_poll ::
  "('w, 'g, 'f, 'a) writer_api \<Rightarrow> 'f lock_await \<Rightarrow> waker \<Rightarrow> 'w \<Rightarrow>
     'g maybe_owned_guard poll \<times> 'f lock_await \<times> 'w" where
  "PollMutex_lock_poll W (AwaitOwned fut) cx w =
     (case poll_lock_fut W fut cx w of
        (Ready g, fut', w') \<Rightarrow> (Ready (Owned g), AwaitOwned fut', drop_lock_fut W fut' w')
      | (Pending, fut', w') \<Rightarrow> (Pending, AwaitOwned fut', w'))"
| "PollMutex_lock_poll W (AwaitBorrowed fut) cx w =
     (case poll_lock_fut W fut cx w of
        (Ready g, fut', w') \<Rightarrow> (Ready (Borrowed g), AwaitBorrowed fut', drop_lock_fut W fut' w')
      | (Pending, fut', w') \<Rightarrow> (Pending, AwaitBorrowed fut', w'))"

definition PollMutex_clone :: "'f poll_mutex \<Rightarrow> 'f poll_mutex" where
  "PollMutex_clone self = \<lparr>pm_mutex = pm_mutex self, pm_fut = None\<rparr>"

definition drop_fut_opt :: "('w, 'g, 'f, 'a) writer_api \<Rightarrow> 'f option \<Rightarrow> 'w \<Rightarrow> 'w" where
  "drop_fut_opt W fut w = (case fut of None \<Rightarrow> w | Some f \<Rightarrow> drop_lock_fut W f w)"

definition PollMutex_clone_from ::
  "('w, 'g, 'f, 'a) writer_api \<Rightarrow> 'f poll_mutex \<Rightarrow> 'f poll_mutex \<Rightarrow> 'w \<Rightarrow> 'f poll_mutex \<times> 'w" where
  "PollMutex_clone_from W self source w =
     (let w' = drop_fut_opt W (pm_fut self) w; self' = self\<lparr>pm_fut := None\<rparr>
      in if pm_mutex self' = pm_mutex source then (self', w')
         else (self'\<lparr>pm_mutex := pm_mutex source\<rparr>, w'))"

section \<open>Lemmas\<close>

lemma quiet_refl [simp]: "quiet wire holder w w"
  by (simp add: quiet_def)

lemma quiet_trans: "quiet wire holder u v \<Longrightarrow> quiet wire holder v w \<Longrightarrow> quiet wire holder u w"
  by (simp add: quiet_def)

lemma acquires_quiet_left: "quiet wire holder u v \<Longrightarrow> acquires wire holder v g w \<Longrightarrow> acquires wire holder u g w"
  by (simp add: quiet_def acquires_def)

lemma acquires_quiet_right: "acquires wire holder u g v \<Longrightarrow> quiet wire holder v w \<Longrightarrow> acquires wire holder u g w"
  by (simp add: quiet_def acquires_def)

lemma lock_lawsD:
  assumes "lock_laws W m wire holder"
  shows "try_lock_owned W m w = (Some g, w') \<Longrightarrow> acquires wire holder w g w'"
    and "try_lock_owned W m w = (None, w') \<Longrightarrow> quiet wire holder w w'"
    and "lock_owned W m w = (f, w') \<Longrightarrow> quiet wire holder w w'"
    and "lock_ref W m w = (f, w') \<Longrightarrow> quiet wire holder w w'"
    and "poll_lock_fut W f cx w = (Ready g, f', w') \<Longrightarrow> acquires wire holder w g w'"
    and "poll_lock_fut W f cx w = (Pending, f', w') \<Longrightarrow> quiet wire holder w w'"
    and "quiet wire holder w (drop_lock_fut W f w)"
    and "holder w = Some g \<Longrightarrow> wire (drop_guard W g w) = wire w"
    and "holder w = Some g \<Longrightarrow> holder (drop_guard W g w) = None"
  using assms by (auto simp: lock_laws_def)

lemma write_lawsD:
  assumes "write_laws W wire holder rest"
  shows "poll_write_w W g cx bs w = (r, w') \<Longrightarrow> holder w' = holder w"
    and "poll_write_w W g cx bs w = (Ready (Inr n), w') \<Longrightarrow> n \<le> length bs"
    and "poll_write_w W g cx bs w = (Ready (Inr n), w') \<Longrightarrow> wire w' = wire w @ take n bs"
    and "poll_write_w W g cx bs w = (Ready (Inl e), w') \<Longrightarrow> wire w' = wire w"
    and "poll_write_w W g cx bs w = (Pending, w') \<Longrightarrow> wire w' = wire w"
    and "poll_flush_w W g cx w = (q, w') \<Longrightarrow> quiet wire holder w w'"
  using assms unfolding write_laws_def by fastforce+

lemma write_all_lawsD:
  assumes "write_laws W wire holder rest"
  shows "rest (write_all W bs) = bs"
    and "poll_write_all W a g cx w = (r, a', w') \<Longrightarrow> holder w' = holder w"
    and "poll_write_all W a g cx w = (r, a', w') \<Longrightarrow> \<exists>bs. rest a = bs @ rest a' \<and> wire w' = wire w @ bs"
    and "poll_write_all W a g cx w = (Ready (Inr ()), a', w') \<Longrightarrow> rest a' = []"
  using assms unfolding write_laws_def by blast+

lemma poll_fut_spec:
  assumes laws: "lock_laws W m wire holder"
    and eq: "PollMutex_poll_fut W self f cx w = (r, self', w')"
  shows "pm_mutex self' = pm_mutex self"
    and "r = Ready g \<Longrightarrow> pm_fut self' = None \<and> acquires wire holder w g w'"
    and "r = Pending \<Longrightarrow> pm_fut self' \<noteq> None \<and> quiet wire holder w w'"
proof -
  obtain r1 f' w1 where p: "poll_lock_fut W f cx w = (r1, f', w1)"
    by (metis prod_cases3)
  show "pm_mutex self' = pm_mutex self"
    using eq p by (auto simp: PollMutex_poll_fut_def split: poll.splits)
  show "pm_fut self' = None \<and> acquires wire holder w g w'" if "r = Ready g"
    using that eq p lock_lawsD(7) [OF laws, of w1 f']
    by (auto simp: PollMutex_poll_fut_def acquires_def quiet_def split: poll.splits
        dest!: lock_lawsD(5) [OF laws])
  show "pm_fut self' \<noteq> None \<and> quiet wire holder w w'" if "r = Pending"
    using that eq p lock_lawsD(6) [OF laws]
    by (auto simp: PollMutex_poll_fut_def split: poll.splits)
qed

lemma poll_lock_spec:
  assumes laws: "lock_laws W m wire holder" and m: "pm_mutex self = m"
    and eq: "PollMutex_poll_lock W self cx w = (r, self', w')"
  shows "pm_mutex self' = m"
    and "r = Ready g \<Longrightarrow> pm_fut self' = None \<and> acquires wire holder w g w'"
    and "r = Pending \<Longrightarrow> pm_fut self' \<noteq> None \<and> quiet wire holder w w'"
proof -
  consider (fut) f where "pm_fut self = Some f" "PollMutex_poll_fut W self f cx w = (r, self', w')"
    | (now) g' where "pm_fut self = None" "try_lock_owned W m w = (Some g', w')" "r = Ready g'" "self' = self"
    | (wait) w1 f w2 where "pm_fut self = None" "try_lock_owned W m w = (None, w1)"
        "lock_owned W m w1 = (f, w2)"
        "PollMutex_poll_fut W (self\<lparr>pm_fut := Some f\<rparr>) f cx w2 = (r, self', w')"
    using eq m by (auto simp: PollMutex_poll_lock_def split: option.splits prod.splits)
  then have "pm_mutex self' = m \<and> (\<forall>g. r = Ready g \<longrightarrow> pm_fut self' = None \<and> acquires wire holder w g w') \<and>
      (r = Pending \<longrightarrow> pm_fut self' \<noteq> None \<and> quiet wire holder w w')"
  proof cases
    case fut
    then show ?thesis
      using poll_fut_spec [OF laws fut(2)] m by auto
  next
    case now
    then show ?thesis
      using lock_lawsD(1) [OF laws now(2)] m by auto
  next
    case wait
    then have "quiet wire holder w w2"
      using lock_lawsD(2,3) [OF laws] by (blast intro: quiet_trans)
    then show ?thesis
      using poll_fut_spec [OF laws wait(4)] m
      by (auto intro: acquires_quiet_left quiet_trans)
  qed
  then show "pm_mutex self' = m"
    and "r = Ready g \<Longrightarrow> pm_fut self' = None \<and> acquires wire holder w g w'"
    and "r = Pending \<Longrightarrow> pm_fut self' \<noteq> None \<and> quiet wire holder w w'"
    by blast+
qed

lemma lock_start_quiet:
  assumes "lock_laws W m wire holder" and "pm_mutex self = m"
    and "PollMutex_lock W self w = (a, self', w')"
  shows "quiet wire holder w w' \<and> pm_mutex self' = m \<and> pm_fut self' = None"
  using assms(2,3) lock_lawsD [OF assms(1)]
  by (auto simp: PollMutex_lock_def split: option.splits prod.splits)

lemma lock_poll_spec:
  assumes laws: "lock_laws W m wire holder"
    and eq: "PollMutex_lock_poll W a cx w = (r, a', w')"
  shows "r = Ready mg \<Longrightarrow> acquires wire holder w (MaybeOwnedGuard_deref mg) w'"
    and "r = Pending \<Longrightarrow> quiet wire holder w w'"
proof -
  obtain f q f' w1 where p: "poll_lock_fut W f cx w = (q, f', w1)" and a: "a = AwaitOwned f \<or> a = AwaitBorrowed f"
    by (cases a) (metis prod_cases3)+
  show "quiet wire holder w w'" if "r = Pending"
    using that eq p a lock_lawsD(6) [OF laws, of f cx w f'] by (auto split: poll.splits)
  show "acquires wire holder w (MaybeOwnedGuard_deref mg) w'" if "r = Ready mg"
  proof -
    from that eq p a obtain g where g: "q = Ready g" "MaybeOwnedGuard_deref mg = g" "w' = drop_lock_fut W f' w1"
      by (auto split: poll.splits)
    with p have "acquires wire holder w g w1" by (auto intro: lock_lawsD(5) [OF laws])
    with lock_lawsD(7) [OF laws, of w1 f'] g show ?thesis by (simp add: acquires_quiet_right)
  qed
qed

lemma drop_fut_opt_quiet: "lock_laws W m wire holder \<Longrightarrow> quiet wire holder w (drop_fut_opt W f w)"
  by (auto simp: drop_fut_opt_def dest: lock_lawsD(7) split: option.splits)

end
