(* ===== verification/Write_Model.thy ===== *)
theory Write_Model
  imports Packet_Buffer Poll_Mutex
begin

text \<open>
  \<open>src/write.rs\<close>: the writing half of a connection. This theory holds the definitions; the theories
  \<open>Write_Flush\<close>, \<open>Write_Poll\<close> and \<open>Write_Shutdown\<close> hold the lemmas. Every operation takes the
  tokio parameter \<open>W\<close>, the connection and the world, and returns how the call ended together with
  the connection and the world it leaves. Loops are \<open>partial_function (option)\<close>: \<open>None\<close> is a call
  that does not return.
\<close>

section \<open>State\<close>

datatype 'g shutdown_state =
    WaitingLock
  | ShutFlushing 'g u32
  | ShutWriting 'g u8
  | ShutDone
  | ShutError

datatype 'g write_state = Buffering | Flushing 'g u32

datatype 'g write_pipe_state =
    Poisoned
  | Shutdown "'g shutdown_state"
  | Writing waker "'g write_state"

record ('g, 'f) write_inner =
  wi_write_lock :: "'f poll_mutex"
  wi_state :: "'g write_pipe_state"
  wi_buffer :: packet_buffer

text \<open>\<open>PoisonOnPanic::new\<close> panics on a poisoned state.\<close>

definition PoisonOnPanic_new :: "'g write_pipe_state \<Rightarrow> 'g write_pipe_state run" where
  "PoisonOnPanic_new state = (case state of Poisoned \<Rightarrow> Panicked | _ \<Rightarrow> Done state)"

text \<open>Overwriting a state drops the guard it holds, which releases the mutex.\<close>

fun state_guard :: "'g write_pipe_state \<Rightarrow> 'g option" where
  "state_guard (Writing _ (Flushing g _)) = Some g"
| "state_guard (Shutdown (ShutFlushing g _)) = Some g"
| "state_guard (Shutdown (ShutWriting g _)) = Some g"
| "state_guard _ = None"

definition drop_state :: "('w, 'g, 'f, 'a) writer_api \<Rightarrow> 'g write_pipe_state \<Rightarrow> 'w \<Rightarrow> 'w" where
  "drop_state W state w = (case state_guard state of None \<Rightarrow> w | Some g \<Rightarrow> drop_guard W g w)"

text \<open>\<open>Drop for PoisonOnPanic\<close>: while unwinding, the state becomes \<open>Poisoned\<close>.\<close>

definition PoisonOnPanic_drop ::
  "('w, 'g, 'f, 'a) writer_api \<Rightarrow> 'r run \<Rightarrow> 'g write_pipe_state \<Rightarrow> 'w \<Rightarrow> 'g write_pipe_state \<times> 'w" where
  "PoisonOnPanic_drop W r state w =
     (case r of Panicked \<Rightarrow> (Poisoned, drop_state W state w) | _ \<Rightarrow> (state, w))"

definition WriteInner_init ::
  "('g, 'f) write_inner \<Rightarrow> socket_addr \<times> 'f poll_mutex \<Rightarrow> ('g, 'f) write_inner" where
  "WriteInner_init this data =
     (case data of (s, lock) \<Rightarrow>
        this\<lparr>wi_write_lock := lock,
             wi_state := Writing Noop Buffering,
             wi_buffer := PacketBuffer_init (wi_buffer this) s\<rparr>)"

definition WriteInner_addr :: "('g, 'f) write_inner \<Rightarrow> socket_addr" where
  "WriteInner_addr self = PacketBuffer_addr (wi_buffer self)"

section \<open>Counters and the flush loop\<close>

text \<open>\<open>WriteCounter\<close> for \<open>u8\<close> and \<open>u32\<close>: \<open>add\<close> truncates the amount and panics on overflow.\<close>

datatype counter = CounterU8 u8 | CounterU32 u32

fun current_count :: "counter \<Rightarrow> u32" where
  "current_count (CounterU8 c) = ucast c"
| "current_count (CounterU32 c) = c"

fun counter_add :: "counter \<Rightarrow> nat \<Rightarrow> counter run" where
  "counter_add (CounterU8 c) amt =
     (let k = (of_nat amt :: u8)
      in if unat c + unat k < 2 ^ 8 then Done (CounterU8 (c + k)) else Panicked)"
| "counter_add (CounterU32 c) amt =
     (let k = (of_nat amt :: u32)
      in if unat c + unat k < 2 ^ 32 then Done (CounterU32 (c + k)) else Panicked)"

text \<open>\<open>poll_locked\<close>: take the lock unless the state has it.\<close>

definition poll_locked ::
  "('w, 'g, 'f, 'a) writer_api \<Rightarrow> 'g write_state \<Rightarrow> 'f poll_mutex \<Rightarrow> waker \<Rightarrow> 'w \<Rightarrow>
     ('g \<times> u32) poll \<times> 'g write_state \<times> 'f poll_mutex \<times> 'w" where
  "poll_locked W state write_lock cx w =
     (case state of
        Buffering \<Rightarrow>
          (case PollMutex_poll_lock W write_lock cx w of
             (Ready lock, write_lock', w') \<Rightarrow> (Ready (lock, 0), Flushing lock 0, write_lock', w')
           | (Pending, write_lock', w') \<Rightarrow> (Pending, Buffering, write_lock', w'))
      | Flushing lock written \<Rightarrow> (Ready (lock, written), Flushing lock written, write_lock, w))"

partial_function (option) flush_buf ::
  "('w, 'g, 'f, 'a) writer_api \<Rightarrow> waker \<Rightarrow> packet_buffer \<Rightarrow> 'g \<Rightarrow> counter \<Rightarrow> 'w \<Rightarrow>
     (unit io_result poll run \<times> packet_buffer \<times> counter \<times> 'w) option" where
  "flush_buf W cx buffer lock written w =
     (case PacketBuffer_bytes_from buffer (current_count written) of
        Panicked \<Rightarrow> Some (Panicked, buffer, written, w)
      | Undefined \<Rightarrow> Some (Undefined, buffer, written, w)
      | Done bytes \<Rightarrow>
          if bytes = [] then Some (Done (Ready (Inr ())), PacketBuffer_clear buffer, written, w)
          else
            (case poll_write_w W lock cx bytes w of
               (Ready (Inr wrote_now), w') \<Rightarrow>
                 if wrote_now = 0
                 then Some (Done (Ready (Inl (IoError WriteZero ''failed to flush packet buffer''))),
                            buffer, written, w')
                 else (case counter_add written wrote_now of
                         Done written' \<Rightarrow> flush_buf W cx buffer lock written' w'
                       | Panicked \<Rightarrow> Some (Panicked, buffer, written, w')
                       | Undefined \<Rightarrow> Some (Undefined, buffer, written, w'))
             | (Ready (Inl e), w') \<Rightarrow> Some (Done (Ready (Inl e)), buffer, written, w')
             | (Pending, w') \<Rightarrow> Some (Done Pending, buffer, written, w')))"

section \<open>\<open>poll_write\<close>\<close>

text \<open>
  The macro \<open>flush!\<close>: \<open>Inl\<close> when it returns from \<open>poll_write\<close>, \<open>Inr ()\<close> when the loop goes on.
\<close>

definition flush_macro ::
  "('w, 'g, 'f, 'a) writer_api \<Rightarrow> waker \<Rightarrow> packet_buffer \<Rightarrow> 'g \<Rightarrow> u32 \<Rightarrow> nat \<Rightarrow> 'w \<Rightarrow>
     ((nat io_result poll run + unit) \<times> 'g write_state \<times> packet_buffer \<times> 'w) option" where
  "flush_macro W cx buffer lock amt wrote w =
     (case flush_buf W cx buffer lock (CounterU32 amt) w of
        None \<Rightarrow> None
      | Some (r, buffer', amt', w') \<Rightarrow>
          Some (case r of
              Done (Ready (Inr u)) \<Rightarrow> (Inr (), Buffering, buffer', drop_guard W lock w')
            | Done (Ready (Inl e)) \<Rightarrow> (Inl (Done (Ready (Inl e))), Buffering, buffer', drop_guard W lock w')
            | Done Pending \<Rightarrow>
                (Inl (Done (if wrote \<noteq> 0 then Ready (Inr wrote) else Pending)),
                 Flushing lock (current_count amt'), buffer', w')
            | Panicked \<Rightarrow> (Inl Panicked, Flushing lock (current_count amt'), buffer', w')
            | Undefined \<Rightarrow> (Inl Undefined, Flushing lock (current_count amt'), buffer', w')))"

partial_function (option) poll_write_loop ::
  "('w, 'g, 'f, 'a) writer_api \<Rightarrow> waker \<Rightarrow> 'g write_state \<Rightarrow> 'f poll_mutex \<Rightarrow> packet_buffer \<Rightarrow>
     byte list \<Rightarrow> nat \<Rightarrow> 'w \<Rightarrow>
     (nat io_result poll run \<times> 'g write_state \<times> 'f poll_mutex \<times> packet_buffer \<times> 'w) option" where
  "poll_write_loop W cx state lk buffer buf wrote w =
     (if buf = [] then Some (Done (Ready (Inr wrote)), state, lk, buffer, w)
      else case state of
        Buffering \<Rightarrow>
          if PacketBuffer_is_full buffer
          then
            (case poll_locked W state lk cx w of
               (Pending, state', lk', w') \<Rightarrow> Some (Done Pending, state', lk', buffer, w')
             | (Ready (writer, amt), state', lk', w') \<Rightarrow>
                 (case flush_macro W cx buffer writer amt wrote w' of
                    None \<Rightarrow> None
                  | Some (Inl ret, state'', buffer', w'') \<Rightarrow> Some (ret, state'', lk', buffer', w'')
                  | Some (Inr u, state'', buffer', w'') \<Rightarrow>
                      (case PacketBuffer_push buffer' buf 0 of
                         Done (n, buffer'') \<Rightarrow>
                           poll_write_loop W cx state'' lk' buffer'' (drop (unat n) buf) (wrote + unat n) w''
                       | Panicked \<Rightarrow> Some (Panicked, state'', lk', buffer', w'')
                       | Undefined \<Rightarrow> Some (Undefined, state'', lk', buffer', w''))))
          else
            (case PacketBuffer_push buffer buf 0 of
               Done (n, buffer') \<Rightarrow>
                 poll_write_loop W cx state lk buffer' (drop (unat n) buf) (wrote + unat n) w
             | Panicked \<Rightarrow> Some (Panicked, state, lk, buffer, w)
             | Undefined \<Rightarrow> Some (Undefined, state, lk, buffer, w))
      | Flushing lock written \<Rightarrow>
          (case (if PacketBuffer_must_flush_for buffer written then Done (0, buffer)
                 else PacketBuffer_push buffer buf written) of
             Done (n, buffer') \<Rightarrow>
               (case flush_macro W cx buffer' lock written (wrote + unat n) w of
                  None \<Rightarrow> None
                | Some (Inl ret, state', buffer'', w') \<Rightarrow> Some (ret, state', lk, buffer'', w')
                | Some (Inr u, state', buffer'', w') \<Rightarrow>
                    poll_write_loop W cx state' lk buffer'' (drop (unat n) buf) (wrote + unat n) w')
           | Panicked \<Rightarrow> Some (Panicked, state, lk, buffer, w)
           | Undefined \<Rightarrow> Some (Undefined, state, lk, buffer, w)))"

text \<open>
  \<open>poll_write\<close> with \<open>get_write_state!\<close>: a pipe that is shutting down answers \<open>BrokenPipe\<close>; an open
  one remembers the caller's waker and runs the loop.
\<close>

definition broken_pipe :: io_error where
  "broken_pipe = IoError BrokenPipe ''''"

definition WriteInner_poll_write ::
  "('w, 'g, 'f, 'a) writer_api \<Rightarrow> ('g, 'f) write_inner \<Rightarrow> waker \<Rightarrow> byte list \<Rightarrow> 'w \<Rightarrow>
     (nat io_result poll run \<times> ('g, 'f) write_inner \<times> 'w) option" where
  "WriteInner_poll_write W this cx buf w =
     (case PoisonOnPanic_new (wi_state this) of
        Panicked \<Rightarrow> Some (Panicked, this, w)
      | Undefined \<Rightarrow> Some (Undefined, this, w)
      | Done state \<Rightarrow>
          (case state of
             Poisoned \<Rightarrow> Some (Panicked, this, w)
           | Shutdown _ \<Rightarrow> Some (Done (Ready (Inl broken_pipe)), this, w)
           | Writing waker write_state \<Rightarrow>
               (case poll_write_loop W cx write_state (wi_write_lock this) (wi_buffer this) buf 0 w of
                  None \<Rightarrow> None
                | Some (r, write_state', lk, buffer, w') \<Rightarrow>
                    (case PoisonOnPanic_drop W r (Writing cx write_state') w' of
                       (state', w'') \<Rightarrow>
                         Some (r, this\<lparr>wi_write_lock := lk, wi_state := state', wi_buffer := buffer\<rparr>, w'')))))"

section \<open>\<open>poll_flush\<close>\<close>

text \<open>The second half of \<open>poll_flush\<close>: lock again, then flush the writer itself.\<close>

definition flush_writer ::
  "('w, 'g, 'f, 'a) writer_api \<Rightarrow> waker \<Rightarrow> 'g write_state \<Rightarrow> 'f poll_mutex \<Rightarrow> packet_buffer \<Rightarrow> 'w \<Rightarrow>
     unit io_result poll run \<times> 'g write_state \<times> 'f poll_mutex \<times> packet_buffer \<times> 'w" where
  "flush_writer W cx write_state lk buffer w =
     (case poll_locked W write_state lk cx w of
        (Pending, write_state', lk', w') \<Rightarrow> (Done Pending, write_state', lk', buffer, w')
      | (Ready (lock, _), write_state', lk', w') \<Rightarrow>
          (case poll_flush_w W lock cx w' of
             (Ready res, w'') \<Rightarrow> (Done (Ready res), Buffering, lk', buffer, drop_guard W lock w'')
           | (Pending, w'') \<Rightarrow> (Done Pending, write_state', lk', buffer, w'')))"

definition poll_flush_body ::
  "('w, 'g, 'f, 'a) writer_api \<Rightarrow> waker \<Rightarrow> 'g write_state \<Rightarrow> 'f poll_mutex \<Rightarrow> packet_buffer \<Rightarrow> 'w \<Rightarrow>
     (unit io_result poll run \<times> 'g write_state \<times> 'f poll_mutex \<times> packet_buffer \<times> 'w) option" where
  "poll_flush_body W cx write_state lk buffer w =
     (if PacketBuffer_is_empty buffer then Some (flush_writer W cx write_state lk buffer w)
      else case poll_locked W write_state lk cx w of
        (Pending, write_state', lk', w') \<Rightarrow> Some (Done Pending, write_state', lk', buffer, w')
      | (Ready (lock, written), write_state', lk', w') \<Rightarrow>
          (case flush_buf W cx buffer lock (CounterU32 written) w' of
             None \<Rightarrow> None
           | Some (r, buffer', written', w'') \<Rightarrow>
               (case r of
                  Done Pending \<Rightarrow>
                    Some (Done Pending, Flushing lock (current_count written'), lk', buffer', w'')
                | Done (Ready (Inl err)) \<Rightarrow>
                    Some (Done (Ready (Inl err)), Buffering, lk', buffer', drop_guard W lock w'')
                | Done (Ready (Inr u)) \<Rightarrow>
                    if PacketBuffer_is_empty buffer'
                    then Some (flush_writer W cx (Flushing lock (current_count written')) lk' buffer' w'')
                    else Some (Panicked, Flushing lock (current_count written'), lk', buffer', w'')
                | Panicked \<Rightarrow> Some (Panicked, Flushing lock (current_count written'), lk', buffer', w'')
                | Undefined \<Rightarrow> Some (Undefined, Flushing lock (current_count written'), lk', buffer', w''))))"

definition WriteInner_poll_flush ::
  "('w, 'g, 'f, 'a) writer_api \<Rightarrow> ('g, 'f) write_inner \<Rightarrow> waker \<Rightarrow> 'w \<Rightarrow>
     (unit io_result poll run \<times> ('g, 'f) write_inner \<times> 'w) option" where
  "WriteInner_poll_flush W this cx w =
     (case PoisonOnPanic_new (wi_state this) of
        Panicked \<Rightarrow> Some (Panicked, this, w)
      | Undefined \<Rightarrow> Some (Undefined, this, w)
      | Done state \<Rightarrow>
          (case state of
             Poisoned \<Rightarrow> Some (Panicked, this, w)
           | Shutdown _ \<Rightarrow> Some (Done (Ready (Inl broken_pipe)), this, w)
           | Writing waker write_state \<Rightarrow>
               (case poll_flush_body W cx write_state (wi_write_lock this) (wi_buffer this) w of
                  None \<Rightarrow> None
                | Some (r, write_state', lk, buffer, w') \<Rightarrow>
                    (case PoisonOnPanic_drop W r (Writing cx write_state') w' of
                       (state', w'') \<Rightarrow>
                         Some (r, this\<lparr>wi_write_lock := lk, wi_state := state', wi_buffer := buffer\<rparr>, w'')))))"

section \<open>\<open>poll_shutdown\<close>\<close>

fun counter_u8 :: "counter \<Rightarrow> u8" where
  "counter_u8 (CounterU8 c) = c"
| "counter_u8 (CounterU32 c) = ucast c"

fun shutdown_rank :: "'g shutdown_state \<Rightarrow> nat" where
  "shutdown_rank WaitingLock = 4"
| "shutdown_rank (ShutFlushing _ _) = 3"
| "shutdown_rank (ShutWriting _ _) = 2"
| "shutdown_rank ShutDone = 1"
| "shutdown_rank ShutError = 1"

text \<open>The loop of \<open>poll_shutdown\<close>, one equation per state; each turn moves the state forward.\<close>

function shutdown_loop ::
  "('w, 'g, 'f, 'a) writer_api \<Rightarrow> waker \<Rightarrow> 'g shutdown_state \<Rightarrow> 'f poll_mutex \<Rightarrow> packet_buffer \<Rightarrow> 'w \<Rightarrow>
     (unit io_result poll run \<times> 'g shutdown_state \<times> 'f poll_mutex \<times> packet_buffer \<times> 'w) option" where
  "shutdown_loop W cx WaitingLock lk buffer w =
     (case PollMutex_poll_lock W lk cx w of
        (Pending, lk', w') \<Rightarrow> Some (Done Pending, WaitingLock, lk', buffer, w')
      | (Ready lock, lk', w') \<Rightarrow> shutdown_loop W cx (ShutFlushing lock 0) lk' buffer w')"
| "shutdown_loop W cx (ShutFlushing lock written) lk buffer w =
     (if PacketBuffer_is_empty buffer then shutdown_loop W cx (ShutWriting lock 0) lk buffer w
      else case flush_buf W cx buffer lock (CounterU32 written) w of
        None \<Rightarrow> None
      | Some (Done Pending, buffer', written', w') \<Rightarrow>
          Some (Done Pending, ShutFlushing lock (current_count written'), lk, buffer', w')
      | Some (Done (Ready (Inl err)), buffer', written', w') \<Rightarrow>
          Some (Done (Ready (Inl err)), ShutError, lk, buffer', drop_guard W lock w')
      | Some (Done (Ready (Inr u)), buffer', written', w') \<Rightarrow>
          shutdown_loop W cx (ShutWriting lock 0) lk buffer' w'
      | Some (Panicked, buffer', written', w') \<Rightarrow>
          Some (Panicked, ShutFlushing lock (current_count written'), lk, buffer', w')
      | Some (Undefined, buffer', written', w') \<Rightarrow>
          Some (Undefined, ShutFlushing lock (current_count written'), lk, buffer', w'))"
| "shutdown_loop W cx (ShutWriting lock written) lk buffer w =
     (if \<not> PacketBuffer_is_empty buffer then Some (Panicked, ShutWriting lock written, lk, buffer, w)
      else case flush_buf W cx buffer lock (CounterU8 written) w of
        None \<Rightarrow> None
      | Some (Done Pending, buffer', written', w') \<Rightarrow>
          Some (Done Pending, ShutWriting lock (counter_u8 written'), lk, buffer', w')
      | Some (Done (Ready (Inl err)), buffer', written', w') \<Rightarrow>
          Some (Done (Ready (Inl err)), ShutError, lk, buffer', drop_guard W lock w')
      | Some (Done (Ready (Inr u)), buffer', written', w') \<Rightarrow>
          shutdown_loop W cx ShutDone lk buffer' (drop_guard W lock w')
      | Some (Panicked, buffer', written', w') \<Rightarrow>
          Some (Panicked, ShutWriting lock (counter_u8 written'), lk, buffer', w')
      | Some (Undefined, buffer', written', w') \<Rightarrow>
          Some (Undefined, ShutWriting lock (counter_u8 written'), lk, buffer', w'))"
| "shutdown_loop W cx ShutDone lk buffer w = Some (Done (Ready (Inr ())), ShutDone, lk, buffer, w)"
| "shutdown_loop W cx ShutError lk buffer w =
     Some (Done (Ready (Inl (IoError OtherKind ''mux connection shutdown previously failed''))),
           ShutError, lk, buffer, w)"
  by pat_completeness auto
termination
  by (relation "measure (\<lambda>(W, cx, state, lk, buffer, w). shutdown_rank state)") auto

declare shutdown_loop.simps [simp del]

text \<open>
  \<open>poll_shutdown\<close>: the first call turns an open pipe into one that shuts down and wakes the last
  writer; the woken tasks are the last component of the result.
\<close>

definition shutdown_enter :: "'g write_state \<Rightarrow> 'g shutdown_state" where
  "shutdown_enter state =
     (case state of Buffering \<Rightarrow> WaitingLock | Flushing lock written \<Rightarrow> ShutFlushing lock written)"

definition WriteInner_poll_shutdown ::
  "('w, 'g, 'f, 'a) writer_api \<Rightarrow> ('g, 'f) write_inner \<Rightarrow> waker \<Rightarrow> 'w \<Rightarrow>
     (unit io_result poll run \<times> ('g, 'f) write_inner \<times> 'w \<times> waker list) option" where
  "WriteInner_poll_shutdown W this cx w =
     (case PoisonOnPanic_new (wi_state this) of
        Panicked \<Rightarrow> Some (Panicked, this, w, [])
      | Undefined \<Rightarrow> Some (Undefined, this, w, [])
      | Done state \<Rightarrow>
          (case (case state of
                   Poisoned \<Rightarrow> None
                 | Shutdown st \<Rightarrow> Some (st, [])
                 | Writing waker st \<Rightarrow> Some (shutdown_enter st, [waker])) of
             None \<Rightarrow> Some (Panicked, this, w, [])
           | Some (st, woken) \<Rightarrow>
               (case shutdown_loop W cx st (wi_write_lock this) (wi_buffer this) w of
                  None \<Rightarrow> None
                | Some (r, st', lk, buffer, w') \<Rightarrow>
                    (case PoisonOnPanic_drop W r (Shutdown st') w' of
                       (state', w'') \<Rightarrow>
                         Some (r, this\<lparr>wi_write_lock := lk, wi_state := state', wi_buffer := buffer\<rparr>,
                               w'', woken)))))"

section \<open>The handshake\<close>

text \<open>\<open>async fn handshake\<close>: its await points, the call up to the first one, and one poll.\<close>

datatype ('g, 'f, 'a) handshake_fut =
    HandshakeLock "'f lock_await"
  | HandshakeWrite 'g 'a
  | HandshakeDone

definition WriteInner_handshake ::
  "('w, 'g, 'f, 'a) writer_api \<Rightarrow> ('g, 'f) write_inner \<Rightarrow> 'w \<Rightarrow>
     (('g, 'f, 'a) handshake_fut \<times> ('g, 'f) write_inner \<times> 'w) run" where
  "WriteInner_handshake W self w =
     (case wi_state self of
        Writing _ Buffering \<Rightarrow>
          if PacketBuffer_is_empty (wi_buffer self)
          then (case PollMutex_lock W (wi_write_lock self) w of
                  (fut, lk, w') \<Rightarrow> Done (HandshakeLock fut, self\<lparr>wi_write_lock := lk\<rparr>, w'))
          else Panicked
      | _ \<Rightarrow> Panicked)"

definition handshake_write ::
  "('w, 'g, 'f, 'a) writer_api \<Rightarrow> 'g \<Rightarrow> 'a \<Rightarrow> waker \<Rightarrow> 'w \<Rightarrow>
     unit io_result poll run \<times> ('g, 'f, 'a) handshake_fut \<times> 'w" where
  "handshake_write W lock fut cx w =
     (case poll_write_all W fut lock cx w of
        (Pending, fut', w') \<Rightarrow> (Done Pending, HandshakeWrite lock fut', w')
      | (Ready res, fut', w') \<Rightarrow> (Done (Ready res), HandshakeDone, drop_guard W lock w'))"

fun WriteInner_handshake_poll ::
  "('w, 'g, 'f, 'a) writer_api \<Rightarrow> ('g, 'f) write_inner \<Rightarrow> ('g, 'f, 'a) handshake_fut \<Rightarrow> waker \<Rightarrow> 'w \<Rightarrow>
     unit io_result poll run \<times> ('g, 'f, 'a) handshake_fut \<times> 'w" where
  "WriteInner_handshake_poll W self (HandshakeLock fut) cx w =
     (case PollMutex_lock_poll W fut cx w of
        (Pending, fut', w') \<Rightarrow> (Done Pending, HandshakeLock fut', w')
      | (Ready guard, fut', w') \<Rightarrow>
          (case PacketBuffer_bytes (wi_buffer self) of
             Done bytes \<Rightarrow> handshake_write W (MaybeOwnedGuard_deref guard) (write_all W bytes) cx w'
           | Panicked \<Rightarrow> (Panicked, HandshakeDone, drop_guard W (MaybeOwnedGuard_deref guard) w')
           | Undefined \<Rightarrow> (Undefined, HandshakeDone, w')))"
| "WriteInner_handshake_poll W self (HandshakeWrite lock fut) cx w = handshake_write W lock fut cx w"
| "WriteInner_handshake_poll W self HandshakeDone cx w = (Panicked, HandshakeDone, w)"

section \<open>Dropping the writer\<close>

text \<open>
  \<open>Drop for WriteInner\<close>: what the spawned task starts from (\<open>Ok\<close>, \<open>Err(Ok)\<close> and \<open>Err(Err)\<close> of the
  source), the drop itself, and one poll of the task. The task is \<open>None\<close> when nothing is spawned.
\<close>

datatype ('g, 'f) drop_writer =
    DropToken "'f poll_mutex"
  | DropLocked 'g
  | DropRest 'g "byte list"

datatype ('g, 'f, 'a) drop_task =
    TaskStart "('g, 'f) drop_writer" socket_addr
  | TaskLock "'f lock_await" socket_addr
  | TaskRest 'g 'a socket_addr
  | TaskEof 'g 'a
  | TaskDone

definition WriteInner_drop ::
  "('w, 'g, 'f, 'a) writer_api \<Rightarrow> ('g, 'f) write_inner \<Rightarrow> 'w \<Rightarrow>
     ('g, 'f, 'a) drop_task option run \<times> 'w" where
  "WriteInner_drop W self w =
     (let addr = PacketBuffer_addr (wi_buffer self);
          lk = wi_write_lock self
      in case wi_state self of
           Poisoned \<Rightarrow> (Done None, drop_fut_opt W (pm_fut lk) w)
         | Shutdown st \<Rightarrow> (Done None, drop_fut_opt W (pm_fut lk) (drop_state W (Shutdown st) w))
         | Writing _ (Flushing lock written) \<Rightarrow>
             if 1 \<le> written
             then (case PacketBuffer_bytes_from (wi_buffer self) written of
                     Done rest_data \<Rightarrow>
                       (Done (Some (TaskStart (DropRest lock rest_data) addr)), drop_fut_opt W (pm_fut lk) w)
                   | Panicked \<Rightarrow> (Panicked, drop_fut_opt W (pm_fut lk) (drop_guard W lock w))
                   | Undefined \<Rightarrow> (Undefined, w))
             else (Done (Some (TaskStart (DropLocked lock) addr)), drop_fut_opt W (pm_fut lk) w)
         | Writing _ Buffering \<Rightarrow>
             (case PollMutex_take_token lk of
                (token, lk') \<Rightarrow>
                  (Done (Some (TaskStart (DropToken token) addr)), drop_fut_opt W (pm_fut lk') w)))"

definition drop_eof ::
  "('w, 'g, 'f, 'a) writer_api \<Rightarrow> 'g \<Rightarrow> 'a \<Rightarrow> waker \<Rightarrow> 'w \<Rightarrow> unit poll \<times> ('g, 'f, 'a) drop_task \<times> 'w" where
  "drop_eof W lock fut cx w =
     (case poll_write_all W fut lock cx w of
        (Pending, fut', w') \<Rightarrow> (Pending, TaskEof lock fut', w')
      | (Ready _, fut', w') \<Rightarrow> (Ready (), TaskDone, drop_guard W lock w'))"

definition eof_fut :: "('w, 'g, 'f, 'a) writer_api \<Rightarrow> socket_addr \<Rightarrow> 'a" where
  "eof_fut W addr = write_all W (MuxFrameHeader_bytes (MuxFrameHeader_empty addr))"

definition drop_rest ::
  "('w, 'g, 'f, 'a) writer_api \<Rightarrow> 'g \<Rightarrow> 'a \<Rightarrow> socket_addr \<Rightarrow> waker \<Rightarrow> 'w \<Rightarrow>
     unit poll \<times> ('g, 'f, 'a) drop_task \<times> 'w" where
  "drop_rest W lock fut addr cx w =
     (case poll_write_all W fut lock cx w of
        (Pending, fut', w') \<Rightarrow> (Pending, TaskRest lock fut' addr, w')
      | (Ready (Inl e), fut', w') \<Rightarrow> (Ready (), TaskDone, drop_guard W lock w')
      | (Ready (Inr u), fut', w') \<Rightarrow> drop_eof W lock (eof_fut W addr) cx w')"

definition drop_lock ::
  "('w, 'g, 'f, 'a) writer_api \<Rightarrow> 'f lock_await \<Rightarrow> socket_addr \<Rightarrow> waker \<Rightarrow> 'w \<Rightarrow>
     unit poll \<times> ('g, 'f, 'a) drop_task \<times> 'w" where
  "drop_lock W fut addr cx w =
     (case PollMutex_lock_poll W fut cx w of
        (Pending, fut', w') \<Rightarrow> (Pending, TaskLock fut' addr, w')
      | (Ready guard, fut', w') \<Rightarrow> drop_eof W (MaybeOwnedGuard_deref guard) (eof_fut W addr) cx w')"

fun drop_task_poll ::
  "('w, 'g, 'f, 'a) writer_api \<Rightarrow> ('g, 'f, 'a) drop_task \<Rightarrow> waker \<Rightarrow> 'w \<Rightarrow>
     unit poll \<times> ('g, 'f, 'a) drop_task \<times> 'w" where
  "drop_task_poll W (TaskStart (DropToken token) addr) cx w =
     (case PollMutex_lock W token w of (fut, token', w') \<Rightarrow> drop_lock W fut addr cx w')"
| "drop_task_poll W (TaskStart (DropLocked lock) addr) cx w = drop_eof W lock (eof_fut W addr) cx w"
| "drop_task_poll W (TaskStart (DropRest lock data) addr) cx w =
     drop_rest W lock (write_all W data) addr cx w"
| "drop_task_poll W (TaskLock fut addr) cx w = drop_lock W fut addr cx w"
| "drop_task_poll W (TaskRest lock fut addr) cx w = drop_rest W lock fut addr cx w"
| "drop_task_poll W (TaskEof lock fut) cx w = drop_eof W lock fut cx w"
| "drop_task_poll W TaskDone cx w = (Ready (), TaskDone, w)"

end
