(* ===== verification/Write_Flush.thy ===== *)
theory Write_Flush
  imports Write_Model
begin

text \<open>
  The flush loop of \<open>src/write.rs\<close>: under the laws of the writer it always returns, never panics,
  and leaves on the wire exactly a longer prefix of the frame it is sending.
\<close>

section \<open>Counters\<close>

abbreviation count :: "counter \<Rightarrow> nat" where
  "count c \<equiv> unat (current_count c)"

definition counter_fits :: "counter \<Rightarrow> nat \<Rightarrow> bool" where
  "counter_fits c n \<longleftrightarrow> (case c of CounterU8 _ \<Rightarrow> n < 2 ^ 8 | CounterU32 _ \<Rightarrow> n < 2 ^ 32)"

definition same_width :: "counter \<Rightarrow> counter \<Rightarrow> bool" where
  "same_width c c' \<longleftrightarrow>
     (case c of CounterU8 _ \<Rightarrow> (\<exists>k. c' = CounterU8 k) | CounterU32 _ \<Rightarrow> (\<exists>k. c' = CounterU32 k))"

lemma same_width_refl [simp]: "same_width c c"
  by (cases c) (auto simp: same_width_def)

lemma same_width_trans: "same_width a b \<Longrightarrow> same_width b c \<Longrightarrow> same_width a c"
  by (cases a) (auto simp: same_width_def)

lemma same_width_fits: "same_width c c' \<Longrightarrow> counter_fits c' n \<longleftrightarrow> counter_fits c n"
  by (cases c) (auto simp: same_width_def counter_fits_def)

lemma unat_ucast_u8_u32 [simp]: "unat (ucast (k :: u8) :: u32) = unat k"
  using unat_byte_bound [of k] by (simp add: unat_ucast_mod)

lemma same_width_U32: "same_width (CounterU32 k) c \<Longrightarrow> c = CounterU32 (current_count c)"
  by (auto simp: same_width_def)

lemma same_width_U8: "same_width (CounterU8 k) c \<Longrightarrow> c = CounterU8 (counter_u8 c)"
  by (auto simp: same_width_def)

lemma counter_add_spec:
  assumes fits: "counter_fits c m" and le: "count c + n \<le> m"
  obtains c' where "counter_add c n = Done c'" and "count c' = count c + n" and "same_width c c'"
proof (cases c)
  case (CounterU8 k)
  with fits le have "unat k + n < 256"
    by (simp add: counter_fits_def)
  then have "counter_add c n = Done (CounterU8 (k + of_nat n))"
    and "unat (k + of_nat n) = unat k + n"
    by (simp_all add: CounterU8 unat_of_nat unat_word_ariths)
  then show ?thesis
    using CounterU8 that [of "CounterU8 (k + of_nat n)"] by (simp add: same_width_def)
next
  case (CounterU32 k)
  with fits le have "unat k + n < 2 ^ 32"
    by (simp add: counter_fits_def)
  then have "counter_add c n = Done (CounterU32 (k + of_nat n))"
    and "unat (k + of_nat n) = unat k + n"
    by (simp_all add: CounterU32 unat_of_nat unat_word_ariths)
  then show ?thesis
    using CounterU32 that [of "CounterU32 (k + of_nat n)"] by (simp add: same_width_def)
qed

section \<open>The flush loop\<close>

text \<open>
  What \<open>flush_buf\<close> leaves, for a packet whose frame is \<open>F\<close> and whose first byte went to the wire
  after \<open>base\<close>.
\<close>

definition flushed ::
  "('w \<Rightarrow> byte list) \<Rightarrow> ('w \<Rightarrow> 'g option) \<Rightarrow> byte list \<Rightarrow> byte list \<Rightarrow> packet_buffer \<Rightarrow> counter \<Rightarrow> 'w \<Rightarrow>
     unit io_result poll \<Rightarrow> packet_buffer \<Rightarrow> counter \<Rightarrow> 'w \<Rightarrow> bool" where
  "flushed wire holder base F b c w r b' c' w' \<longleftrightarrow>
     holder w' = holder w \<and> wire w' = base @ take (count c') F \<and>
     count c \<le> count c' \<and> count c' \<le> length F \<and> same_width c c' \<and>
     (if r = Ready (Inr ()) then count c' = length F \<and> b' = PacketBuffer_clear b
      else count c' < length F \<and> b' = b)"

lemma flush_buf_flushed:
  assumes laws: "write_laws W wire holder rest" and inv: "pb_inv b"
    and F: "F = frame (pb_socket_addr b) (payload b)"
  shows "wire w = base @ take (count c) F \<Longrightarrow> count c \<le> length F \<Longrightarrow> counter_fits c (length F) \<Longrightarrow>
    \<exists>r b' c' w'. flush_buf W cx b g c w = Some (Done r, b', c', w') \<and>
      flushed wire holder base F b c w r b' c' w'"
proof (induction "length F - count c" arbitrary: c w rule: less_induct)
  case less
  let ?bytes = "drop (count c) F"
  have bytes: "PacketBuffer_bytes_from b (current_count c) = Done ?bytes"
    using less.prems(2) F by (simp add: bytes_from_frame [OF inv])
  show ?case
  proof (cases "count c = length F")
    case True
    then have "flush_buf W cx b g c w = Some (Done (Ready (Inr ())), PacketBuffer_clear b, c, w)"
      using bytes by (subst flush_buf.simps) simp
    with True less.prems(1) show ?thesis by (simp add: flushed_def)
  next
    case False
    then have ne: "?bytes \<noteq> []" and lt: "count c < length F"
      using less.prems(2) by auto
    obtain r w1 where pw: "poll_write_w W g cx ?bytes w = (r, w1)"
      by (metis surj_pair)
    show ?thesis
    proof (cases "\<exists>n. r = Ready (Inr n) \<and> n \<noteq> 0")
      case True
      then obtain n where r: "r = Ready (Inr n)" and n: "n \<noteq> 0" by blast
      have le: "count c + n \<le> length F"
        using write_lawsD(2) [OF laws pw [unfolded r]] lt by simp
      obtain c1 where c1: "counter_add c n = Done c1" "count c1 = count c + n" "same_width c c1"
        using counter_add_spec [OF less.prems(3) le] .
      have "wire w1 = base @ take (count c1) F"
        using write_lawsD(3) [OF laws pw [unfolded r]] less.prems(1)
        by (simp add: c1(2) take_add)
      moreover have "length F - count c1 < length F - count c"
        using c1(2) n lt by simp
      ultimately obtain r' b' c' w' where
        eq: "flush_buf W cx b g c1 w1 = Some (Done r', b', c', w')"
        and post: "flushed wire holder base F b c1 w1 r' b' c' w'"
        using less.hyps [of c1 w1] le c1 less.prems(3) same_width_fits [OF c1(3)] by auto
      have "flush_buf W cx b g c w = Some (Done r', b', c', w')"
        using eq bytes ne pw r n c1(1) by (subst flush_buf.simps) simp
      moreover have "flushed wire holder base F b c w r' b' c' w'"
        using post c1 write_lawsD(1) [OF laws pw]
        by (auto simp: flushed_def intro: same_width_trans)
      ultimately show ?thesis by blast
    next
      case stop: False
      then have stops: "r = Pending \<or> (\<exists>e. r = Ready (Inl e)) \<or> r = Ready (Inr 0)"
        by (metis poll.exhaust sum.exhaust)
      then have "\<exists>r'. flush_buf W cx b g c w = Some (Done r', b, c, w1) \<and> r' \<noteq> Ready (Inr ())"
        using bytes ne pw by (elim disjE exE) (subst flush_buf.simps, simp)+
      moreover have "wire w1 = wire w"
        using stops pw by (elim disjE exE) (auto dest: write_lawsD(3-5) [OF laws])
      ultimately show ?thesis
        using less.prems(1) lt write_lawsD(1) [OF laws pw] by (auto simp: flushed_def)
    qed
  qed
qed

end
