(* ===== verification/Write_Poll.thy ===== *)
theory Write_Poll
  imports Write_Flush
begin

text \<open>
  \<open>poll_write\<close> and \<open>poll_flush\<close>: the invariant of an open connection, what each call leaves on the
  wire and in the packet buffer, and who holds the lock afterwards.
\<close>

section \<open>The invariant of an open connection\<close>

text \<open>
  A connection that is flushing holds the lock and has sent a proper prefix of the frame it is
  filling; nothing of an empty frame has been sent.
\<close>

definition ws_inv :: "('w \<Rightarrow> 'g option) \<Rightarrow> 'g write_state \<Rightarrow> packet_buffer \<Rightarrow> 'w \<Rightarrow> bool" where
  "ws_inv holder st b w \<longleftrightarrow> pb_inv b \<and>
     (case st of
        Buffering \<Rightarrow> True
      | Flushing g k \<Rightarrow> holder w = Some g \<and> unat k < 20 + length (payload b) \<and>
                         (k \<noteq> 0 \<longrightarrow> payload b \<noteq> []))"

definition in_flight :: "'g write_state \<Rightarrow> packet_buffer \<Rightarrow> byte list" where
  "in_flight st b =
     (case st of
        Buffering \<Rightarrow> []
      | Flushing g k \<Rightarrow> take (unat k) (frame (pb_socket_addr b) (payload b)))"

definition own :: "'g write_state \<Rightarrow> 'g option" where
  "own st = (case st of Buffering \<Rightarrow> None | Flushing g k \<Rightarrow> Some g)"

text \<open>
  A call of a connection that has the lock, or finds it free, leaves the lock with the connection
  exactly if it is flushing; a call that finds the lock taken by another leaves lock and wire alone.
\<close>

definition lock_view ::
  "('w \<Rightarrow> byte list) \<Rightarrow> ('w \<Rightarrow> 'g option) \<Rightarrow> 'g option \<Rightarrow> 'w \<Rightarrow> 'g option \<Rightarrow> 'w \<Rightarrow> bool" where
  "lock_view wire holder o1 w o2 w' \<longleftrightarrow>
     (holder w = o1 \<longrightarrow> holder w' = o2) \<and>
     (holder w \<noteq> o1 \<longrightarrow> o2 = None \<and> holder w' = holder w \<and> wire w' = wire w)"

abbreviation (input) tagged :: "socket_addr \<Rightarrow> byte list list \<Rightarrow> (socket_addr \<times> byte list) list" where
  "tagged a fs \<equiv> map (Pair a) fs"

definition proper_frames :: "byte list list \<Rightarrow> bool" where
  "proper_frames fs \<longleftrightarrow> (\<forall>p \<in> set fs. p \<noteq> [] \<and> length p \<le> 65535)"

lemma proper_frames_simps [simp]:
  "proper_frames []"
  "proper_frames (p # fs) \<longleftrightarrow> p \<noteq> [] \<and> length p \<le> 65535 \<and> proper_frames fs"
  "proper_frames (fs @ gs) \<longleftrightarrow> proper_frames fs \<and> proper_frames gs"
  by (auto simp: proper_frames_def)

lemma in_flight_simps [simp]:
  "in_flight Buffering b = []"
  "in_flight (Flushing g k) b = take (unat k) (frame (pb_socket_addr b) (payload b))"
  by (simp_all add: in_flight_def)

lemma own_simps [simp]: "own Buffering = None" "own (Flushing g k) = Some g"
  by (simp_all add: own_def)

lemma ws_inv_simps [simp]:
  "ws_inv holder Buffering b w \<longleftrightarrow> pb_inv b"
  "ws_inv holder (Flushing g k) b w \<longleftrightarrow> pb_inv b \<and> holder w = Some g \<and>
     unat k < 20 + length (payload b) \<and> (k \<noteq> 0 \<longrightarrow> payload b \<noteq> [])"
  by (simp_all add: ws_inv_def)

lemma lock_view_refl [simp]: "lock_view wire holder o1 w o1 w \<longleftrightarrow> holder w = o1 \<or> o1 = None"
  by (auto simp: lock_view_def)

lemma lock_view_trans:
  assumes "lock_view wire holder o1 u o2 v" and "lock_view wire holder o2 v o3 w"
    and "o1 = None \<or> holder u = o1"
  shows "lock_view wire holder o1 u o3 w"
  using assms by (auto simp: lock_view_def)

section \<open>Taking the lock and flushing\<close>

lemma poll_locked_Buffering:
  assumes laws: "lock_laws W m wire holder" and m: "pm_mutex lk = m"
    and eq: "poll_locked W Buffering lk cx w = (r, st', lk', w')"
  shows "pm_mutex lk' = m"
    and "wire w' = wire w"
    and "r = Pending \<Longrightarrow> st' = Buffering \<and> holder w' = holder w \<and> pm_fut lk' \<noteq> None"
    and "r = Ready (g, k) \<Longrightarrow> k = 0 \<and> st' = Flushing g 0 \<and> holder w = None \<and> holder w' = Some g"
proof -
  obtain q lk1 w1 where p: "PollMutex_poll_lock W lk cx w = (q, lk1, w1)"
    by (metis prod_cases3)
  note spec = poll_lock_spec [OF laws m p]
  have lk1: "lk' = lk1" "w' = w1"
    using eq p by (auto simp: poll_locked_def split: poll.splits)
  with spec(1) show "pm_mutex lk' = m" by simp
  show "wire w' = wire w"
    using spec(2,3) lk1 by (cases q) (auto simp: quiet_def acquires_def)
  show "st' = Buffering \<and> holder w' = holder w \<and> pm_fut lk' \<noteq> None" if "r = Pending"
    using that spec(3) lk1 eq p by (auto simp: poll_locked_def quiet_def split: poll.splits)
  show "k = 0 \<and> st' = Flushing g 0 \<and> holder w = None \<and> holder w' = Some g" if "r = Ready (g, k)"
    using that spec(2) lk1 eq p by (auto simp: poll_locked_def acquires_def split: poll.splits)
qed

lemma poll_locked_Flushing [simp]:
  "poll_locked W (Flushing g k) lk cx w = (Ready (g, k), Flushing g k, lk, w)"
  by (simp add: poll_locked_def)

text \<open>The flush of a whole packet, in the terms of the connection.\<close>

definition flush_outcome ::
  "('w \<Rightarrow> byte list) \<Rightarrow> ('w \<Rightarrow> 'g option) \<Rightarrow> byte list \<Rightarrow> packet_buffer \<Rightarrow> 'g \<Rightarrow>
     unit io_result poll \<Rightarrow> packet_buffer \<Rightarrow> u32 \<Rightarrow> 'w \<Rightarrow> bool" where
  "flush_outcome wire holder base b g r b' k' w' \<longleftrightarrow>
     (let F = frame (pb_socket_addr b) (payload b)
      in holder w' = Some g \<and> wire w' = base @ take (unat k') F \<and>
         (if r = Ready (Inr ()) then b' = PacketBuffer_clear b \<and> unat k' = length F
          else b' = b \<and> unat k' < length F))"

lemma flush_buf_U32:
  assumes laws: "write_laws W wire holder rest" and inv: "pb_inv b" and g: "holder w = Some g"
    and wire: "wire w = base @ take (unat k) (frame (pb_socket_addr b) (payload b))"
    and k: "unat k \<le> 20 + length (payload b)"
  obtains r b' k' w' where "flush_buf W cx b g (CounterU32 k) w = Some (Done r, b', CounterU32 k', w')"
    and "flush_outcome wire holder base b g r b' k' w'"
proof -
  let ?F = "frame (pb_socket_addr b) (payload b)"
  have "length ?F < 2 ^ 32"
    using length_payload_bound [OF inv] by simp
  then obtain r b' c' w' where eq: "flush_buf W cx b g (CounterU32 k) w = Some (Done r, b', c', w')"
    and post: "flushed wire holder base ?F b (CounterU32 k) w r b' c' w'"
    using flush_buf_flushed [OF laws inv refl, of w base "CounterU32 k" cx g] wire k
    by (auto simp: counter_fits_def)
  then obtain k' where "c' = CounterU32 k'"
    by (auto simp: flushed_def dest: same_width_U32)
  with eq post g show ?thesis
    by (intro that [of r b' k' w']) (auto simp: flushed_def flush_outcome_def)
qed

lemma flush_macro_spec:
  assumes locks: "lock_laws W m wire holder" and laws: "write_laws W wire holder rest"
    and inv: "pb_inv b" and g: "holder w = Some g"
    and wire: "wire w = base @ take (unat k) (frame (pb_socket_addr b) (payload b))"
    and k: "unat k \<le> 20 + length (payload b)"
  obtains (flushed) w' where "flush_macro W cx b g k wrote w = Some (Inr (), Buffering, PacketBuffer_clear b, w')"
      and "holder w' = None" and "wire w' = base @ frame (pb_socket_addr b) (payload b)"
  | (failed) e j w' where "flush_macro W cx b g k wrote w = Some (Inl (Done (Ready (Inl e))), Buffering, b, w')"
      and "holder w' = None" and "wire w' = base @ take j (frame (pb_socket_addr b) (payload b))"
  | (blocked) k' w' where "flush_macro W cx b g k wrote w =
        Some (Inl (Done (if wrote \<noteq> 0 then Ready (Inr wrote) else Pending)), Flushing g k', b, w')"
      and "holder w' = Some g" and "wire w' = base @ take (unat k') (frame (pb_socket_addr b) (payload b))"
      and "unat k' < 20 + length (payload b)"
proof -
  obtain r b' k' w' where eq: "flush_buf W cx b g (CounterU32 k) w = Some (Done r, b', CounterU32 k', w')"
    and out: "flush_outcome wire holder base b g r b' k' w'"
    using flush_buf_U32 [OF laws inv g wire k] .
  have own: "holder w' = Some g"
    using out by (simp add: flush_outcome_def Let_def)
  have dropped: "holder (drop_guard W g w') = None" "wire (drop_guard W g w') = wire w'"
    using lock_lawsD(8,9) [OF locks own] by auto
  show ?thesis
  proof (cases r)
    case Pending
    with eq out own show ?thesis
      by (intro blocked [of k' w']) (auto simp: flush_macro_def flush_outcome_def Let_def)
  next
    case (Ready res)
    then show ?thesis
    proof (cases res)
      case (Inl e)
      with Ready eq out dropped show ?thesis
        by (intro failed [of e "drop_guard W g w'" "unat k'"])
          (auto simp: flush_macro_def flush_outcome_def Let_def)
    next
      case (Inr u)
      with Ready eq out dropped show ?thesis
        by (intro flushed [of "drop_guard W g w'"])
          (auto simp: flush_macro_def flush_outcome_def Let_def)
    qed
  qed
qed

section \<open>The loop of \<open>poll_write\<close>\<close>

text \<open>
  What a call leaves that was given \<open>buf\<close> after \<open>wrote\<close> bytes had been accepted: \<open>n\<close> more bytes
  were accepted, the frames \<open>fs\<close> were completed on the wire, and payloads and buffer together are
  the old buffer followed by the accepted bytes.
\<close>

definition poll_write_effect ::
  "('w \<Rightarrow> byte list) \<Rightarrow> ('w \<Rightarrow> 'g option) \<Rightarrow> nat \<Rightarrow> socket_addr \<Rightarrow> byte list \<Rightarrow> nat \<Rightarrow> byte list \<Rightarrow>
     'g write_state \<Rightarrow> packet_buffer \<Rightarrow> 'w \<Rightarrow> byte list list \<Rightarrow> nat \<Rightarrow>
     nat io_result poll \<Rightarrow> 'g write_state \<Rightarrow> 'f poll_mutex \<Rightarrow> packet_buffer \<Rightarrow> 'w \<Rightarrow> bool" where
  "poll_write_effect wire holder m a base wrote buf st b w fs n r st' lk' b' w' \<longleftrightarrow>
     n \<le> length buf \<and> concat fs @ payload b' = payload b @ take n buf \<and> proper_frames fs \<and>
     pb_socket_addr b' = a \<and> pm_mutex lk' = m \<and> ws_inv holder st' b' w' \<and>
     lock_view wire holder (own st) w (own st') w' \<and>
     (case r of
        Ready (Inl e) \<Rightarrow> st' = Buffering \<and>
          (\<exists>j. wire w' = base @ frames (tagged a fs) @ take j (frame a (payload b')))
      | Ready (Inr k) \<Rightarrow> k = wrote + n \<and> (buf \<noteq> [] \<longrightarrow> 0 < k) \<and>
          wire w' = base @ frames (tagged a fs) @ in_flight st' b'
      | Pending \<Rightarrow> (wrote + n = 0 \<or> st' = Buffering \<and> PacketBuffer_is_full b' \<and> pm_fut lk' \<noteq> None) \<and>
          wire w' = base @ frames (tagged a fs) @ in_flight st' b')"

lemma poll_write_effect_step:
  assumes later: "poll_write_effect wire holder m a (base @ frames (tagged a fs1)) (wrote + n1)
      (drop n1 buf) st1 b1 w1 fs n r st' lk' b' w'"
    and step: "n1 \<le> length buf" "concat fs1 @ payload b1 = payload b @ take n1 buf" "proper_frames fs1"
      "lock_view wire holder (own st) w (own st1) w1" "own st = None \<or> holder w = own st"
  shows "poll_write_effect wire holder m a base wrote buf st b w (fs1 @ fs) (n1 + n) r st' lk' b' w'"
proof -
  have "concat (fs1 @ fs) @ payload b' = payload b @ take (n1 + n) buf"
  proof -
    have "concat (fs1 @ fs) @ payload b' = (concat fs1 @ payload b1) @ take n (drop n1 buf)"
      using later by (simp add: poll_write_effect_def)
    then show ?thesis using step(2) by (simp add: take_add)
  qed
  moreover have "lock_view wire holder (own st) w (own st') w'"
    using step(4,5) later lock_view_trans by (fastforce simp: poll_write_effect_def)
  ultimately show ?thesis
    using later step(1,3)
    by (auto simp: poll_write_effect_def add.assoc split: poll.splits sum.splits)
qed

lemma push_progress:
  assumes inv: "pb_inv b" and buf: "buf \<noteq> []" and room: "\<not> PacketBuffer_must_flush_for b k"
  obtains n b' where "PacketBuffer_push b buf k = Done (n, b')" and "0 < unat n"
    and "unat n \<le> length buf" and "pb_inv b'" and "payload b' = payload b @ take (unat n) buf"
    and "pb_socket_addr b' = pb_socket_addr b" and "unat n \<le> push_room (payload b) k"
proof -
  obtain n b' where *: "PacketBuffer_push b buf k = Done (n, b')"
    "unat n = min (length buf) (push_room (payload b) k)" "pb_inv b'"
    "payload b' = payload b @ take (unat n) buf" "pb_socket_addr b' = pb_socket_addr b"
    using push_spec [OF inv] .
  moreover have "0 < push_room (payload b) k"
    using room must_flush_for_room [OF inv] by simp
  ultimately show ?thesis
    using buf by (intro that [of n b']) auto
qed

lemma must_flush_for_0: "pb_inv b \<Longrightarrow> PacketBuffer_must_flush_for b 0 \<longleftrightarrow> PacketBuffer_is_full b"
  by (simp add: PacketBuffer_must_flush_for_def LEN_FIELD_CUTOFF_def cmp_word_def)

text \<open>The optional push of a flushing connection keeps the bytes it has sent.\<close>

lemma push_if_room:
  assumes inv: "pb_inv b" and buf: "buf \<noteq> []"
  obtains n b' where
    "(if PacketBuffer_must_flush_for b k then Done (0, b) else PacketBuffer_push b buf k) = Done (n, b')"
    and "unat n \<le> length buf" and "pb_inv b'" and "payload b' = payload b @ take (unat n) buf"
    and "pb_socket_addr b' = pb_socket_addr b" and "k = 0 \<longrightarrow> payload b' \<noteq> []"
    and "take (unat k) (frame (pb_socket_addr b) (payload b')) =
         take (unat k) (frame (pb_socket_addr b) (payload b))"
proof (cases "PacketBuffer_must_flush_for b k")
  case True
  moreover have "payload b \<noteq> []" if "k = 0"
    using True that must_flush_for_0 [OF inv] is_full_payload [OF inv] by auto
  ultimately show ?thesis
    using inv by (intro that [of 0 b]) auto
next
  case False
  obtain n b' where *: "PacketBuffer_push b buf k = Done (n, b')" "0 < unat n" "unat n \<le> length buf"
    "pb_inv b'" "payload b' = payload b @ take (unat n) buf" "pb_socket_addr b' = pb_socket_addr b"
    "unat n \<le> push_room (payload b) k"
    using push_progress [OF inv buf False] .
  have "take (unat k) (frame (pb_socket_addr b) (payload b @ take (unat n) buf)) =
      take (unat k) (frame (pb_socket_addr b) (payload b))"
    using * by (intro frame_extend_prefix length_payload_bound [OF inv]) auto
  with False * show ?thesis
    by (intro that [of n b']) auto
qed

text \<open>The loop returns, and with that effect.\<close>

definition loop_ok ::
  "('w, 'g, 'f, 'a) writer_api \<Rightarrow> ('w \<Rightarrow> byte list) \<Rightarrow> ('w \<Rightarrow> 'g option) \<Rightarrow> nat \<Rightarrow> waker \<Rightarrow> byte list \<Rightarrow>
     'g write_state \<Rightarrow> 'f poll_mutex \<Rightarrow> packet_buffer \<Rightarrow> byte list \<Rightarrow> nat \<Rightarrow> 'w \<Rightarrow> bool" where
  "loop_ok W wire holder m cx base st lk b buf wrote w \<longleftrightarrow>
     (\<exists>fs n r st' lk' b' w'.
        poll_write_loop W cx st lk b buf wrote w = Some (Done r, st', lk', b', w') \<and>
        poll_write_effect wire holder m (pb_socket_addr b) base wrote buf st b w fs n r st' lk' b' w')"

lemma loop_ok_step:
  assumes later: "loop_ok W wire holder m cx (base @ frames (tagged (pb_socket_addr b) fs1)) st1 lk1 b1
      (drop n1 buf) (wrote + n1) w1"
    and eq: "poll_write_loop W cx st lk b buf wrote w =
      poll_write_loop W cx st1 lk1 b1 (drop n1 buf) (wrote + n1) w1"
    and a: "pb_socket_addr b1 = pb_socket_addr b"
    and step: "n1 \<le> length buf" "concat fs1 @ payload b1 = payload b @ take n1 buf" "proper_frames fs1"
      "lock_view wire holder (own st) w (own st1) w1" "own st = None \<or> holder w = own st"
  shows "loop_ok W wire holder m cx base st lk b buf wrote w"
  using later poll_write_effect_step [OF _ step] unfolding loop_ok_def eq a by blast

lemma loop_flushing:
  assumes locks: "lock_laws W m wire holder" and laws: "write_laws W wire holder rest"
    and m: "pm_mutex lk = m" and buf: "buf \<noteq> []"
    and inv: "ws_inv holder (Flushing g k) b w"
    and wire: "wire w = base @ in_flight (Flushing g k) b"
    and IH: "\<And>base b1 n w1. pb_inv b1 \<Longrightarrow> wire w1 = base \<Longrightarrow>
      loop_ok W wire holder m cx base Buffering lk b1 (drop n buf) (wrote + n) w1"
  shows "loop_ok W wire holder m cx base (Flushing g k) lk b buf wrote w"
proof -
  from inv have pb: "pb_inv b" and g: "holder w = Some g" and k: "unat k < 20 + length (payload b)"
    and k0: "k \<noteq> 0 \<longrightarrow> payload b \<noteq> []"
    by simp_all
  let ?a = "pb_socket_addr b"
  obtain n b1 where push: "(if PacketBuffer_must_flush_for b k then Done (0, b)
        else PacketBuffer_push b buf k) = Done (n, b1)"
    and n: "unat n \<le> length buf" and b1: "pb_inv b1" "payload b1 = payload b @ take (unat n) buf"
      "pb_socket_addr b1 = ?a" "k = 0 \<longrightarrow> payload b1 \<noteq> []"
    and sent: "take (unat k) (frame ?a (payload b1)) = take (unat k) (frame ?a (payload b))"
    using push_if_room [OF pb buf, of k] .
  have ne: "payload b1 \<noteq> []" using b1(2,4) k0 by (cases "k = 0") auto
  have wire1: "wire w = base @ take (unat k) (frame (pb_socket_addr b1) (payload b1))"
    and k1: "unat k \<le> 20 + length (payload b1)"
    using wire sent k b1 by auto
  show ?thesis
  proof (cases rule: flush_macro_spec [OF locks laws b1(1) g wire1 k1, where cx = cx and wrote = "wrote + unat n",
      case_names flushed failed blocked])
    case (flushed w')
    have eq: "poll_write_loop W cx (Flushing g k) lk b buf wrote w =
        poll_write_loop W cx Buffering lk (PacketBuffer_clear b1) (drop (unat n) buf) (wrote + unat n) w'"
      using buf push flushed(1) by (subst poll_write_loop.simps) simp
    have "loop_ok W wire holder m cx (base @ frames (tagged ?a [payload b1])) Buffering lk
        (PacketBuffer_clear b1) (drop (unat n) buf) (wrote + unat n) w'"
      by (rule IH) (use flushed(3) b1(3) in auto)
    from this eq show ?thesis
      by (rule loop_ok_step)
        (use b1 n ne g flushed(2) length_payload_bound [OF b1(1)] in \<open>auto simp: lock_view_def\<close>)
  next
    case (failed e j w')
    have "poll_write_loop W cx (Flushing g k) lk b buf wrote w =
        Some (Done (Ready (Inl e)), Buffering, lk, b1, w')"
      using buf push failed(1) by (subst poll_write_loop.simps) simp
    moreover have "poll_write_effect wire holder m ?a base wrote buf (Flushing g k) b w [] (unat n)
        (Ready (Inl e)) Buffering lk b1 w'"
      using failed(2,3) b1 n m g by (auto simp: poll_write_effect_def lock_view_def)
    ultimately show ?thesis unfolding loop_ok_def by blast
  next
    case (blocked k' w')
    let ?r = "if wrote + unat n \<noteq> 0 then Ready (Inr (wrote + unat n)) else Pending"
    have "poll_write_loop W cx (Flushing g k) lk b buf wrote w =
        Some (Done ?r, Flushing g k', lk, b1, w')"
      using buf push blocked(1) by (subst poll_write_loop.simps) simp
    moreover have "poll_write_effect wire holder m ?a base wrote buf (Flushing g k) b w [] (unat n)
        ?r (Flushing g k') lk b1 w'"
      using blocked(2-4) b1 n m g ne by (auto simp: poll_write_effect_def lock_view_def)
    ultimately show ?thesis unfolding loop_ok_def by blast
  qed
qed

lemma loop_ok_Nil:
  assumes "ws_inv holder st b w" and "wire w = base @ in_flight st b" and "pm_mutex lk = m"
  shows "loop_ok W wire holder m cx base st lk b [] wrote w"
proof -
  have "poll_write_loop W cx st lk b [] wrote w = Some (Done (Ready (Inr wrote)), st, lk, b, w)"
    by (subst poll_write_loop.simps) simp
  moreover have "poll_write_effect wire holder m (pb_socket_addr b) base wrote [] st b w [] 0
      (Ready (Inr wrote)) st lk b w"
    using assms by (cases st) (auto simp: poll_write_effect_def)
  ultimately show ?thesis unfolding loop_ok_def by blast
qed

lemma loop_full:
  assumes locks: "lock_laws W m wire holder" and laws: "write_laws W wire holder rest"
    and m: "pm_mutex lk = m" and buf: "buf \<noteq> []" and pb: "pb_inv b"
    and full: "PacketBuffer_is_full b"
    and IH: "\<And>lk1 b1 n w1. pb_inv b1 \<Longrightarrow> pm_mutex lk1 = m \<Longrightarrow> 0 < n \<Longrightarrow> n \<le> length buf \<Longrightarrow>
      loop_ok W wire holder m cx (wire w1) Buffering lk1 b1 (drop n buf) (wrote + n) w1"
  shows "loop_ok W wire holder m cx (wire w) Buffering lk b buf wrote w"
proof -
  let ?a = "pb_socket_addr b"
  have ne: "payload b \<noteq> []" using full is_full_payload [OF pb] by auto
  obtain r st1 lk1 w1 where lock: "poll_locked W Buffering lk cx w = (r, st1, lk1, w1)"
    by (metis prod_cases4)
  note spec = poll_locked_Buffering [OF locks m lock]
  show ?thesis
  proof (cases r)
    case Pending
    then have "poll_write_loop W cx Buffering lk b buf wrote w = Some (Done Pending, Buffering, lk1, b, w1)"
      using buf full lock spec(3) by (subst poll_write_loop.simps) simp
    moreover have "poll_write_effect wire holder m ?a (wire w) wrote buf Buffering b w [] 0
        Pending Buffering lk1 b w1"
      using spec(1-3) Pending full pb by (auto simp: poll_write_effect_def lock_view_def)
    ultimately show ?thesis unfolding loop_ok_def by blast
  next
    case (Ready gk)
    then obtain g where gk: "r = Ready (g, 0)" "st1 = Flushing g 0" "holder w = None" "holder w1 = Some g"
      using spec(4) by (cases gk) auto
    have wire1: "wire w1 = wire w @ take (unat (0 :: u32)) (frame ?a (payload b))"
      and k1: "unat (0 :: u32) \<le> 20 + length (payload b)"
      using spec(2) by auto
    show ?thesis
    proof (cases rule: flush_macro_spec [OF locks laws pb gk(4) wire1 k1, where cx = cx and wrote = wrote,
        case_names flushed failed blocked])
      case (flushed w')
      have room: "\<not> PacketBuffer_must_flush_for (PacketBuffer_clear b) 0"
        by (simp add: must_flush_for_0 is_full_payload)
      obtain n b2 where push: "PacketBuffer_push (PacketBuffer_clear b) buf 0 = Done (n, b2)"
        "0 < unat n" "unat n \<le> length buf" "pb_inv b2"
        "payload b2 = payload (PacketBuffer_clear b) @ take (unat n) buf"
        "pb_socket_addr b2 = pb_socket_addr (PacketBuffer_clear b)"
        using push_progress [OF clear_spec(1) buf room] .
      have eq: "poll_write_loop W cx Buffering lk b buf wrote w =
          poll_write_loop W cx Buffering lk1 b2 (drop (unat n) buf) (wrote + unat n) w'"
        using buf full lock gk flushed(1) push(1) by (subst poll_write_loop.simps) simp
      have "loop_ok W wire holder m cx (wire w @ frames (tagged ?a [payload b])) Buffering lk1 b2
          (drop (unat n) buf) (wrote + unat n) w'"
        using IH [OF push(4) spec(1) push(2,3), of w'] flushed(3) by simp
      from this eq show ?thesis
        by (rule loop_ok_step)
          (use push ne gk flushed(2) length_payload_bound [OF pb] in \<open>auto simp: lock_view_def\<close>)
    next
      case (failed e j w')
      then have "poll_write_loop W cx Buffering lk b buf wrote w =
          Some (Done (Ready (Inl e)), Buffering, lk1, b, w')"
        using buf full lock gk by (subst poll_write_loop.simps) simp
      moreover have "poll_write_effect wire holder m ?a (wire w) wrote buf Buffering b w [] 0
          (Ready (Inl e)) Buffering lk1 b w'"
        using failed(2,3) spec(1) gk pb by (auto simp: poll_write_effect_def lock_view_def)
      ultimately show ?thesis unfolding loop_ok_def by blast
    next
      case (blocked k' w')
      let ?r = "if wrote \<noteq> 0 then Ready (Inr wrote) else Pending"
      have "poll_write_loop W cx Buffering lk b buf wrote w = Some (Done ?r, Flushing g k', lk1, b, w')"
        using buf full lock gk blocked(1) by (subst poll_write_loop.simps) simp
      moreover have "poll_write_effect wire holder m ?a (wire w) wrote buf Buffering b w [] 0
          ?r (Flushing g k') lk1 b w'"
        using blocked(2-4) spec(1) gk pb ne by (auto simp: poll_write_effect_def lock_view_def)
      ultimately show ?thesis unfolding loop_ok_def by blast
    qed
  qed
qed

lemma loop_buffering:
  assumes locks: "lock_laws W m wire holder" and laws: "write_laws W wire holder rest"
  shows "pm_mutex lk = m \<Longrightarrow> pb_inv b \<Longrightarrow> loop_ok W wire holder m cx (wire w) Buffering lk b buf wrote w"
proof (induction "length buf" arbitrary: buf lk b wrote w rule: less_induct)
  case less
  have IH: "loop_ok W wire holder m cx (wire w1) Buffering lk1 b1 (drop n buf) (wrote + n) w1"
    if "pb_inv b1" "pm_mutex lk1 = m" "0 < n" "n \<le> length buf" for lk1 b1 n w1
    using less.hyps [of "drop n buf"] that by simp
  consider "buf = []" | "buf \<noteq> []" "PacketBuffer_is_full b" | "buf \<noteq> []" "\<not> PacketBuffer_is_full b"
    by blast
  then show ?case
  proof cases
    case 1
    with less.prems show ?thesis
      by (auto intro: loop_ok_Nil)
  next
    case 2
    from loop_full [OF locks laws less.prems(1) 2(1) less.prems(2) 2(2) IH] show ?thesis .
  next
    case 3
    obtain n b1 where push: "PacketBuffer_push b buf 0 = Done (n, b1)" "0 < unat n" "unat n \<le> length buf"
      "pb_inv b1" "payload b1 = payload b @ take (unat n) buf" "pb_socket_addr b1 = pb_socket_addr b"
      using push_progress [OF less.prems(2) 3(1), of 0] must_flush_for_0 [OF less.prems(2)] 3(2)
      by metis
    have eq: "poll_write_loop W cx Buffering lk b buf wrote w =
        poll_write_loop W cx Buffering lk b1 (drop (unat n) buf) (wrote + unat n) w"
      using 3 push(1) by (subst poll_write_loop.simps) simp
    have "loop_ok W wire holder m cx (wire w @ frames (tagged (pb_socket_addr b) [])) Buffering lk b1
        (drop (unat n) buf) (wrote + unat n) w"
      using IH [OF push(4) less.prems(1) push(2,3)] by simp
    from this eq show ?thesis
      by (rule loop_ok_step) (use push in auto)
  qed
qed

text \<open>The loop on any open connection.\<close>

lemma poll_write_loop_ok:
  assumes locks: "lock_laws W m wire holder" and laws: "write_laws W wire holder rest"
    and m: "pm_mutex lk = m" and inv: "ws_inv holder st b w" and wire: "wire w = base @ in_flight st b"
  shows "loop_ok W wire holder m cx base st lk b buf wrote w"
proof (cases st)
  case Buffering
  with wire have "base = wire w" by simp
  with Buffering show ?thesis
    using loop_buffering [OF locks laws m] inv by simp
next
  case (Flushing g k)
  show ?thesis
  proof (cases "buf = []")
    case True
    with assms show ?thesis by (auto intro: loop_ok_Nil)
  next
    case False
    with Flushing show ?thesis
      using loop_flushing [OF locks laws m False] loop_buffering [OF locks laws m] inv wire by blast
  qed
qed

section \<open>\<open>poll_flush\<close>\<close>

text \<open>
  The same account for a flush: nothing is accepted, the frame in the buffer may be completed, and a
  flush that is ready has sent everything and released the lock.
\<close>

definition poll_flush_effect ::
  "('w \<Rightarrow> byte list) \<Rightarrow> ('w \<Rightarrow> 'g option) \<Rightarrow> nat \<Rightarrow> socket_addr \<Rightarrow> byte list \<Rightarrow>
     'g write_state \<Rightarrow> packet_buffer \<Rightarrow> 'w \<Rightarrow> byte list list \<Rightarrow>
     unit io_result poll \<Rightarrow> 'g write_state \<Rightarrow> 'f poll_mutex \<Rightarrow> packet_buffer \<Rightarrow> 'w \<Rightarrow> bool" where
  "poll_flush_effect wire holder m a base st b w fs r st' lk' b' w' \<longleftrightarrow>
     concat fs @ payload b' = payload b \<and> proper_frames fs \<and>
     pb_socket_addr b' = a \<and> pm_mutex lk' = m \<and> ws_inv holder st' b' w' \<and>
     lock_view wire holder (own st) w (own st') w' \<and>
     (case r of
        Ready (Inl e) \<Rightarrow> st' = Buffering \<and>
          (\<exists>j. wire w' = base @ frames (tagged a fs) @ take j (frame a (payload b')))
      | Ready (Inr u) \<Rightarrow> st' = Buffering \<and> payload b' = [] \<and> wire w' = base @ frames (tagged a fs)
      | Pending \<Rightarrow> wire w' = base @ frames (tagged a fs) @ in_flight st' b')"

lemma flush_writer_Flushing:
  assumes locks: "lock_laws W m wire holder" and laws: "write_laws W wire holder rest"
    and ready: "flush_always_ready W" and g: "holder w = Some g"
  obtains res w' where "flush_writer W cx (Flushing g k) lk b w = (Done (Ready res), Buffering, lk, b, w')"
    and "holder w' = None" and "wire w' = wire w"
proof -
  obtain q w1 where q: "poll_flush_w W g cx w = (q, w1)"
    by (metis surj_pair)
  with ready obtain res where res: "q = Ready res"
    by (metis flush_always_ready_def fst_conv poll.exhaust)
  have "quiet wire holder w w1"
    using write_lawsD(6) [OF laws q] .
  with g have g1: "holder w1 = Some g" and wire1: "wire w1 = wire w"
    by (simp_all add: quiet_def)
  show ?thesis
    by (rule that [of res "drop_guard W g w1"])
      (use q res wire1 lock_lawsD(8,9) [OF locks g1] in \<open>auto simp: flush_writer_def\<close>)
qed

lemma poll_flush_empty:
  assumes locks: "lock_laws W m wire holder" and laws: "write_laws W wire holder rest"
    and ready: "flush_always_ready W" and m: "pm_mutex lk = m" and inv: "ws_inv holder st b w"
    and wire: "wire w = base @ in_flight st b" and empty: "payload b = []"
  shows "\<exists>r st' lk' b' w'. flush_writer W cx st lk b w = (Done r, st', lk', b', w') \<and>
    poll_flush_effect wire holder m (pb_socket_addr b) base st b w [] r st' lk' b' w'"
proof (cases st)
  case (Flushing g k)
  with inv have g: "holder w = Some g" and "k = 0"
    using empty by auto
  with wire Flushing have base: "wire w = base" by simp
  obtain res w' where "flush_writer W cx (Flushing g k) lk b w = (Done (Ready res), Buffering, lk, b, w')"
    "holder w' = None" "wire w' = wire w"
    using flush_writer_Flushing [OF locks laws ready g] .
  with Flushing inv base empty m g show ?thesis
    by (auto simp: poll_flush_effect_def lock_view_def split: sum.splits intro!: exI [of _ 0])
next
  case Buffering
  obtain r st1 lk1 w1 where lock: "poll_locked W Buffering lk cx w = (r, st1, lk1, w1)"
    by (metis prod_cases4)
  note spec = poll_locked_Buffering [OF locks m lock]
  show ?thesis
  proof (cases r)
    case Pending
    with lock have "flush_writer W cx st lk b w = (Done Pending, st1, lk1, b, w1)"
      by (simp add: flush_writer_def Buffering)
    with spec(1-3) Pending Buffering wire inv empty show ?thesis
      by (auto simp: poll_flush_effect_def lock_view_def)
  next
    case (Ready gk)
    then obtain g where g: "r = Ready (g, 0)" "st1 = Flushing g 0" "holder w = None" "holder w1 = Some g"
      using spec(4) by (cases gk) auto
    have "flush_writer W cx st lk b w = flush_writer W cx (Flushing g 0) lk1 b w1"
      using lock g by (simp add: flush_writer_def Buffering)
    moreover obtain res w' where
      "flush_writer W cx (Flushing g 0) lk1 b w1 = (Done (Ready res), Buffering, lk1, b, w')"
      "holder w' = None" "wire w' = wire w1"
      using flush_writer_Flushing [OF locks laws ready g(4)] .
    ultimately show ?thesis
      using g spec(1,2) Buffering wire inv empty
      by (auto simp: poll_flush_effect_def lock_view_def split: sum.splits intro!: exI [of _ 0])
  qed
qed

lemma poll_flush_locked:
  assumes locks: "lock_laws W m wire holder" and laws: "write_laws W wire holder rest"
    and ready: "flush_always_ready W" and m: "pm_mutex lk = m"
    and inv: "ws_inv holder (Flushing g k) b w"
    and wire: "wire w = base @ in_flight (Flushing g k) b" and ne: "payload b \<noteq> []"
  shows "\<exists>fs r st' lk' b' w'. poll_flush_body W cx (Flushing g k) lk b w = Some (Done r, st', lk', b', w') \<and>
    poll_flush_effect wire holder m (pb_socket_addr b) base (Flushing g k) b w fs r st' lk' b' w'"
proof -
  let ?a = "pb_socket_addr b"
  from inv have pb: "pb_inv b" and g: "holder w = Some g" and k: "unat k \<le> 20 + length (payload b)"
    by simp_all
  have not_empty: "\<not> PacketBuffer_is_empty b" using ne is_empty_payload [OF pb] by simp
  obtain r b1 k1 w1 where fl: "flush_buf W cx b g (CounterU32 k) w = Some (Done r, b1, CounterU32 k1, w1)"
    and out: "flush_outcome wire holder base b g r b1 k1 w1"
    using flush_buf_U32 [OF laws pb g wire [unfolded in_flight_simps] k] .
  have g1: "holder w1 = Some g"
    using out by (simp add: flush_outcome_def Let_def)
  note dropped = lock_lawsD(8,9) [OF locks g1]
  consider "r = Pending" | e where "r = Ready (Inl e)" | "r = Ready (Inr ())"
    by (metis (full_types) poll.exhaust sum.exhaust old.unit.exhaust)
  then show ?thesis
  proof cases
    case 1
    then have "poll_flush_body W cx (Flushing g k) lk b w = Some (Done Pending, Flushing g k1, lk, b, w1)"
      using fl out not_empty by (simp add: poll_flush_body_def flush_outcome_def Let_def)
    moreover have "poll_flush_effect wire holder m ?a base (Flushing g k) b w [] Pending (Flushing g k1) lk b w1"
      using 1 out pb g g1 m ne by (auto simp: poll_flush_effect_def flush_outcome_def Let_def lock_view_def)
    ultimately show ?thesis by blast
  next
    case 2
    then have "poll_flush_body W cx (Flushing g k) lk b w =
        Some (Done (Ready (Inl e)), Buffering, lk, b, drop_guard W g w1)"
      using fl out not_empty by (simp add: poll_flush_body_def flush_outcome_def Let_def)
    moreover have "poll_flush_effect wire holder m ?a base (Flushing g k) b w [] (Ready (Inl e)) Buffering lk b
        (drop_guard W g w1)"
      using 2 out pb g dropped m by (auto simp: poll_flush_effect_def flush_outcome_def Let_def lock_view_def)
    ultimately show ?thesis by blast
  next
    case 3
    then have b1: "b1 = PacketBuffer_clear b" and wire1: "wire w1 = base @ frame ?a (payload b)"
      using out by (auto simp: flush_outcome_def Let_def)
    obtain res w' where fw: "flush_writer W cx (Flushing g k1) lk b1 w1 = (Done (Ready res), Buffering, lk, b1, w')"
      and w': "holder w' = None" "wire w' = wire w1"
      using flush_writer_Flushing [OF locks laws ready g1] .
    have "poll_flush_body W cx (Flushing g k) lk b w = Some (Done (Ready res), Buffering, lk, b1, w')"
      using fl 3 fw not_empty b1 by (simp add: poll_flush_body_def is_empty_payload)
    moreover have "poll_flush_effect wire holder m ?a base (Flushing g k) b w [payload b] (Ready res) Buffering lk b1 w'"
      using w' wire1 b1 g m ne length_payload_bound [OF pb]
      by (auto simp: poll_flush_effect_def lock_view_def split: sum.splits intro!: exI [of _ 0])
    ultimately show ?thesis by blast
  qed
qed

lemma poll_flush_body_ok:
  assumes locks: "lock_laws W m wire holder" and laws: "write_laws W wire holder rest"
    and ready: "flush_always_ready W" and m: "pm_mutex lk = m" and inv: "ws_inv holder st b w"
    and wire: "wire w = base @ in_flight st b"
  shows "\<exists>fs r st' lk' b' w'. poll_flush_body W cx st lk b w = Some (Done r, st', lk', b', w') \<and>
    poll_flush_effect wire holder m (pb_socket_addr b) base st b w fs r st' lk' b' w'"
proof (cases "payload b = []")
  case True
  moreover from this have "PacketBuffer_is_empty b"
    using inv by (simp add: is_empty_payload ws_inv_def)
  ultimately show ?thesis
    using poll_flush_empty [OF locks laws ready m inv wire True, of cx]
    by (auto simp: poll_flush_body_def)
next
  case ne: False
  show ?thesis
  proof (cases st)
    case (Flushing g k)
    then show ?thesis
      using poll_flush_locked [OF locks laws ready m _ _ ne] inv wire by blast
  next
    case Buffering
    with inv have pb: "pb_inv b" by simp
    have not_empty: "\<not> PacketBuffer_is_empty b" using ne is_empty_payload [OF pb] by simp
    obtain r st1 lk1 w1 where lock: "poll_locked W Buffering lk cx w = (r, st1, lk1, w1)"
      by (metis prod_cases4)
    note spec = poll_locked_Buffering [OF locks m lock]
    show ?thesis
    proof (cases r)
      case Pending
      with lock have "poll_flush_body W cx st lk b w = Some (Done Pending, st1, lk1, b, w1)"
        by (simp add: poll_flush_body_def Buffering not_empty)
      moreover have "poll_flush_effect wire holder m (pb_socket_addr b) base st b w [] Pending st1 lk1 b w1"
        using spec(1-3) Pending Buffering wire pb by (auto simp: poll_flush_effect_def lock_view_def)
      ultimately show ?thesis by blast
    next
      case (Ready gk)
      then obtain g where g: "r = Ready (g, 0)" "st1 = Flushing g 0" "holder w = None" "holder w1 = Some g"
        using spec(4) by (cases gk) auto
      have "poll_flush_body W cx st lk b w = poll_flush_body W cx (Flushing g 0) lk1 b w1"
        using lock g by (simp add: poll_flush_body_def Buffering not_empty)
      moreover have "ws_inv holder (Flushing g 0) b w1" "wire w1 = base @ in_flight (Flushing g 0) b"
        using g pb ne wire spec(2) Buffering by auto
      ultimately show ?thesis
        using poll_flush_locked [OF locks laws ready spec(1) _ _ ne, of g 0 w1 base cx] g Buffering
        by (fastforce simp: poll_flush_effect_def lock_view_def)
    qed
  qed
qed

end
