(* ===== verification/Write_Shutdown.thy ===== *)
theory Write_Shutdown
  imports Write_Poll
begin

text \<open>
  \<open>poll_shutdown\<close>, the handshake and the task of a dropped writer: which frames they complete, and
  that they end with the empty frame that closes (or opens) the connection.
\<close>

section \<open>The invariant of a connection that shuts down\<close>

definition sh_inv :: "('w \<Rightarrow> 'g option) \<Rightarrow> 'g shutdown_state \<Rightarrow> packet_buffer \<Rightarrow> 'w \<Rightarrow> bool" where
  "sh_inv holder st b w \<longleftrightarrow> pb_inv b \<and>
     (case st of
        WaitingLock \<Rightarrow> True
      | ShutFlushing g k \<Rightarrow> holder w = Some g \<and> unat k < 20 + length (payload b) \<and>
                            (k \<noteq> 0 \<longrightarrow> payload b \<noteq> [])
      | ShutWriting g k \<Rightarrow> holder w = Some g \<and> payload b = [] \<and> unat k < 20
      | ShutDone \<Rightarrow> payload b = []
      | ShutError \<Rightarrow> True)"

definition sh_in_flight :: "'g shutdown_state \<Rightarrow> packet_buffer \<Rightarrow> byte list" where
  "sh_in_flight st b =
     (case st of
        ShutFlushing g k \<Rightarrow> take (unat k) (frame (pb_socket_addr b) (payload b))
      | ShutWriting g k \<Rightarrow> take (unat k) (frame (pb_socket_addr b) [])
      | _ \<Rightarrow> [])"

definition sh_own :: "'g shutdown_state \<Rightarrow> 'g option" where
  "sh_own st = (case st of ShutFlushing g k \<Rightarrow> Some g | ShutWriting g k \<Rightarrow> Some g | _ \<Rightarrow> None)"

lemma sh_simps [simp]:
  "sh_in_flight WaitingLock b = []" "sh_in_flight ShutDone b = []" "sh_in_flight ShutError b = []"
  "sh_in_flight (ShutFlushing g k) b = take (unat k) (frame (pb_socket_addr b) (payload b))"
  "sh_in_flight (ShutWriting g k8) b = take (unat k8) (frame (pb_socket_addr b) [])"
  "sh_own WaitingLock = None" "sh_own ShutDone = None" "sh_own ShutError = None"
  "sh_own (ShutFlushing g k) = Some g" "sh_own (ShutWriting g k8) = Some g"
  by (simp_all add: sh_in_flight_def sh_own_def)

lemma sh_inv_simps [simp]:
  "sh_inv holder WaitingLock b w \<longleftrightarrow> pb_inv b"
  "sh_inv holder ShutDone b w \<longleftrightarrow> pb_inv b \<and> payload b = []"
  "sh_inv holder ShutError b w \<longleftrightarrow> pb_inv b"
  "sh_inv holder (ShutFlushing g k) b w \<longleftrightarrow> pb_inv b \<and> holder w = Some g \<and>
     unat k < 20 + length (payload b) \<and> (k \<noteq> 0 \<longrightarrow> payload b \<noteq> [])"
  "sh_inv holder (ShutWriting g k8) b w \<longleftrightarrow> pb_inv b \<and> holder w = Some g \<and> payload b = [] \<and> unat k8 < 20"
  by (simp_all add: sh_inv_def)

section \<open>\<open>poll_shutdown\<close>\<close>

text \<open>
  What a call leaves: the data frames \<open>fs\<close> it completed and, when it is ready, the empty frame after
  them; a call after the end adds nothing.
\<close>

definition shutdown_effect ::
  "('w \<Rightarrow> byte list) \<Rightarrow> ('w \<Rightarrow> 'g option) \<Rightarrow> nat \<Rightarrow> socket_addr \<Rightarrow> byte list \<Rightarrow>
     'g shutdown_state \<Rightarrow> packet_buffer \<Rightarrow> 'w \<Rightarrow> byte list list \<Rightarrow>
     unit io_result poll \<Rightarrow> 'g shutdown_state \<Rightarrow> 'f poll_mutex \<Rightarrow> packet_buffer \<Rightarrow> 'w \<Rightarrow> bool" where
  "shutdown_effect wire holder m a base st b w fs r st' lk' b' w' \<longleftrightarrow>
     concat fs @ payload b' = payload b \<and> proper_frames fs \<and>
     pb_socket_addr b' = a \<and> pm_mutex lk' = m \<and> sh_inv holder st' b' w' \<and>
     lock_view wire holder (sh_own st) w (sh_own st') w' \<and>
     (case r of
        Ready (Inl e) \<Rightarrow> st' = ShutError \<and>
          (\<exists>j. wire w' = base @ frames (tagged a fs) @ take j (frame a (payload b')))
      | Ready (Inr u) \<Rightarrow> st' = ShutDone \<and>
          wire w' = base @ frames (tagged a (if st = ShutDone then fs else fs @ [[]]))
      | Pending \<Rightarrow> st' \<noteq> ShutDone \<and> st' \<noteq> ShutError \<and>
          wire w' = base @ frames (tagged a fs) @ sh_in_flight st' b')"

lemma flush_buf_U8:
  assumes laws: "write_laws W wire holder rest" and inv: "pb_inv b" and empty: "payload b = []"
    and g: "holder w = Some g"
    and wire: "wire w = base @ take (unat k) (frame (pb_socket_addr b) [])" and k: "unat k \<le> 20"
  obtains r b' k' w' where "flush_buf W cx b g (CounterU8 k) w = Some (Done r, b', CounterU8 k', w')"
    and "holder w' = Some g" and "wire w' = base @ take (unat k') (frame (pb_socket_addr b) [])"
    and "if r = Ready (Inr ()) then b' = PacketBuffer_clear b \<and> unat k' = 20 else b' = b \<and> unat k' < 20"
proof -
  let ?F = "frame (pb_socket_addr b) (payload b)"
  obtain r b' c' w' where eq: "flush_buf W cx b g (CounterU8 k) w = Some (Done r, b', c', w')"
    and post: "flushed wire holder base ?F b (CounterU8 k) w r b' c' w'"
    using flush_buf_flushed [OF laws inv refl, of w base "CounterU8 k" cx g] wire k
    by (auto simp: counter_fits_def empty)
  then obtain k' where "c' = CounterU8 k'"
    by (auto simp: flushed_def dest: same_width_U8)
  with eq post g show ?thesis
    by (intro that [of r b' k' w']) (auto simp: flushed_def empty split: if_splits)
qed

lemma unit_result_cases:
  obtains "r = Pending" | e where "r = Ready (Inl e)" | "r = Ready (Inr ())"
  by (metis (full_types) poll.exhaust sum.exhaust old.unit.exhaust)

lemma shutdown_writing:
  assumes locks: "lock_laws W m wire holder" and laws: "write_laws W wire holder rest"
    and m: "pm_mutex lk = m" and inv: "sh_inv holder (ShutWriting g k) b w"
    and wire: "wire w = base @ sh_in_flight (ShutWriting g k) b"
  shows "\<exists>r st' lk' b' w'. shutdown_loop W cx (ShutWriting g k) lk b w = Some (Done r, st', lk', b', w') \<and>
    shutdown_effect wire holder m (pb_socket_addr b) base (ShutWriting g k) b w [] r st' lk' b' w'"
proof -
  from inv have pb: "pb_inv b" and g: "holder w = Some g" and empty: "payload b = []" and k: "unat k \<le> 20"
    by simp_all
  have is_empty: "PacketBuffer_is_empty b" using empty is_empty_payload [OF pb] by simp
  obtain r b1 k1 w1 where fl: "flush_buf W cx b g (CounterU8 k) w = Some (Done r, b1, CounterU8 k1, w1)"
    and g1: "holder w1 = Some g" and w1: "wire w1 = base @ take (unat k1) (frame (pb_socket_addr b) [])"
    and out: "if r = Ready (Inr ()) then b1 = PacketBuffer_clear b \<and> unat k1 = 20 else b1 = b \<and> unat k1 < 20"
    using flush_buf_U8 [OF laws pb empty g wire [unfolded sh_simps] k] .
  note dropped = lock_lawsD(8,9) [OF locks g1]
  show ?thesis
  proof (cases r rule: unit_result_cases)
    case 1
    with fl is_empty g1 w1 out pb empty m g show ?thesis
      by (auto simp: shutdown_loop.simps shutdown_effect_def lock_view_def)
  next
    case 2
    with fl is_empty dropped w1 out pb empty m g show ?thesis
      by (auto simp: shutdown_loop.simps shutdown_effect_def lock_view_def)
  next
    case 3
    with fl is_empty dropped w1 out pb empty m g show ?thesis
      by (auto simp: shutdown_loop.simps shutdown_effect_def lock_view_def)
  qed
qed

text \<open>Going on from the empty frame after a data frame has been completed.\<close>

lemma shutdown_effect_step:
  assumes later: "shutdown_effect wire holder m a (base @ frames (tagged a fs1)) st1 b1 w1 fs r st' lk' b' w'"
    and step: "concat fs1 @ payload b1 = payload b" "proper_frames fs1"
      "lock_view wire holder (sh_own st) w (sh_own st1) w1" "sh_own st = None \<or> holder w = sh_own st"
      "st \<noteq> ShutDone" "st1 \<noteq> ShutDone"
  shows "shutdown_effect wire holder m a base st b w (fs1 @ fs) r st' lk' b' w'"
proof -
  have "lock_view wire holder (sh_own st) w (sh_own st') w'"
    using step(3,4) later lock_view_trans by (fastforce simp: shutdown_effect_def)
  moreover have "concat (fs1 @ fs) @ payload b' = payload b"
    using later step(1) by (simp add: shutdown_effect_def)
  ultimately show ?thesis
    using later step(2,5,6) by (auto simp: shutdown_effect_def split: poll.splits sum.splits)
qed

lemma shutdown_flushing:
  assumes locks: "lock_laws W m wire holder" and laws: "write_laws W wire holder rest"
    and m: "pm_mutex lk = m" and inv: "sh_inv holder (ShutFlushing g k) b w"
    and wire: "wire w = base @ sh_in_flight (ShutFlushing g k) b"
  shows "\<exists>fs r st' lk' b' w'. shutdown_loop W cx (ShutFlushing g k) lk b w = Some (Done r, st', lk', b', w') \<and>
    shutdown_effect wire holder m (pb_socket_addr b) base (ShutFlushing g k) b w fs r st' lk' b' w'"
proof -
  let ?a = "pb_socket_addr b"
  from inv have pb: "pb_inv b" and g: "holder w = Some g" and k: "unat k \<le> 20 + length (payload b)"
    by simp_all
  have go_on: "\<exists>fs r st' lk' b' w'. shutdown_loop W cx (ShutFlushing g k) lk b w = Some (Done r, st', lk', b', w') \<and>
      shutdown_effect wire holder m ?a base (ShutFlushing g k) b w fs r st' lk' b' w'"
    if eq: "shutdown_loop W cx (ShutFlushing g k) lk b w = shutdown_loop W cx (ShutWriting g 0) lk b1 w1"
      and 1: "pb_inv b1" "payload b1 = []" "pb_socket_addr b1 = ?a" "holder w1 = Some g"
        "wire w1 = base @ frames (tagged ?a fs1)" "concat fs1 = payload b" "proper_frames fs1" for b1 w1 fs1
  proof -
    have "sh_inv holder (ShutWriting g 0) b1 w1"
      "wire w1 = (base @ frames (tagged ?a fs1)) @ sh_in_flight (ShutWriting g 0) b1"
      using 1 by simp_all
    from shutdown_writing [OF locks laws m this] obtain r st' lk' b' w'
      where lp: "shutdown_loop W cx (ShutWriting g 0) lk b1 w1 = Some (Done r, st', lk', b', w')"
        and later: "shutdown_effect wire holder m ?a (base @ frames (tagged ?a fs1)) (ShutWriting g 0) b1 w1 [] r st' lk' b' w'"
      using 1(3) by metis
    have "shutdown_effect wire holder m ?a base (ShutFlushing g k) b w (fs1 @ []) r st' lk' b' w'"
      by (rule shutdown_effect_step [OF later]) (use 1 g in \<open>auto simp: lock_view_def\<close>)
    with lp eq show ?thesis by auto
  qed
  show ?thesis
  proof (cases "payload b = []")
    case True
    with inv wire have "wire w = base @ frames (tagged ?a [])" by simp
    moreover have "PacketBuffer_is_empty b" using True is_empty_payload [OF pb] by simp
    ultimately show ?thesis
      using True pb g by (intro go_on [of b w "[]"]) (auto simp: shutdown_loop.simps)
  next
    case ne: False
    then have not_empty: "\<not> PacketBuffer_is_empty b" using is_empty_payload [OF pb] by simp
    obtain r b1 k1 w1 where fl: "flush_buf W cx b g (CounterU32 k) w = Some (Done r, b1, CounterU32 k1, w1)"
      and out: "flush_outcome wire holder base b g r b1 k1 w1"
      using flush_buf_U32 [OF laws pb g wire [unfolded sh_simps] k] .
    have g1: "holder w1 = Some g"
      using out by (simp add: flush_outcome_def Let_def)
    note dropped = lock_lawsD(8,9) [OF locks g1]
    show ?thesis
    proof (cases r rule: unit_result_cases)
      case 1
      with fl out not_empty have "shutdown_loop W cx (ShutFlushing g k) lk b w =
          Some (Done Pending, ShutFlushing g k1, lk, b, w1)"
        by (simp add: shutdown_loop.simps flush_outcome_def Let_def)
      moreover have "shutdown_effect wire holder m ?a base (ShutFlushing g k) b w [] Pending (ShutFlushing g k1) lk b w1"
        using 1 out pb g g1 m ne by (auto simp: shutdown_effect_def flush_outcome_def Let_def lock_view_def)
      ultimately show ?thesis by blast
    next
      case (2 e)
      with fl out not_empty have "shutdown_loop W cx (ShutFlushing g k) lk b w =
          Some (Done (Ready (Inl e)), ShutError, lk, b, drop_guard W g w1)"
        by (simp add: shutdown_loop.simps flush_outcome_def Let_def)
      moreover have "shutdown_effect wire holder m ?a base (ShutFlushing g k) b w [] (Ready (Inl e)) ShutError lk b
          (drop_guard W g w1)"
        using 2 out pb g dropped m by (auto simp: shutdown_effect_def flush_outcome_def Let_def lock_view_def)
      ultimately show ?thesis by blast
    next
      case 3
      with fl out not_empty show ?thesis
        using ne g1 length_payload_bound [OF pb]
        by (intro go_on [of b1 w1 "[payload b]"]) (auto simp: shutdown_loop.simps flush_outcome_def Let_def)
    qed
  qed
qed

lemma shutdown_loop_ok:
  assumes locks: "lock_laws W m wire holder" and laws: "write_laws W wire holder rest"
    and m: "pm_mutex lk = m" and inv: "sh_inv holder st b w"
    and wire: "wire w = base @ sh_in_flight st b"
  shows "\<exists>fs r st' lk' b' w'. shutdown_loop W cx st lk b w = Some (Done r, st', lk', b', w') \<and>
    shutdown_effect wire holder m (pb_socket_addr b) base st b w fs r st' lk' b' w'"
proof (cases st)
  case (ShutFlushing g k)
  then show ?thesis using shutdown_flushing [OF locks laws m] inv wire by blast
next
  case (ShutWriting g k)
  then show ?thesis using shutdown_writing [OF locks laws m] inv wire by blast
next
  case WaitingLock
  obtain q lk1 w1 where lock: "PollMutex_poll_lock W lk cx w = (q, lk1, w1)"
    by (metis prod_cases3)
  note spec = poll_lock_spec [OF locks m lock]
  show ?thesis
  proof (cases q)
    case Pending
    with lock WaitingLock have "shutdown_loop W cx st lk b w = Some (Done Pending, WaitingLock, lk1, b, w1)"
      by (simp add: shutdown_loop.simps)
    moreover have "shutdown_effect wire holder m (pb_socket_addr b) base st b w [] Pending WaitingLock lk1 b w1"
      using Pending WaitingLock spec(1,3) inv wire by (auto simp: shutdown_effect_def lock_view_def quiet_def)
    ultimately show ?thesis by blast
  next
    case (Ready g)
    with spec(2) have acq: "wire w1 = wire w" "holder w = None" "holder w1 = Some g"
      by (auto simp: acquires_def)
    have "sh_inv holder (ShutFlushing g 0) b w1"
      "wire w1 = (base @ frames (tagged (pb_socket_addr b) [])) @ sh_in_flight (ShutFlushing g 0) b"
      using acq inv wire WaitingLock by auto
    from shutdown_flushing [OF locks laws spec(1) this] obtain fs r st' lk' b' w'
      where lp: "shutdown_loop W cx (ShutFlushing g 0) lk1 b w1 = Some (Done r, st', lk', b', w')"
        and later: "shutdown_effect wire holder m (pb_socket_addr b)
          (base @ frames (tagged (pb_socket_addr b) [])) (ShutFlushing g 0) b w1 fs r st' lk' b' w'"
      by metis
    have "shutdown_effect wire holder m (pb_socket_addr b) base st b w ([] @ fs) r st' lk' b' w'"
      by (rule shutdown_effect_step [OF later]) (use acq WaitingLock in \<open>auto simp: lock_view_def\<close>)
    moreover have "shutdown_loop W cx st lk b w = Some (Done r, st', lk', b', w')"
      using lp lock Ready WaitingLock by (simp add: shutdown_loop.simps)
    ultimately show ?thesis by auto
  qed
next
  case ShutDone
  then show ?thesis using inv wire m
    by (auto simp: shutdown_loop.simps shutdown_effect_def intro!: exI [of _ "[]"])
next
  case ShutError
  then have "shutdown_effect wire holder m (pb_socket_addr b) base st b w []
      (Ready (Inl (IoError OtherKind ''mux connection shutdown previously failed''))) ShutError lk b w"
    using inv wire m by (auto simp: shutdown_effect_def intro!: exI [of _ 0])
  moreover have "shutdown_loop W cx st lk b w = Some (Done (Ready (Inl (IoError OtherKind
      ''mux connection shutdown previously failed''))), ShutError, lk, b, w)"
    using ShutError by (simp add: shutdown_loop.simps)
  ultimately show ?thesis by blast
qed

section \<open>A connection as a whole\<close>

definition wi_inv :: "('w \<Rightarrow> 'g option) \<Rightarrow> nat \<Rightarrow> ('g, 'f) write_inner \<Rightarrow> 'w \<Rightarrow> bool" where
  "wi_inv holder m self w \<longleftrightarrow> pm_mutex (wi_write_lock self) = m \<and>
     (case wi_state self of
        Poisoned \<Rightarrow> False
      | Shutdown st \<Rightarrow> sh_inv holder st (wi_buffer self) w
      | Writing _ st \<Rightarrow> ws_inv holder st (wi_buffer self) w)"

definition wi_in_flight :: "('g, 'f) write_inner \<Rightarrow> byte list" where
  "wi_in_flight self =
     (case wi_state self of
        Poisoned \<Rightarrow> []
      | Shutdown st \<Rightarrow> sh_in_flight st (wi_buffer self)
      | Writing _ st \<Rightarrow> in_flight st (wi_buffer self))"

definition wi_payload :: "('g, 'f) write_inner \<Rightarrow> byte list" where
  "wi_payload self = payload (wi_buffer self)"

lemma state_guard_own [simp]:
  "state_guard (Writing wk st) = own st"
  "state_guard (Shutdown sst) = sh_own sst"
  by (cases st; simp) (cases sst; simp)

text \<open>
  The account of one call on a connection: the frames \<open>fs\<close> it completed on the wire after \<open>base\<close>, the
  bytes \<open>acc\<close> it accepted, and the lock. It is the same for all three operations.
\<close>

definition conn_account ::
  "('w \<Rightarrow> byte list) \<Rightarrow> ('w \<Rightarrow> 'g option) \<Rightarrow> nat \<Rightarrow> byte list \<Rightarrow> byte list list \<Rightarrow> byte list \<Rightarrow>
     ('g, 'f) write_inner \<Rightarrow> 'w \<Rightarrow> ('g, 'f) write_inner \<Rightarrow> 'w \<Rightarrow> bool" where
  "conn_account wire holder m base fs acc this w this' w' \<longleftrightarrow>
     WriteInner_addr this' = WriteInner_addr this \<and>
     wi_inv holder m this' w' \<and>
     concat fs @ wi_payload this' = wi_payload this @ acc \<and>
     lock_view wire holder (state_guard (wi_state this)) w (state_guard (wi_state this')) w' \<and>
     wire w' = base @ frames (tagged (WriteInner_addr this) fs) @ wi_in_flight this'"

text \<open>
  The exception is a call that fails: the connection gives the lock back and keeps the frame, of
  which a part may stay on the wire.
\<close>

definition conn_failed ::
  "('w \<Rightarrow> byte list) \<Rightarrow> ('w \<Rightarrow> 'g option) \<Rightarrow> nat \<Rightarrow> byte list \<Rightarrow> byte list list \<Rightarrow> byte list \<Rightarrow>
     ('g, 'f) write_inner \<Rightarrow> 'w \<Rightarrow> ('g, 'f) write_inner \<Rightarrow> 'w \<Rightarrow> bool" where
  "conn_failed wire holder m base fs acc this w this' w' \<longleftrightarrow>
     WriteInner_addr this' = WriteInner_addr this \<and>
     wi_inv holder m this' w' \<and> state_guard (wi_state this') = None \<and>
     concat fs @ wi_payload this' = wi_payload this @ acc \<and> proper_frames fs \<and>
     (\<exists>j. wire w' = base @ frames (tagged (WriteInner_addr this) fs) @
            take j (frame (WriteInner_addr this) (wi_payload this')))"

lemma poll_write_outcome:
  assumes locks: "lock_laws W m wire holder" and laws: "write_laws W wire holder rest"
    and inv: "wi_inv holder m this w" and open_pipe: "wi_state this = Writing wk st"
    and wire: "wire w = base @ wi_in_flight this"
  obtains r this' w' fs n where "WriteInner_poll_write W this cx buf w = Some (Done r, this', w')"
    and "n \<le> length buf" and "proper_frames fs"
    and "\<And>e. r = Ready (Inl e) \<Longrightarrow> conn_failed wire holder m base fs (take n buf) this w this' w'"
    and "(\<And>e. r \<noteq> Ready (Inl e)) \<Longrightarrow> conn_account wire holder m base fs (take n buf) this w this' w'"
    and "\<And>k. r = Ready (Inr k) \<Longrightarrow> k = n \<and> (buf \<noteq> [] \<longrightarrow> 0 < k)"
    and "r = Pending \<Longrightarrow> n = 0 \<or> wi_state this' = Writing cx Buffering \<and>
           PacketBuffer_is_full (wi_buffer this') \<and> pm_fut (wi_write_lock this') \<noteq> None"
    and "\<exists>st'. wi_state this' = Writing cx st'"
proof -
  have *: "pm_mutex (wi_write_lock this) = m" "ws_inv holder st (wi_buffer this) w"
    "wire w = base @ in_flight st (wi_buffer this)"
    using inv open_pipe wire by (auto simp: wi_inv_def wi_in_flight_def)
  from poll_write_loop_ok [OF locks laws this] obtain fs n r st' lk' b' w'
    where lp: "poll_write_loop W cx st (wi_write_lock this) (wi_buffer this) buf 0 w = Some (Done r, st', lk', b', w')"
      and eff: "poll_write_effect wire holder m (pb_socket_addr (wi_buffer this)) base 0 buf st
        (wi_buffer this) w fs n r st' lk' b' w'"
    unfolding loop_ok_def by metis
  let ?this' = "this\<lparr>wi_write_lock := lk', wi_state := Writing cx st', wi_buffer := b'\<rparr>"
  have eq: "WriteInner_poll_write W this cx buf w = Some (Done r, ?this', w')"
    using lp open_pipe by (simp add: WriteInner_poll_write_def PoisonOnPanic_new_def PoisonOnPanic_drop_def)
  show ?thesis
    by (rule that [OF eq, of n fs])
      (use eff open_pipe in \<open>auto simp: poll_write_effect_def conn_failed_def conn_account_def wi_inv_def
        wi_in_flight_def wi_payload_def WriteInner_addr_def PacketBuffer_addr_def
        split: poll.splits sum.splits\<close>)
qed

lemma poll_flush_outcome:
  assumes locks: "lock_laws W m wire holder" and laws: "write_laws W wire holder rest"
    and ready: "flush_always_ready W"
    and inv: "wi_inv holder m this w" and open_pipe: "wi_state this = Writing wk st"
    and wire: "wire w = base @ wi_in_flight this"
  obtains r this' w' fs where "WriteInner_poll_flush W this cx w = Some (Done r, this', w')"
    and "proper_frames fs"
    and "\<And>e. r = Ready (Inl e) \<Longrightarrow> conn_failed wire holder m base fs [] this w this' w'"
    and "(\<And>e. r \<noteq> Ready (Inl e)) \<Longrightarrow> conn_account wire holder m base fs [] this w this' w'"
    and "r = Ready (Inr ()) \<Longrightarrow> wi_state this' = Writing cx Buffering \<and> wi_payload this' = []"
    and "\<exists>st'. wi_state this' = Writing cx st'"
proof -
  have *: "pm_mutex (wi_write_lock this) = m" "ws_inv holder st (wi_buffer this) w"
    "wire w = base @ in_flight st (wi_buffer this)"
    using inv open_pipe wire by (auto simp: wi_inv_def wi_in_flight_def)
  from poll_flush_body_ok [OF locks laws ready this] obtain fs r st' lk' b' w'
    where lp: "poll_flush_body W cx st (wi_write_lock this) (wi_buffer this) w = Some (Done r, st', lk', b', w')"
      and eff: "poll_flush_effect wire holder m (pb_socket_addr (wi_buffer this)) base st
        (wi_buffer this) w fs r st' lk' b' w'"
    by metis
  let ?this' = "this\<lparr>wi_write_lock := lk', wi_state := Writing cx st', wi_buffer := b'\<rparr>"
  have eq: "WriteInner_poll_flush W this cx w = Some (Done r, ?this', w')"
    using lp open_pipe by (simp add: WriteInner_poll_flush_def PoisonOnPanic_new_def PoisonOnPanic_drop_def)
  show ?thesis
    by (rule that [OF eq, of fs])
      (use eff open_pipe in \<open>auto simp: poll_flush_effect_def conn_failed_def conn_account_def wi_inv_def
        wi_in_flight_def wi_payload_def WriteInner_addr_def PacketBuffer_addr_def
        split: poll.splits sum.splits\<close>)
qed

text \<open>The state from which the loop of \<open>poll_shutdown\<close> starts.\<close>

definition shutdown_start :: "'g write_pipe_state \<Rightarrow> 'g shutdown_state" where
  "shutdown_start state =
     (case state of Shutdown st \<Rightarrow> st | Writing _ st \<Rightarrow> shutdown_enter st | Poisoned \<Rightarrow> ShutError)"

lemma shutdown_enter_facts [simp]:
  "sh_own (shutdown_enter st) = own st"
  "sh_in_flight (shutdown_enter st) b = in_flight st b"
  "sh_inv holder (shutdown_enter st) b w = ws_inv holder st b w"
  "shutdown_enter st \<noteq> ShutDone" "shutdown_enter st \<noteq> ShutError"
  by (cases st; simp add: shutdown_enter_def)+

lemma poll_shutdown_outcome:
  assumes locks: "lock_laws W m wire holder" and laws: "write_laws W wire holder rest"
    and inv: "wi_inv holder m this w" and wire: "wire w = base @ wi_in_flight this"
  obtains r this' w' woken fs where "WriteInner_poll_shutdown W this cx w = Some (Done r, this', w', woken)"
    and "\<And>e. r = Ready (Inl e) \<Longrightarrow> conn_failed wire holder m base fs [] this w this' w'"
    and "(\<And>e. r \<noteq> Ready (Inl e)) \<Longrightarrow> conn_account wire holder m base fs [] this w this' w'"
    and "r = Ready (Inr ()) \<Longrightarrow> wi_state this' = Shutdown ShutDone \<and>
           (wi_state this \<noteq> Shutdown ShutDone \<longrightarrow> (\<exists>ds. proper_frames ds \<and> fs = ds @ [[]]))"
    and "r \<noteq> Ready (Inr ()) \<Longrightarrow> proper_frames fs"
    and "wi_state this = Shutdown ShutDone \<Longrightarrow> proper_frames fs"
    and "r = Pending \<Longrightarrow> wi_state this' \<noteq> Shutdown ShutDone"
    and "\<exists>st'. wi_state this' = Shutdown st'"
    and "woken = (case wi_state this of Writing wk st \<Rightarrow> [wk] | _ \<Rightarrow> [])"
proof -
  let ?st = "shutdown_start (wi_state this)"
  let ?woken = "case wi_state this of Writing wk st \<Rightarrow> [wk] | _ \<Rightarrow> []"
  have not_poisoned: "wi_state this \<noteq> Poisoned"
    using inv by (auto simp: wi_inv_def)
  have start: "pm_mutex (wi_write_lock this) = m" "sh_inv holder ?st (wi_buffer this) w"
    "wire w = base @ sh_in_flight ?st (wi_buffer this)"
    using inv wire by (auto simp: wi_inv_def wi_in_flight_def shutdown_start_def split: write_pipe_state.splits)
  have guard: "state_guard (wi_state this) = sh_own ?st"
    and fin: "?st = ShutDone \<longleftrightarrow> wi_state this = Shutdown ShutDone"
    using not_poisoned by (auto simp: shutdown_start_def split: write_pipe_state.splits)
  from shutdown_loop_ok [OF locks laws start] obtain fs r st' lk' b' w'
    where lp: "shutdown_loop W cx ?st (wi_write_lock this) (wi_buffer this) w = Some (Done r, st', lk', b', w')"
      and eff: "shutdown_effect wire holder m (pb_socket_addr (wi_buffer this)) base ?st
        (wi_buffer this) w fs r st' lk' b' w'"
    by metis
  let ?this' = "this\<lparr>wi_write_lock := lk', wi_state := Shutdown st', wi_buffer := b'\<rparr>"
  have eq: "WriteInner_poll_shutdown W this cx w = Some (Done r, ?this', w', ?woken)"
    using lp not_poisoned
    by (auto simp: WriteInner_poll_shutdown_def PoisonOnPanic_new_def PoisonOnPanic_drop_def shutdown_start_def
        split: write_pipe_state.splits)
  let ?fs = "if r = Ready (Inr ()) \<and> ?st \<noteq> ShutDone then fs @ [[]] else fs"
  show ?thesis
    by (rule that [OF eq, of ?fs])
      (use eff guard fin in \<open>auto simp: shutdown_effect_def conn_failed_def conn_account_def wi_inv_def
        wi_in_flight_def wi_payload_def WriteInner_addr_def PacketBuffer_addr_def
        split: poll.splits sum.splits\<close>)
qed

end
