(* ===== verification/Write_Drop.thy ===== *)
theory Write_Drop
  imports Write_Shutdown "HOL-Library.Sublist"
begin

text \<open>
  The handshake and the drop of a writer: the bytes they put on the wire, poll by poll.
\<close>

section \<open>The task of a dropped writer\<close>

text \<open>What a task has left to send, and the guard it holds.\<close>

fun task_rest :: "('a \<Rightarrow> byte list) \<Rightarrow> ('g, 'f, 'a) drop_task \<Rightarrow> byte list" where
  "task_rest rest (TaskStart (DropToken t) a) = frame a []"
| "task_rest rest (TaskStart (DropLocked g) a) = frame a []"
| "task_rest rest (TaskStart (DropRest g d) a) = d @ frame a []"
| "task_rest rest (TaskLock f a) = frame a []"
| "task_rest rest (TaskRest g f a) = rest f @ frame a []"
| "task_rest rest (TaskEof g f) = rest f"
| "task_rest rest TaskDone = []"

fun task_guard :: "('g, 'f, 'a) drop_task \<Rightarrow> 'g option" where
  "task_guard (TaskStart (DropLocked g) a) = Some g"
| "task_guard (TaskStart (DropRest g d) a) = Some g"
| "task_guard (TaskRest g f a) = Some g"
| "task_guard (TaskEof g f) = Some g"
| "task_guard _ = None"

fun task_mutex :: "nat \<Rightarrow> ('g, 'f, 'a) drop_task \<Rightarrow> bool" where
  "task_mutex m (TaskStart (DropToken t) a) \<longleftrightarrow> pm_mutex t = m"
| "task_mutex m _ \<longleftrightarrow> True"

definition task_inv :: "('w \<Rightarrow> 'g option) \<Rightarrow> nat \<Rightarrow> ('g, 'f, 'a) drop_task \<Rightarrow> 'w \<Rightarrow> bool" where
  "task_inv holder m t w \<longleftrightarrow> task_mutex m t \<and> (task_guard t = None \<or> holder w = task_guard t)"

text \<open>A stream on which \<open>write_all\<close> never fails.\<close>

definition write_all_reliable :: "('w, 'g, 'f, 'a) writer_api \<Rightarrow> bool" where
  "write_all_reliable W \<longleftrightarrow> (\<forall>a g cx w e. fst (poll_write_all W a g cx w) \<noteq> Ready (Inl e))"

definition task_step ::
  "('w, 'g, 'f, 'a) writer_api \<Rightarrow> ('w \<Rightarrow> byte list) \<Rightarrow> ('w \<Rightarrow> 'g option) \<Rightarrow> ('a \<Rightarrow> byte list) \<Rightarrow> nat \<Rightarrow>
     byte list \<Rightarrow> 'g option \<Rightarrow> 'w \<Rightarrow> unit poll \<times> ('g, 'f, 'a) drop_task \<times> 'w \<Rightarrow> bool" where
  "task_step W wire holder rest m todo o1 w res \<longleftrightarrow>
     (case res of (r, t', w') \<Rightarrow>
        task_inv holder m t' w' \<and> lock_view wire holder o1 w (task_guard t') w' \<and>
        (r = Ready () \<longrightarrow> t' = TaskDone) \<and>
        (\<exists>bs. wire w' = wire w @ bs \<and> prefix bs todo \<and>
              (r = Pending \<or> write_all_reliable W \<longrightarrow> todo = bs @ task_rest rest t')))"

lemma drop_eof_step:
  assumes locks: "lock_laws W m wire holder" and laws: "write_laws W wire holder rest"
    and g: "holder w = Some g"
  shows "task_step W wire holder rest m (rest f) (Some g) w (drop_eof W g f cx w)"
proof -
  obtain r f' w1 where p: "poll_write_all W f g cx w = (r, f', w1)"
    by (metis prod_cases3)
  note wa = write_all_lawsD(2,3) [OF laws p]
  then obtain bs where bs: "rest f = bs @ rest f'" "wire w1 = wire w @ bs" by blast
  have g1: "holder w1 = Some g" using wa(1) g by simp
  note dropped = lock_lawsD(8,9) [OF locks g1]
  show ?thesis
  proof (cases r rule: unit_result_cases)
    case 1
    with p g g1 bs show ?thesis
      by (auto simp: drop_eof_def task_step_def task_inv_def lock_view_def)
  next
    case 2
    then have "\<not> write_all_reliable W"
      using p by (metis write_all_reliable_def fst_conv)
    with 2 p g bs dropped show ?thesis
      by (auto simp: drop_eof_def task_step_def task_inv_def lock_view_def)
  next
    case 3
    then have "rest f' = []" using p write_all_lawsD(4) [OF laws] by blast
    then have "wire (drop_guard W g w1) = wire w @ rest f"
      using bs dropped(1) by simp
    with 3 p g dropped(2) show ?thesis
      by (simp add: drop_eof_def task_step_def task_inv_def lock_view_def)
  qed
qed

lemma rest_eof_fut: "write_laws W wire holder rest \<Longrightarrow> rest (eof_fut W a) = frame a []"
  by (simp add: eof_fut_def write_all_lawsD(1) frame_empty)

text \<open>A step that first puts \<open>bs\<close> on the wire and keeps the lock.\<close>

lemma task_step_after:
  assumes "task_step W wire holder rest m todo o2 w1 res"
    and "wire w1 = wire w @ bs" and "lock_view wire holder o1 w o2 w1" and "o1 = None \<or> holder w = o1"
  shows "task_step W wire holder rest m (bs @ todo) o1 w res"
proof -
  obtain r t' w' where res: "res = (r, t', w')" by (metis prod_cases3)
  have "lock_view wire holder o2 w1 (task_guard t') w'"
    using assms(1) res by (simp add: task_step_def)
  from lock_view_trans [OF assms(3) this assms(4)]
  have "lock_view wire holder o1 w (task_guard t') w'" .
  moreover obtain bs' where bs': "wire w' = wire w1 @ bs'" "prefix bs' todo"
    "r = Pending \<or> write_all_reliable W \<longrightarrow> todo = bs' @ task_rest rest t'"
    using assms(1) res by (auto simp: task_step_def)
  have "wire w' = wire w @ (bs @ bs')" "prefix (bs @ bs') (bs @ todo)"
    "r = Pending \<or> write_all_reliable W \<longrightarrow> bs @ todo = (bs @ bs') @ task_rest rest t'"
    using bs' assms(2) by auto
  ultimately show ?thesis
    using assms(1) res unfolding task_step_def by auto
qed

lemma drop_rest_step:
  assumes locks: "lock_laws W m wire holder" and laws: "write_laws W wire holder rest"
    and g: "holder w = Some g"
  shows "task_step W wire holder rest m (rest f @ frame a []) (Some g) w (drop_rest W g f a cx w)"
proof -
  obtain r f' w1 where p: "poll_write_all W f g cx w = (r, f', w1)"
    by (metis prod_cases3)
  note wa = write_all_lawsD(2,3) [OF laws p]
  then obtain bs where bs: "rest f = bs @ rest f'" "wire w1 = wire w @ bs" by blast
  have g1: "holder w1 = Some g" using wa(1) g by simp
  note dropped = lock_lawsD(8,9) [OF locks g1]
  show ?thesis
  proof (cases r rule: unit_result_cases)
    case 1
    with p g g1 bs show ?thesis
      by (auto simp: drop_rest_def task_step_def task_inv_def lock_view_def)
  next
    case 2
    then have "\<not> write_all_reliable W"
      using p by (metis write_all_reliable_def fst_conv)
    with 2 p g bs dropped show ?thesis
      by (auto simp: drop_rest_def task_step_def task_inv_def lock_view_def)
  next
    case 3
    then have "rest f' = []" using p write_all_lawsD(4) [OF laws] by blast
    moreover have "task_step W wire holder rest m (bs @ frame a []) (Some g) w
        (drop_eof W g (eof_fut W a) cx w1)"
      by (rule task_step_after [OF drop_eof_step [OF locks laws g1, of "eof_fut W a" cx,
              unfolded rest_eof_fut [OF laws]]])
        (use bs g g1 in \<open>auto simp: lock_view_def\<close>)
    ultimately show ?thesis
      using 3 p bs by (simp add: drop_rest_def)
  qed
qed

lemma drop_lock_step:
  assumes locks: "lock_laws W m wire holder" and laws: "write_laws W wire holder rest"
  shows "task_step W wire holder rest m (frame a []) None w (drop_lock W f a cx w)"
proof -
  obtain r f' w1 where p: "PollMutex_lock_poll W f cx w = (r, f', w1)"
    by (metis prod_cases3)
  note spec = lock_poll_spec [OF locks p]
  show ?thesis
  proof (cases r)
    case Pending
    with p spec(2) show ?thesis
      by (auto simp: drop_lock_def task_step_def task_inv_def lock_view_def quiet_def)
  next
    case (Ready mg)
    with spec(1) have acq: "wire w1 = wire w" "holder w = None" "holder w1 = Some (MaybeOwnedGuard_deref mg)"
      by (auto simp: acquires_def)
    have "task_step W wire holder rest m ([] @ frame a []) None w
        (drop_eof W (MaybeOwnedGuard_deref mg) (eof_fut W a) cx w1)"
      by (rule task_step_after [OF drop_eof_step [OF locks laws acq(3), of "eof_fut W a" cx,
              unfolded rest_eof_fut [OF laws]]])
        (use acq in \<open>auto simp: lock_view_def\<close>)
    with Ready p show ?thesis by (simp add: drop_lock_def)
  qed
qed

lemma drop_task_cases [case_names token locked rest lock wrest eof fin]:
  obtains tk a where "t = TaskStart (DropToken tk) a" | g a where "t = TaskStart (DropLocked g) a"
  | g d a where "t = TaskStart (DropRest g d) a" | f a where "t = TaskLock f a"
  | g f a where "t = TaskRest g f a" | g f where "t = TaskEof g f" | "t = TaskDone"
  by (metis drop_task.exhaust drop_writer.exhaust)

lemma drop_task_poll_step:
  assumes locks: "lock_laws W m wire holder" and laws: "write_laws W wire holder rest"
    and inv: "task_inv holder m t w"
  shows "task_step W wire holder rest m (task_rest rest t) (task_guard t) w (drop_task_poll W t cx w)"
proof (cases t rule: drop_task_cases)
  case (token tk a)
  obtain f tk' w1 where l: "PollMutex_lock W tk w = (f, tk', w1)"
    by (metis prod_cases3)
  with inv token have "quiet wire holder w w1"
    using lock_start_quiet [OF locks] by (auto simp: task_inv_def)
  then have "task_step W wire holder rest m ([] @ frame a []) None w (drop_lock W f a cx w1)"
    by (intro task_step_after [OF drop_lock_step [OF locks laws]]) (auto simp: quiet_def lock_view_def)
  with token l show ?thesis by simp
next
  case (locked g a)
  with inv show ?thesis
    using drop_eof_step [OF locks laws, of w g "eof_fut W a" cx]
    by (simp add: rest_eof_fut [OF laws] task_inv_def)
next
  case (rest g d a)
  with inv show ?thesis
    using drop_rest_step [OF locks laws, of w g "write_all W d" a cx]
    by (simp add: write_all_lawsD(1) [OF laws] task_inv_def)
next
  case (lock f a)
  then show ?thesis using drop_lock_step [OF locks laws] by simp
next
  case (wrest g f a)
  with inv show ?thesis using drop_rest_step [OF locks laws] by (simp add: task_inv_def)
next
  case (eof g f)
  with inv show ?thesis using drop_eof_step [OF locks laws] by (simp add: task_inv_def)
next
  case fin
  then show ?thesis by (auto simp: task_step_def task_inv_def)
qed

section \<open>Dropping an open connection\<close>

text \<open>
  The frame that is partly on the wire is completed, a frame of which nothing has been sent is
  given up, and the empty frame follows.
\<close>

lemma drop_outcome:
  assumes locks: "lock_laws W m wire holder"
    and inv: "wi_inv holder m self w" and open_pipe: "wi_state self = Writing wk st"
    and wire: "wire w = base @ wi_in_flight self"
  obtains t w' where "WriteInner_drop W self w = (Done (Some t), w')"
    and "task_inv holder m t w'" and "lock_view wire holder (own st) w (task_guard t) w'"
    and "wire w' = wire w"
    and "wire w' @ task_rest rest t = base @ frames (tagged (WriteInner_addr self)
           ((if wi_in_flight self = [] then [] else [wi_payload self]) @ [[]]))"
proof -
  let ?a = "WriteInner_addr self" and ?w' = "\<lambda>f. drop_fut_opt W f w"
  have addr: "pb_socket_addr (wi_buffer self) = ?a"
    by (simp add: WriteInner_addr_def PacketBuffer_addr_def)
  have quiet: "wire (?w' f) = wire w" "holder (?w' f) = holder w" for f
    using drop_fut_opt_quiet [OF locks, of w f] by (simp_all add: quiet_def)
  have pb: "pb_inv (wi_buffer self)" and m: "pm_mutex (wi_write_lock self) = m"
    using inv open_pipe by (auto simp: wi_inv_def ws_inv_def)
  show ?thesis
  proof (cases st)
    case Buffering
    with open_pipe have "WriteInner_drop W self w =
        (Done (Some (TaskStart (DropToken (wi_write_lock self)) ?a)), ?w' None)"
      by (simp add: WriteInner_drop_def PollMutex_take_token_def WriteInner_addr_def Let_def)
    then show ?thesis
      by (rule that) (use Buffering open_pipe wire m quiet in
        \<open>auto simp: task_inv_def wi_in_flight_def lock_view_def drop_fut_opt_def\<close>)
  next
    case (Flushing g k)
    with inv open_pipe have g: "holder w = Some g" and k: "unat k < 20 + length (wi_payload self)"
      by (auto simp: wi_inv_def wi_payload_def)
    have sent: "wi_in_flight self = take (unat k) (frame ?a (wi_payload self))"
      using Flushing open_pipe by (simp add: wi_in_flight_def wi_payload_def addr)
    show ?thesis
    proof (cases "k = 0")
      case True
      with open_pipe Flushing have "WriteInner_drop W self w =
          (Done (Some (TaskStart (DropLocked g) ?a)), ?w' (pm_fut (wi_write_lock self)))"
        by (simp add: WriteInner_drop_def WriteInner_addr_def)
      then show ?thesis
        by (rule that) (use True sent g wire quiet Flushing in \<open>auto simp: task_inv_def lock_view_def\<close>)
    next
      case False
      let ?rest = "drop (unat k) (frame ?a (wi_payload self))"
      have "PacketBuffer_bytes_from (wi_buffer self) k = Done ?rest"
        using k by (simp add: bytes_from_frame [OF pb] wi_payload_def addr)
      with False open_pipe Flushing have eq: "WriteInner_drop W self w =
          (Done (Some (TaskStart (DropRest g ?rest) ?a)), ?w' (pm_fut (wi_write_lock self)))"
        by (simp add: WriteInner_drop_def WriteInner_addr_def word_le_nat_alt unat_gt_0 Suc_le_eq)
      have ne: "wi_in_flight self \<noteq> []"
      proof -
        have "frame ?a (wi_payload self) \<noteq> []"
          by (metis length_frame list.size(3) add_is_0 zero_neq_numeral)
        with False sent show ?thesis by (simp add: unat_eq_zero)
      qed
      show ?thesis
        by (rule that [OF eq]) (use sent ne g wire quiet Flushing in \<open>simp_all add: task_inv_def lock_view_def\<close>)
    qed
  qed
qed

section \<open>The handshake\<close>

fun handshake_rest :: "('a \<Rightarrow> byte list) \<Rightarrow> socket_addr \<Rightarrow> ('g, 'f, 'a) handshake_fut \<Rightarrow> byte list" where
  "handshake_rest rest a (HandshakeLock f) = frame a []"
| "handshake_rest rest a (HandshakeWrite g f) = rest f"
| "handshake_rest rest a HandshakeDone = []"

fun handshake_guard :: "('g, 'f, 'a) handshake_fut \<Rightarrow> 'g option" where
  "handshake_guard (HandshakeWrite g f) = Some g"
| "handshake_guard _ = None"

definition handshake_step ::
  "('w \<Rightarrow> byte list) \<Rightarrow> ('w \<Rightarrow> 'g option) \<Rightarrow> ('a \<Rightarrow> byte list) \<Rightarrow> socket_addr \<Rightarrow> byte list \<Rightarrow> 'g option \<Rightarrow> 'w \<Rightarrow>
     unit io_result poll run \<times> ('g, 'f, 'a) handshake_fut \<times> 'w \<Rightarrow> bool" where
  "handshake_step wire holder rest a todo o1 w res \<longleftrightarrow>
     (case res of (r, h', w') \<Rightarrow>
        \<exists>q bs. r = Done q \<and> wire w' = wire w @ bs \<and> prefix bs todo \<and>
          lock_view wire holder o1 w (handshake_guard h') w' \<and>
          (handshake_guard h' = None \<or> holder w' = handshake_guard h') \<and>
          (q = Pending \<longrightarrow> h' \<noteq> HandshakeDone \<and> todo = bs @ handshake_rest rest a h') \<and>
          (q \<noteq> Pending \<longrightarrow> h' = HandshakeDone) \<and> (q = Ready (Inr ()) \<longrightarrow> bs = todo))"

lemma handshake_write_step:
  assumes locks: "lock_laws W m wire holder" and laws: "write_laws W wire holder rest"
    and g: "holder w = Some g"
  shows "handshake_step wire holder rest a (rest f) (Some g) w (handshake_write W g f cx w)"
proof -
  obtain r f' w1 where p: "poll_write_all W f g cx w = (r, f', w1)"
    by (metis prod_cases3)
  note wa = write_all_lawsD(2,3) [OF laws p]
  then obtain bs where bs: "rest f = bs @ rest f'" "wire w1 = wire w @ bs" by blast
  have g1: "holder w1 = Some g" using wa(1) g by simp
  note dropped = lock_lawsD(8,9) [OF locks g1]
  have fin: "rest f' = []" if "r = Ready (Inr ())"
    using that p write_all_lawsD(4) [OF laws] by blast
  have pre: "prefix bs (rest f)" using bs(1) by simp
  show ?thesis
  proof (cases r)
    case Pending
    with p g g1 bs show ?thesis
      by (auto simp: handshake_write_def handshake_step_def lock_view_def)
  next
    case (Ready res)
    have "wire (drop_guard W g w1) = wire w @ bs" using dropped(1) bs(2) by simp
    moreover have "res = Inr () \<longrightarrow> bs = rest f" using fin Ready bs(1) by simp
    ultimately show ?thesis
      using Ready p g dropped(2) pre
      by (auto simp: handshake_write_def handshake_step_def lock_view_def)
  qed
qed

lemma handshake_poll_step:
  assumes locks: "lock_laws W m wire holder" and laws: "write_laws W wire holder rest"
    and inv: "wi_inv holder m self w0" and empty: "wi_payload self = []"
    and h: "h \<noteq> HandshakeDone" "handshake_guard h = None \<or> holder w = handshake_guard h"
  shows "handshake_step wire holder rest (WriteInner_addr self) (handshake_rest rest (WriteInner_addr self) h)
    (handshake_guard h) w (WriteInner_handshake_poll W self h cx w)"
proof (cases h)
  case (HandshakeLock f)
  have "pb_inv (wi_buffer self)"
    using inv by (auto simp: wi_inv_def ws_inv_def sh_inv_def split: write_pipe_state.splits)
  then have bytes: "PacketBuffer_bytes (wi_buffer self) = Done (frame (WriteInner_addr self) [])"
    using empty by (simp add: bytes_frame wi_payload_def WriteInner_addr_def PacketBuffer_addr_def)
  obtain r f' w1 where p: "PollMutex_lock_poll W f cx w = (r, f', w1)"
    by (metis prod_cases3)
  note spec = lock_poll_spec [OF locks p]
  show ?thesis
  proof (cases r)
    case Pending
    with HandshakeLock p spec(2) show ?thesis
      by (auto simp: handshake_step_def lock_view_def quiet_def)
  next
    case (Ready mg)
    with spec(1) have acq: "wire w1 = wire w" "holder w = None" "holder w1 = Some (MaybeOwnedGuard_deref mg)"
      by (auto simp: acquires_def)
    have "handshake_step wire holder rest (WriteInner_addr self) (frame (WriteInner_addr self) [])
        (Some (MaybeOwnedGuard_deref mg)) w1
        (handshake_write W (MaybeOwnedGuard_deref mg) (write_all W (frame (WriteInner_addr self) [])) cx w1)"
      using handshake_write_step [OF locks laws acq(3), where f = "write_all W (frame (WriteInner_addr self) [])"]
      by (simp add: write_all_lawsD(1) [OF laws])
    with Ready HandshakeLock p acq bytes show ?thesis
      by (auto simp: handshake_step_def lock_view_def)
  qed
next
  case (HandshakeWrite g f)
  then show ?thesis using h handshake_write_step [OF locks laws] by simp
qed (use h in simp)

end
