(* ===== verification/Loopback.thy ===== *)
theory Loopback
  imports Write_Drop
begin

text \<open>
  A concrete instance of the parameters that stand for tokio's mutex and stream: one mutex without
  a queue, and a stream that accepts bytes as a script says. It satisfies the laws, so it shows that
  the hypotheses of the properties can hold, and concrete runs of the model are computed on it.
\<close>

section \<open>The writer\<close>

text \<open>
  Each entry of the script answers one \<open>poll_write\<close>: \<open>0\<close> is \<open>Pending\<close>, \<open>n\<close> accepts at most \<open>n\<close> bytes;
  when the script is used up, everything offered is accepted.
\<close>

record lb_world =
  lb_wire :: "byte list"
  lb_held :: bool
  lb_script :: "nat list"

definition lb_holder :: "lb_world \<Rightarrow> unit option" where
  "lb_holder w = (if lb_held w then Some () else None)"

definition lb_try_lock :: "nat \<Rightarrow> lb_world \<Rightarrow> unit option \<times> lb_world" where
  "lb_try_lock m w = (if lb_held w then (None, w) else (Some (), w\<lparr>lb_held := True\<rparr>))"

definition lb_poll_lock :: "unit \<Rightarrow> waker \<Rightarrow> lb_world \<Rightarrow> unit poll \<times> unit \<times> lb_world" where
  "lb_poll_lock f cx w = (if lb_held w then (Pending, (), w) else (Ready (), (), w\<lparr>lb_held := True\<rparr>))"

definition lb_poll_write :: "unit \<Rightarrow> waker \<Rightarrow> byte list \<Rightarrow> lb_world \<Rightarrow> nat io_result poll \<times> lb_world" where
  "lb_poll_write g cx bs w =
     (case lb_script w of
        [] \<Rightarrow> (Ready (Inr (length bs)), w\<lparr>lb_wire := lb_wire w @ bs\<rparr>)
      | n # ns \<Rightarrow>
          if n = 0 then (Pending, w\<lparr>lb_script := ns\<rparr>)
          else (Ready (Inr (min n (length bs))), w\<lparr>lb_wire := lb_wire w @ take n bs, lb_script := ns\<rparr>))"

definition loopback :: "(lb_world, unit, unit, byte list) writer_api" where
  "loopback =
     \<lparr>try_lock_owned = lb_try_lock,
      lock_owned = (\<lambda>m w. ((), w)),
      lock_ref = (\<lambda>m w. ((), w)),
      poll_lock_fut = lb_poll_lock,
      drop_lock_fut = (\<lambda>f w. w),
      drop_guard = (\<lambda>g w. w\<lparr>lb_held := False\<rparr>),
      poll_write_w = lb_poll_write,
      poll_flush_w = (\<lambda>g cx w. (Ready (Inr ()), w)),
      write_all = (\<lambda>bs. bs),
      poll_write_all = (\<lambda>a g cx w. (Ready (Inr ()), [], w\<lparr>lb_wire := lb_wire w @ a\<rparr>))\<rparr>"

lemma loopback_lock_laws: "lock_laws loopback m lb_wire lb_holder"
  by (simp add: lock_laws_def loopback_def lb_try_lock_def lb_poll_lock_def lb_holder_def
      quiet_def acquires_def)

lemma loopback_write_laws: "write_laws loopback lb_wire lb_holder id"
  by (auto simp: write_laws_def loopback_def lb_poll_write_def lb_holder_def quiet_def min_def
      split: list.splits if_splits)

lemma loopback_flush_ready: "flush_always_ready loopback"
  by (simp add: flush_always_ready_def loopback_def)

lemma loopback_reliable: "write_all_reliable loopback"
  by (simp add: write_all_reliable_def loopback_def)

lemmas loopback_laws = loopback_lock_laws loopback_write_laws loopback_flush_ready loopback_reliable

section \<open>Sample connections\<close>

definition lb_start :: "nat list \<Rightarrow> lb_world" where
  "lb_start script = \<lparr>lb_wire = [], lb_held = False, lb_script = script\<rparr>"

definition addr0 :: socket_addr where
  "addr0 = SocketAddr_from_std (SockV4 (Ipv4Addr 127 0 0 1) 8080)"

definition uninit_packet :: packet_buffer where
  "uninit_packet = \<lparr>pb_socket_addr = addr0, pb_len = NetworkOrderU16 7 7, pb_data = Map.empty\<rparr>"

definition uninit_writer :: "(unit, unit) write_inner" where
  "uninit_writer =
     \<lparr>wi_write_lock = \<lparr>pm_mutex = 9, pm_fut = None\<rparr>, wi_state = Poisoned, wi_buffer = uninit_packet\<rparr>"

definition writer0 :: "(unit, unit) write_inner" where
  "writer0 = box_new WriteInner_init uninit_writer (addr0, PollMutex_new 0)"

lemma writer0_facts [simp]:
  "wi_state writer0 = Writing Noop Buffering" "wi_payload writer0 = []" "pb_inv (wi_buffer writer0)"
  "WriteInner_addr writer0 = addr0" "pm_mutex (wi_write_lock writer0) = 0"
  "wi_in_flight writer0 = []" "wi_write_lock writer0 = PollMutex_new 0"
  by (simp_all add: writer0_def box_new_def WriteInner_init_def wi_payload_def WriteInner_addr_def
      PacketBuffer_addr_def PollMutex_new_def wi_in_flight_def)

lemma writer0_inv [simp]: "wi_inv lb_holder 0 writer0 w"
  by (simp add: wi_inv_def PollMutex_new_def)

end
