(* ===== verification/Write_Props.thy ===== *)
theory Write_Props
  imports Loopback
begin

text \<open>
  The contract of a writing connection, operation by operation, with an application of each theorem
  to a concrete connection. The contract is stated with \<open>conn_account\<close>: what a call has put on
  the wire are complete frames of this connection and the part of the next one it is sending, what it
  has accepted is either in those frames or in the buffer, and it has the lock exactly while a frame
  is partly sent.
\<close>

section \<open>Sample states\<close>

text \<open>A connection with three buffered bytes, and one in the middle of sending them.\<close>

definition writer3 :: "(unit, unit) write_inner" where
  "writer3 = writer0\<lparr>wi_buffer := sample_packet\<rparr>"

definition writer3_flushing :: "(unit, unit) write_inner" where
  "writer3_flushing = writer3\<lparr>wi_state := Writing Noop (Flushing () 19)\<rparr>"

definition lb_flushing :: lb_world where
  "lb_flushing = \<lparr>lb_wire = take 19 (frame (WriteInner_addr writer3) [1, 2, 3]), lb_held = True, lb_script = [1, 0]\<rparr>"

lemma writer3_facts [simp]:
  "wi_state writer3 = Writing Noop Buffering" "wi_payload writer3 = [1, 2, 3]"
  "wi_inv lb_holder 0 writer3 w" "wi_in_flight writer3 = []"
  by (simp_all add: writer3_def wi_payload_def wi_inv_def sample_packet_payload wi_in_flight_def PollMutex_new_def)

lemma writer3_flushing_facts [simp]:
  "wi_state writer3_flushing = Writing Noop (Flushing () 19)" "wi_payload writer3_flushing = [1, 2, 3]"
  "wi_inv lb_holder 0 writer3_flushing lb_flushing"
  "lb_wire lb_flushing = [] @ wi_in_flight writer3_flushing"
  by (simp_all add: writer3_flushing_def writer3_def lb_flushing_def wi_payload_def wi_inv_def
      sample_packet_payload wi_in_flight_def PollMutex_new_def lb_holder_def WriteInner_addr_def
      PacketBuffer_addr_def)

section \<open>\<open>poll_write\<close>\<close>

text \<open>
  C10. \<open>poll_write\<close> on an open connection always returns, without panic or undefined behaviour. What it
  put on the wire are complete frames of at most 65535 bytes and the sent part of the next one, in
  the order of the bytes accepted; \<open>Ready(Ok(k))\<close> means that exactly the first \<open>k\<close> bytes were
  accepted, with \<open>k > 0\<close> unless nothing was offered; and \<open>Pending\<close> means that nothing was accepted,
  except when the buffer filled up and the lock was taken: then the accepted bytes stay in the full
  buffer although the caller is not told.
\<close>

theorem poll_write_contract:
  assumes "lock_laws W m wire holder" and "write_laws W wire holder rest"
    and "wi_inv holder m this w" and "wi_state this = Writing wk st"
    and "wire w = base @ wi_in_flight this"
  shows "\<exists>r this' w' fs n. WriteInner_poll_write W this cx buf w = Some (Done r, this', w') \<and>
    n \<le> length buf \<and> proper_frames fs \<and> (\<exists>st'. wi_state this' = Writing cx st') \<and>
    (case r of
       Ready (Inl e) \<Rightarrow> conn_failed wire holder m base fs (take n buf) this w this' w'
     | Ready (Inr k) \<Rightarrow> conn_account wire holder m base fs (take n buf) this w this' w' \<and>
         k = n \<and> (buf \<noteq> [] \<longrightarrow> 0 < k)
     | Pending \<Rightarrow> conn_account wire holder m base fs (take n buf) this w this' w' \<and>
         (n = 0 \<or> wi_state this' = Writing cx Buffering \<and> PacketBuffer_is_full (wi_buffer this') \<and>
                  pm_fut (wi_write_lock this') \<noteq> None))"
proof (rule poll_write_outcome [OF assms, where cx = cx and buf = buf])
  fix r this' w' fs n
  assume "WriteInner_poll_write W this cx buf w = Some (Done r, this', w')"
    and "n \<le> length buf" and "proper_frames fs"
    and "\<And>e. r = Ready (Inl e) \<Longrightarrow> conn_failed wire holder m base fs (take n buf) this w this' w'"
    and "(\<And>e. r \<noteq> Ready (Inl e)) \<Longrightarrow> conn_account wire holder m base fs (take n buf) this w this' w'"
    and "\<And>k. r = Ready (Inr k) \<Longrightarrow> k = n \<and> (buf \<noteq> [] \<longrightarrow> 0 < k)"
    and "r = Pending \<Longrightarrow> n = 0 \<or> wi_state this' = Writing cx Buffering \<and>
           PacketBuffer_is_full (wi_buffer this') \<and> pm_fut (wi_write_lock this') \<noteq> None"
    and "\<exists>st'. wi_state this' = Writing cx st'"
  then show ?thesis
    by (intro exI [of _ r] exI [of _ this'] exI [of _ w'] exI [of _ fs] exI [of _ n])
      (auto split: poll.split sum.split)
qed

theorem poll_write_contract_witness:
  "\<exists>r this' w' fs n. WriteInner_poll_write loopback writer3_flushing (Task 1) [4, 5] lb_flushing =
      Some (Done r, this', w') \<and> n \<le> 2 \<and> proper_frames fs \<and>
    (case r of
       Ready (Inl e) \<Rightarrow> conn_failed lb_wire lb_holder 0 [] fs (take n [4, 5]) writer3_flushing lb_flushing this' w'
     | Ready (Inr k) \<Rightarrow> conn_account lb_wire lb_holder 0 [] fs (take n [4, 5]) writer3_flushing lb_flushing this' w' \<and>
         k = n \<and> 0 < k
     | Pending \<Rightarrow> True)"
proof -
  from poll_write_contract [OF loopback_lock_laws loopback_write_laws writer3_flushing_facts(3,1,4), of "Task 1" "[4, 5]"]
  obtain r this' w' fs n where "WriteInner_poll_write loopback writer3_flushing (Task 1) [4, 5] lb_flushing =
      Some (Done r, this', w')" "n \<le> length [4, 5 :: byte]" "proper_frames fs"
    "(case r of
       Ready (Inl e) \<Rightarrow> conn_failed lb_wire lb_holder 0 [] fs (take n [4, 5]) writer3_flushing lb_flushing this' w'
     | Ready (Inr k) \<Rightarrow> conn_account lb_wire lb_holder 0 [] fs (take n [4, 5]) writer3_flushing lb_flushing this' w' \<and>
         k = n \<and> ([4, 5 :: byte] \<noteq> [] \<longrightarrow> 0 < k)
     | Pending \<Rightarrow> conn_account lb_wire lb_holder 0 [] fs (take n [4, 5]) writer3_flushing lb_flushing this' w' \<and>
         (n = 0 \<or> wi_state this' = Writing (Task 1) Buffering \<and> PacketBuffer_is_full (wi_buffer this') \<and>
                  pm_fut (wi_write_lock this') \<noteq> None))" by blast
  then show ?thesis
    by (intro exI [of _ r] exI [of _ this'] exI [of _ w'] exI [of _ fs] exI [of _ n])
      (auto split: poll.splits sum.splits)
qed

section \<open>\<open>poll_flush\<close>\<close>

text \<open>
  C13. \<open>poll_flush\<close> on an open connection always returns without panic, provided the stream's own flush
  is never pending; it accepts and loses nothing, and \<open>Ready(Ok)\<close> means that every byte accepted so
  far is on the wire in complete frames, the buffer is empty and the lock is released.
\<close>

theorem poll_flush_contract:
  assumes "lock_laws W m wire holder" and "write_laws W wire holder rest" and "flush_always_ready W"
    and "wi_inv holder m this w" and "wi_state this = Writing wk st"
    and "wire w = base @ wi_in_flight this"
  shows "\<exists>r this' w' fs. WriteInner_poll_flush W this cx w = Some (Done r, this', w') \<and>
    proper_frames fs \<and> (\<exists>st'. wi_state this' = Writing cx st') \<and>
    (case r of
       Ready (Inl e) \<Rightarrow> conn_failed wire holder m base fs [] this w this' w'
     | Ready (Inr u) \<Rightarrow> conn_account wire holder m base fs [] this w this' w' \<and>
         wi_state this' = Writing cx Buffering \<and> wi_payload this' = [] \<and> concat fs = wi_payload this \<and>
         wire w' = base @ frames (tagged (WriteInner_addr this) fs)
     | Pending \<Rightarrow> conn_account wire holder m base fs [] this w this' w')"
proof (rule poll_flush_outcome [OF assms, where cx = cx])
  fix r this' w' fs
  assume out: "WriteInner_poll_flush W this cx w = Some (Done r, this', w')"
    "proper_frames fs" "\<exists>st'. wi_state this' = Writing cx st'"
    and failed: "\<And>e. r = Ready (Inl e) \<Longrightarrow> conn_failed wire holder m base fs [] this w this' w'"
    and acc: "(\<And>e. r \<noteq> Ready (Inl e)) \<Longrightarrow> conn_account wire holder m base fs [] this w this' w'"
    and ok: "r = Ready (Inr ()) \<Longrightarrow> wi_state this' = Writing cx Buffering \<and> wi_payload this' = []"
  have "concat fs = wi_payload this \<and> wire w' = base @ frames (tagged (WriteInner_addr this) fs)"
    if "r = Ready (Inr ())"
    using that acc ok by (simp add: conn_account_def wi_in_flight_def)
  then show ?thesis
    using out failed acc ok
    by (intro exI [of _ r] exI [of _ this'] exI [of _ w'] exI [of _ fs]) (auto split: poll.split sum.split)
qed

theorem poll_flush_contract_witness:
  "\<exists>r this' w'. WriteInner_poll_flush loopback writer3 (Task 1) (lb_start []) = Some (Done r, this', w') \<and>
     (case r of Ready (Inr u) \<Rightarrow> \<exists>fs. concat fs = [1, 2, 3] \<and>
        lb_wire w' = frames (tagged (WriteInner_addr writer3) fs) | _ \<Rightarrow> True)"
proof -
  have "lb_wire (lb_start []) = [] @ wi_in_flight writer3" by (simp add: lb_start_def)
  from poll_flush_contract [OF loopback_laws(1-3) writer3_facts(3,1) this, of "Task 1"] show ?thesis
    by (auto split: poll.splits sum.splits) metis+
qed

section \<open>\<open>poll_shutdown\<close>\<close>

text \<open>
  C14. \<open>poll_shutdown\<close> always returns without panic, from every state but a poisoned one. \<open>Ready(Ok)\<close>
  means that all accepted bytes are on the wire in complete frames, followed by exactly one empty
  frame that ends the connection (a call after the end adds nothing); the first call wakes the task
  that was writing.
\<close>

theorem poll_shutdown_contract:
  assumes "lock_laws W m wire holder" and "write_laws W wire holder rest"
    and "wi_inv holder m this w" and "wire w = base @ wi_in_flight this"
  shows "\<exists>r this' w' woken fs. WriteInner_poll_shutdown W this cx w = Some (Done r, this', w', woken) \<and>
    (\<exists>st'. wi_state this' = Shutdown st') \<and>
    woken = (case wi_state this of Writing wk st \<Rightarrow> [wk] | _ \<Rightarrow> []) \<and>
    (case r of
       Ready (Inl e) \<Rightarrow> conn_failed wire holder m base fs [] this w this' w'
     | Ready (Inr u) \<Rightarrow> conn_account wire holder m base fs [] this w this' w' \<and>
         wi_state this' = Shutdown ShutDone \<and>
         (wi_state this \<noteq> Shutdown ShutDone \<longrightarrow>
            (\<exists>ds. proper_frames ds \<and> fs = ds @ [[]] \<and> concat ds = wi_payload this \<and>
               wire w' = base @ frames (tagged (WriteInner_addr this) (ds @ [[]]))))
     | Pending \<Rightarrow> conn_account wire holder m base fs [] this w this' w' \<and> proper_frames fs)"
proof (rule poll_shutdown_outcome [OF assms, where cx = cx])
  fix r this' w' woken fs
  assume out: "WriteInner_poll_shutdown W this cx w = Some (Done r, this', w', woken)"
      "\<exists>st'. wi_state this' = Shutdown st'"
      "woken = (case wi_state this of Writing wk st \<Rightarrow> [wk] | _ \<Rightarrow> [])"
    and failed: "\<And>e. r = Ready (Inl e) \<Longrightarrow> conn_failed wire holder m base fs [] this w this' w'"
    and acc: "(\<And>e. r \<noteq> Ready (Inl e)) \<Longrightarrow> conn_account wire holder m base fs [] this w this' w'"
    and ok: "r = Ready (Inr ()) \<Longrightarrow> wi_state this' = Shutdown ShutDone \<and>
           (wi_state this \<noteq> Shutdown ShutDone \<longrightarrow> (\<exists>ds. proper_frames ds \<and> fs = ds @ [[]]))"
    and fs: "r \<noteq> Ready (Inr ()) \<Longrightarrow> proper_frames fs"
  have "\<exists>ds. proper_frames ds \<and> fs = ds @ [[]] \<and> concat ds = wi_payload this \<and>
               wire w' = base @ frames (tagged (WriteInner_addr this) (ds @ [[]]))"
    if r: "r = Ready (Inr ())" and "wi_state this \<noteq> Shutdown ShutDone"
  proof -
    from ok [OF r] that(2) obtain ds where ds: "proper_frames ds" "fs = ds @ [[]]" "wi_state this' = Shutdown ShutDone"
      by blast
    have a: "conn_account wire holder m base fs [] this w this' w'" by (rule acc) (simp add: r)
    then have "wi_payload this' = []" using ds(3) by (simp add: conn_account_def wi_inv_def wi_payload_def)
    with a ds show ?thesis by (auto simp: conn_account_def wi_in_flight_def)
  qed
  then show ?thesis
    using out failed acc ok fs
    by (intro exI [of _ r] exI [of _ this'] exI [of _ w'] exI [of _ woken] exI [of _ fs])
      (auto split: poll.split sum.split)
qed

theorem poll_shutdown_contract_witness:
  "\<exists>r this' w' woken. WriteInner_poll_shutdown loopback writer3 (Task 1) (lb_start []) = Some (Done r, this', w', woken) \<and>
     woken = [Noop] \<and>
     (case r of Ready (Inr u) \<Rightarrow> \<exists>ds. concat ds = [1, 2, 3] \<and>
        lb_wire w' = frames (tagged (WriteInner_addr writer3) (ds @ [[]])) | _ \<Rightarrow> True)"
proof -
  have "lb_wire (lb_start []) = [] @ wi_in_flight writer3" by (simp add: lb_start_def)
  from poll_shutdown_contract [OF loopback_laws(1-2) writer3_facts(3) this, of "Task 1"] show ?thesis
    by (auto split: poll.splits sum.splits) metis+
qed

section \<open>The lock\<close>

text \<open>
  \<open>poll_lock\<close> hands out a guard only when the mutex is free, and then remembers no future;
  otherwise it keeps its place in the queue (a stored future) and changes neither the lock nor the
  stream.
\<close>

theorem poll_lock_contract:
  assumes "lock_laws W m wire holder" and "pm_mutex self = m"
  shows "\<exists>r self' w'. PollMutex_poll_lock W self cx w = (r, self', w') \<and> pm_mutex self' = m \<and> wire w' = wire w \<and>
    (case r of
       Ready g \<Rightarrow> holder w = None \<and> holder w' = Some g \<and> pm_fut self' = None
     | Pending \<Rightarrow> holder w' = holder w \<and> pm_fut self' \<noteq> None)"
proof -
  obtain r self' w' where eq: "PollMutex_poll_lock W self cx w = (r, self', w')"
    by (metis prod_cases3)
  show ?thesis
    using poll_lock_spec [OF assms eq] eq by (cases r) (auto simp: acquires_def quiet_def)
qed

theorem poll_lock_contract_witness:
  "\<exists>r self' w'. PollMutex_poll_lock loopback (PollMutex_new 0) (Task 1) (lb_start []) = (r, self', w') \<and>
     (case r of Ready g \<Rightarrow> lb_holder w' = Some g | Pending \<Rightarrow> pm_fut self' \<noteq> None)"
proof -
  have "pm_mutex (PollMutex_new 0 :: unit poll_mutex) = 0" by (simp add: PollMutex_new_def)
  from poll_lock_contract [OF loopback_lock_laws this, of "Task 1" "lb_start []"] show ?thesis
    by (auto split: poll.splits)
qed

section \<open>The flush loop\<close>

text \<open>
  C19. \<open>flush_buf\<close> with the \<open>u32\<close> counter terminates without panic or overflow for every frame: it
  sends the bytes from the counter on, in order, counts exactly those the stream took, clears the
  buffer when the whole frame is out, and keeps the buffer and a counter below the frame's length
  otherwise.
\<close>

theorem flush_buf_contract:
  assumes "write_laws W wire holder rest" and "pb_inv b" and "holder w = Some g"
    and "wire w = base @ take (unat k) (frame (pb_socket_addr b) (payload b))"
    and "unat k \<le> MuxFrameHeader_size + length (payload b)"
  shows "\<exists>r b' k' w'. flush_buf W cx b g (CounterU32 k) w = Some (Done r, b', CounterU32 k', w') \<and>
    holder w' = Some g \<and> wire w' = base @ take (unat k') (frame (pb_socket_addr b) (payload b)) \<and>
    (if r = Ready (Inr ()) then b' = PacketBuffer_clear b \<and> unat k' = MuxFrameHeader_size + length (payload b)
     else b' = b \<and> unat k' < MuxFrameHeader_size + length (payload b))"
  by (rule flush_buf_U32 [OF assms, where cx = cx])
    (unfold flush_outcome_def Let_def length_frame, blast)

theorem flush_buf_contract_witness:
  "\<exists>r b' k' w'. flush_buf loopback (Task 1) sample_packet () (CounterU32 19) lb_flushing =
      Some (Done r, b', CounterU32 k', w') \<and> unat k' \<le> 23"
proof -
  have "lb_holder lb_flushing = Some ()"
    and "lb_wire lb_flushing = [] @ take (unat (19 :: u32)) (frame (pb_socket_addr sample_packet) (payload sample_packet))"
    and "unat (19 :: u32) \<le> 20 + length (payload sample_packet)"
    by (simp_all add: lb_flushing_def lb_holder_def WriteInner_addr_def PacketBuffer_addr_def writer3_def
        sample_packet_payload)
  from flush_buf_contract [OF loopback_write_laws sample_packet_payload(1) this, of "Task 1"] show ?thesis
    by (auto simp: sample_packet_payload split: if_splits)
qed

section \<open>Poisoned connections\<close>

text \<open>
  Whatever the stream does, a panic inside one of the three operations leaves the connection
  poisoned.
\<close>

theorem panic_poisons:
  "{this' | this' w'. WriteInner_poll_write W this cx buf w = Some (Panicked, this', w')} \<union>
   {this' | this' w'. WriteInner_poll_flush W this cx w = Some (Panicked, this', w')} \<union>
   {this' | this' w' woken. WriteInner_poll_shutdown W this cx w = Some (Panicked, this', w', woken)}
     \<subseteq> {this'. wi_state this' = Poisoned}"
  by (auto simp: WriteInner_poll_write_def WriteInner_poll_flush_def WriteInner_poll_shutdown_def
      PoisonOnPanic_new_def PoisonOnPanic_drop_def
      split: write_pipe_state.splits option.splits prod.splits run.splits)

end
