(* ===== verification/Write_End_Props.thy ===== *)
theory Write_End_Props
  imports Write_Props
begin

text \<open>
  The end of a writing connection: what dropping it does. The theory also shows the corners in which
  the code leaves its own contract: a \<open>Pending\<close> that has accepted bytes, and a drop in the middle of a shutdown.
\<close>

section \<open>Dropping an open connection\<close>

text \<open>
  C15. Dropping an open connection never panics and spawns a task that owes the stream exactly the rest
  of the frame that was partly sent, if any, and then one empty frame; data of which no byte had been
  sent is discarded. The guard, if the connection had it, goes to the task.
\<close>

theorem drop_contract:
  assumes "lock_laws W m wire holder" and "wi_inv holder m self w" and "wi_state self = Writing wk st"
    and "wire w = base @ wi_in_flight self"
  shows "\<exists>t w'. WriteInner_drop W self w = (Done (Some t), w') \<and> task_inv holder m t w' \<and>
    lock_view wire holder (own st) w (task_guard t) w' \<and> wire w' = wire w \<and>
    wire w' @ task_rest rest t = base @ frames (tagged (WriteInner_addr self)
      ((if wi_in_flight self = [] then [] else [wi_payload self]) @ [[]]))"
  by (rule drop_outcome [OF assms, where rest = rest]) blast

theorem drop_contract_witness:
  "\<exists>t w'. WriteInner_drop loopback writer3_flushing lb_flushing = (Done (Some t), w') \<and>
     lb_wire w' @ task_rest id t = frames (tagged (WriteInner_addr writer3_flushing) [[1, 2, 3], []])"
proof -
  have "length (wi_in_flight writer3_flushing) = 19"
    using arg_cong [OF writer3_flushing_facts(4), of length] by (simp add: lb_flushing_def)
  then have "wi_in_flight writer3_flushing \<noteq> []" by auto
  with drop_contract [OF loopback_lock_laws writer3_flushing_facts(3,1,4), of id] show ?thesis by auto
qed

text \<open>
  C16. Every poll of that task sends a further piece of what it owes, in order, holding the lock from
  the first byte to the last; while it is pending it owes exactly the rest, and when it ends on a
  stream that does not fail, it owes nothing and has released the lock.
\<close>

theorem drop_task_contract:
  assumes "lock_laws W m wire holder" and "write_laws W wire holder rest" and "task_inv holder m t w"
  shows "\<exists>r t' w' bs. drop_task_poll W t cx w = (r, t', w') \<and> task_inv holder m t' w' \<and>
    lock_view wire holder (task_guard t) w (task_guard t') w' \<and>
    wire w' = wire w @ bs \<and> prefix bs (task_rest rest t) \<and>
    (r = Pending \<or> write_all_reliable W \<longrightarrow> task_rest rest t = bs @ task_rest rest t') \<and>
    (r = Ready () \<longrightarrow> t' = TaskDone)"
proof -
  obtain r t' w' where eq: "drop_task_poll W t cx w = (r, t', w')"
    by (metis prod_cases3)
  then show ?thesis
    using drop_task_poll_step [OF assms, of cx] by (auto simp: task_step_def)
qed

theorem drop_task_contract_witness:
  "\<exists>r t' w' bs. drop_task_poll loopback (TaskStart (DropToken (PollMutex_new 0)) addr0) (Task 1) (lb_start []) =
      (r, t', w') \<and> lb_wire w' = bs \<and> frame addr0 [] = bs @ task_rest id t'"
proof -
  have "task_inv lb_holder 0 (TaskStart (DropToken (PollMutex_new 0)) addr0 :: (unit, unit, byte list) drop_task) (lb_start [])"
    by (simp add: task_inv_def PollMutex_new_def)
  from drop_task_contract [OF loopback_laws(1,2) this, of "Task 1"] loopback_reliable show ?thesis
    by (auto simp: lb_start_def)
qed

section \<open>Corners of the contract\<close>

text \<open>
  C36. When the buffer fills up and the lock is taken, \<open>poll_write\<close> answers \<open>Pending\<close> although it has
  accepted the bytes that filled the buffer: a caller that offers the same bytes again, as the
  contract of \<open>AsyncWrite\<close> tells it to, sends them twice.
\<close>

theorem poll_write_pending_accepts:
  assumes inv: "pb_inv (wi_buffer this)" and open_pipe: "wi_state this = Writing wk Buffering"
    and room: "length (wi_payload this) < 65535" "65535 < length (wi_payload this) + length buf"
    and taken: "PollMutex_poll_lock W (wi_write_lock this) cx w = (Pending, lk, w')"
  shows "\<exists>this'. WriteInner_poll_write W this cx buf w = Some (Done Pending, this', w') \<and>
    wi_payload this' = wi_payload this @ take (65535 - length (wi_payload this)) buf \<and>
    wi_payload this' \<noteq> wi_payload this"
proof -
  let ?b = "wi_buffer this" and ?lk = "wi_write_lock this"
  have not_full: "\<not> PacketBuffer_is_full ?b"
    using room(1) by (simp add: is_full_payload [OF inv] wi_payload_def)
  obtain n b' where push: "PacketBuffer_push ?b buf 0 = Done (n, b')"
    and n: "unat n = min (length buf) (push_room (payload ?b) 0)" and b': "pb_inv b'"
    and p: "payload b' = payload ?b @ take (unat n) buf"
    by (rule push_spec [OF inv])
  have n': "unat n = 65535 - length (wi_payload this)" "unat n < length buf"
    using n room by (auto simp: push_room_def wi_payload_def)
  have full: "PacketBuffer_is_full b'"
    using n' room p by (simp add: is_full_payload [OF b'] wi_payload_def)
  have "poll_write_loop W cx Buffering ?lk b' (drop (unat n) buf) (0 + unat n) w =
      Some (Done Pending, Buffering, lk, b', w')"
    using n'(2) full taken by (subst poll_write_loop.simps) (simp add: poll_locked_def)
  then have "poll_write_loop W cx Buffering ?lk ?b buf 0 w = Some (Done Pending, Buffering, lk, b', w')"
    using not_full push n'(2) by (subst poll_write_loop.simps) auto
  then have "WriteInner_poll_write W this cx buf w = Some (Done Pending,
      this\<lparr>wi_write_lock := lk, wi_state := Writing cx Buffering, wi_buffer := b'\<rparr>, w')"
    using open_pipe by (simp add: WriteInner_poll_write_def PoisonOnPanic_new_def PoisonOnPanic_drop_def)
  then show ?thesis
    using p n' room by (auto simp: wi_payload_def)
qed

text \<open>A buffer with room for one more byte, and the lock with another connection.\<close>

definition brim_writer :: "(unit, unit) write_inner" where
  "brim_writer = writer0\<lparr>wi_buffer :=
     \<lparr>pb_socket_addr = addr0, pb_len = NetworkOrderU16_new 65534,
      pb_data = (\<lambda>i. if i < 65534 then Some 0 else None)\<rparr>\<rparr>"

lemma brim_writer_payload: "pb_inv (wi_buffer brim_writer)" "wi_payload brim_writer = replicate 65534 0"
proof -
  have "mem_read (pb_data (wi_buffer brim_writer)) 0
      (unat (NetworkOrderU16_get (pb_len (wi_buffer brim_writer)))) = Some (replicate 65534 0)"
    by (simp add: brim_writer_def mem_read_Some_iff)
  then show "pb_inv (wi_buffer brim_writer)" "wi_payload brim_writer = replicate 65534 0"
    unfolding wi_payload_def by (rule payloadI)+
qed

theorem poll_write_pending_accepts_witness:
  "\<exists>this'. WriteInner_poll_write loopback brim_writer (Task 1) [1, 2] lb_flushing = Some (Done Pending, this', lb_flushing) \<and>
     wi_payload this' = replicate 65534 0 @ [1]"
proof -
  have 1: "wi_state brim_writer = Writing Noop Buffering"
    "length (wi_payload brim_writer) < 65535" "65535 < length (wi_payload brim_writer) + length [1, 2 :: byte]"
    unfolding brim_writer_payload(2) by (simp_all add: brim_writer_def)
  have 2: "PollMutex_poll_lock loopback (wi_write_lock brim_writer) (Task 1) lb_flushing =
      (Pending, \<lparr>pm_mutex = 0, pm_fut = Some ()\<rparr>, lb_flushing)"
    by (simp add: brim_writer_def PollMutex_poll_lock_def PollMutex_poll_fut_def loopback_def PollMutex_new_def
        lb_try_lock_def lb_poll_lock_def lb_flushing_def)
  from poll_write_pending_accepts [OF brim_writer_payload(1) 1 2] show ?thesis
    unfolding brim_writer_payload(2) by auto
qed

text \<open>
  C40. A connection dropped in the middle of a shutdown spawns no task: a frame of which \<open>k\<close> bytes are on
  the wire stays cut off there, while the lock is released for the next connection to write.
\<close>

theorem drop_in_shutdown_truncates:
  assumes locks: "lock_laws W m wire holder" and inv: "wi_inv holder m self w"
    and closing: "wi_state self = Shutdown (ShutFlushing g k)"
    and wire: "wire w = base @ wi_in_flight self"
  shows "\<exists>w'. WriteInner_drop W self w = (Done None, w') \<and> holder w' = None \<and>
    wire w' = base @ take (unat k) (frame (WriteInner_addr self) (wi_payload self)) \<and>
    unat k < length (frame (WriteInner_addr self) (wi_payload self))"
proof -
  have g: "holder w = Some g" and k: "unat k < 20 + length (wi_payload self)"
    using inv closing by (simp_all add: wi_inv_def wi_payload_def)
  let ?w1 = "drop_guard W g w" and ?f = "pm_fut (wi_write_lock self)"
  have d: "WriteInner_drop W self w = (Done None, drop_fut_opt W ?f ?w1)"
    using closing by (simp add: WriteInner_drop_def Let_def drop_state_def)
  have "holder (drop_fut_opt W ?f ?w1) = None" "wire (drop_fut_opt W ?f ?w1) = wire w"
    using lock_lawsD(8,9) [OF locks g] drop_fut_opt_quiet [OF locks, of ?w1 ?f] by (simp_all add: quiet_def)
  with d k wire closing show ?thesis
    by (simp add: wi_in_flight_def WriteInner_addr_def PacketBuffer_addr_def wi_payload_def)
qed

theorem drop_in_shutdown_truncates_witness:
  "\<exists>w'. WriteInner_drop loopback (writer3_flushing\<lparr>wi_state := Shutdown (ShutFlushing () 19)\<rparr>) lb_flushing =
      (Done None, w') \<and> lb_holder w' = None \<and> length (lb_wire w') = 19"
proof -
  let ?self = "writer3_flushing\<lparr>wi_state := Shutdown (ShutFlushing () 19)\<rparr>"
  have "wi_inv lb_holder 0 ?self lb_flushing" and "lb_wire lb_flushing = [] @ wi_in_flight ?self"
    using writer3_flushing_facts(3,4) by (simp_all add: wi_inv_def wi_in_flight_def)
  from drop_in_shutdown_truncates [OF loopback_lock_laws this(1) _ this(2), of "()" 19] show ?thesis
    by auto
qed

end
