(* ===== verification/Shared_Wire.thy ===== *)
theory Shared_Wire
  imports Write_Drop
begin

text \<open>
  Many writers on one stream. The theory has no model of its own: it states what the writers of
  \<open>src/write.rs\<close> promise each other as the locale \<open>shared_wire\<close>, and proves once that any interleaving
  of writers that keep the promise puts nothing but whole frames on the wire. \<open>Write_System\<close>
  interprets the locale on the connections, handshakes and drop tasks of the model.
\<close>

section \<open>Systems of writers\<close>

text \<open>
  The writers, the world they share, and the history of each: \<open>act c w ev c' w'\<close> is a step of a writer
  that adds \<open>ev\<close> to its history.
\<close>

record ('c, 'w, 'e) sys =
  sy_actors :: "nat \<rightharpoonup> 'c"
  sy_world :: 'w
  sy_events :: "nat \<Rightarrow> 'e list"

inductive sys_step ::
  "('c \<Rightarrow> 'w \<Rightarrow> 'e list \<Rightarrow> 'c \<Rightarrow> 'w \<Rightarrow> bool) \<Rightarrow> ('c \<Rightarrow> bool) \<Rightarrow> ('c, 'w, 'e) sys \<Rightarrow> ('c, 'w, 'e) sys \<Rightarrow> bool"
  for act fresh where
  new_actor: "sy_actors S i = None \<Longrightarrow> fresh c \<Longrightarrow>
    sys_step act fresh S (S\<lparr>sy_actors := (sy_actors S)(i \<mapsto> c), sy_events := (sy_events S)(i := [])\<rparr>)"
| actor_acts: "sy_actors S i = Some c \<Longrightarrow> act c (sy_world S) ev c' w' \<Longrightarrow>
    sys_step act fresh S (S\<lparr>sy_actors := (sy_actors S)(i \<mapsto> c'), sy_world := w',
                             sy_events := (sy_events S)(i := sy_events S i @ ev)\<rparr>)"

definition sys_start :: "'w \<Rightarrow> ('c, 'w, 'e) sys" where
  "sys_start w = \<lparr>sy_actors = Map.empty, sy_world = w, sy_events = (\<lambda>i. [])\<rparr>"

text \<open>A log of frames by the number of their writer, the share of one writer, and its bytes.\<close>

type_synonym frame_log = "(nat \<times> byte list) list"

definition share :: "nat \<Rightarrow> frame_log \<Rightarrow> byte list list" where
  "share i F = map snd (filter (\<lambda>f. fst f = i) F)"

definition log_bytes :: "('c \<Rightarrow> socket_addr) \<Rightarrow> (nat \<rightharpoonup> 'c) \<Rightarrow> frame_log \<Rightarrow> byte list" where
  "log_bytes addr cs F = frames (map (\<lambda>(i, p). (addr (the (cs i)), p)) F)"

lemma share_simps [simp]:
  "share i [] = []" "share i (F @ G) = share i F @ share i G"
  "share i (map (Pair i) fs) = fs"
  by (simp_all add: share_def filter_map o_def)

lemma share_other [simp]: "i \<noteq> j \<Longrightarrow> share j (map (Pair i) fs) = []"
  by (simp add: share_def filter_map o_def)

lemma share_none: "i \<notin> fst ` set F \<Longrightarrow> share i F = []"
  by (auto simp: share_def filter_empty_conv)

lemma log_bytes_append [simp]: "log_bytes addr cs (F @ G) = log_bytes addr cs F @ log_bytes addr cs G"
  by (simp add: log_bytes_def)

lemma log_bytes_one:
  assumes "cs i = Some c"
  shows "log_bytes addr cs (map (Pair i) fs) = frames (tagged (addr c) fs)"
  using assms by (simp add: log_bytes_def o_def)

lemma log_bytes_update:
  assumes "i \<in> fst ` set F \<Longrightarrow> \<exists>c. cs i = Some c \<and> addr c' = addr c"
  shows "log_bytes addr (cs(i \<mapsto> c')) F = log_bytes addr cs F"
  unfolding log_bytes_def using assms by (intro arg_cong [of _ _ frames] map_cong) force+

lemma frames_tagged_Nil: "frames (tagged a fs) = [] \<Longrightarrow> fs = []"
  by (cases fs) (auto simp: frame_def MuxFrameHeader_bytes_def SocketAddr_bytes_def NetworkOrderU16_bytes_def)

section \<open>The contract\<close>

text \<open>
  A writer holds the lock as long as \<open>guard\<close> says, and only then has a part \<open>bs\<close> of its frames on the
  wire; its state makes sense of what it has sent, \<open>fs\<close>, and of its history (\<open>ok\<close>). A step sends whole
  frames and a new part, and obeys the lock.
\<close>

locale shared_wire =
  fixes wire :: "'w \<Rightarrow> byte list" and holder :: "'w \<Rightarrow> 'g option"
    and guard :: "'c \<Rightarrow> 'g option" and addr :: "'c \<Rightarrow> socket_addr"
    and ok :: "'c \<Rightarrow> 'w \<Rightarrow> byte list \<Rightarrow> byte list list \<Rightarrow> 'e list \<Rightarrow> bool"
    and act :: "'c \<Rightarrow> 'w \<Rightarrow> 'e list \<Rightarrow> 'c \<Rightarrow> 'w \<Rightarrow> bool" and fresh :: "'c \<Rightarrow> bool"
  assumes fresh_ok: "fresh c \<Longrightarrow> guard c = None \<and> ok c w [] [] []"
    and ok_guard: "ok c w bs fs es \<Longrightarrow> guard c \<noteq> None \<Longrightarrow> holder w = guard c"
    and ok_unlocked: "ok c w bs fs es \<Longrightarrow> guard c = None \<Longrightarrow> bs = [] \<and> ok c w' bs fs es"
    and act_ok: "act c w ev c' w' \<Longrightarrow> ok c w bs fs es \<Longrightarrow> wire w = base @ bs \<Longrightarrow>
      \<exists>gs bs'. ok c' w' bs' (fs @ gs) (es @ ev) \<and> wire w' = base @ frames (tagged (addr c) gs) @ bs' \<and>
        lock_view wire holder (guard c) w (guard c') w' \<and> addr c' = addr c \<and> (\<forall>p \<in> set gs. length p \<le> 65535)"
    and ok_frame: "ok c w bs fs es \<Longrightarrow> holder w' = holder w \<Longrightarrow> ok c w' bs fs es"
begin

text \<open>The wire holds the frames of the log and then the part \<open>bs\<close> of the writer that has the lock.\<close>

definition framed :: "frame_log \<Rightarrow> byte list \<Rightarrow> ('c, 'w, 'e) sys \<Rightarrow> bool" where
  "framed F bs S \<longleftrightarrow>
     wire (sy_world S) = log_bytes addr (sy_actors S) F @ bs \<and>
     fst ` set F \<subseteq> dom (sy_actors S) \<and> (\<forall>f \<in> set F. length (snd f) \<le> 65535) \<and>
     (\<forall>i c. sy_actors S i = Some c \<longrightarrow>
        ok c (sy_world S) (if guard c = None then [] else bs) (share i F) (sy_events S i)) \<and>
     (\<forall>i j c d. sy_actors S i = Some c \<longrightarrow> sy_actors S j = Some d \<longrightarrow> guard c \<noteq> None \<longrightarrow> guard d \<noteq> None \<longrightarrow> i = j) \<and>
     (holder (sy_world S) = None \<longrightarrow> bs = []) \<and>
     (holder (sy_world S) \<noteq> None \<longrightarrow> (\<exists>i c. sy_actors S i = Some c \<and> guard c = holder (sy_world S)))"

lemma framedD:
  assumes "framed F bs S"
  shows "wire (sy_world S) = log_bytes addr (sy_actors S) F @ bs"
    and "f \<in> set F \<Longrightarrow> fst f \<in> dom (sy_actors S) \<and> length (snd f) \<le> 65535"
    and "sy_actors S i = Some c \<Longrightarrow> ok c (sy_world S) (if guard c = None then [] else bs) (share i F) (sy_events S i)"
    and "sy_actors S i = Some c \<Longrightarrow> sy_actors S j = Some d \<Longrightarrow> guard c \<noteq> None \<Longrightarrow> guard d \<noteq> None \<Longrightarrow> i = j"
    and "holder (sy_world S) = None \<Longrightarrow> bs = []"
    and "holder (sy_world S) \<noteq> None \<Longrightarrow> \<exists>i c. sy_actors S i = Some c \<and> guard c = holder (sy_world S)"
  using assms unfolding framed_def by blast+

lemma start_framed:
  assumes "wire w = []" and "holder w = None"
  shows "framed [] [] (sys_start w)"
  using assms by (simp add: framed_def sys_start_def log_bytes_def)

lemma new_framed:
  assumes "framed F bs S" and "sy_actors S i = None" and "fresh c"
  shows "framed F bs (S\<lparr>sy_actors := (sy_actors S)(i \<mapsto> c), sy_events := (sy_events S)(i := [])\<rparr>)"
proof -
  have i: "i \<notin> fst ` set F" using framedD(2) [OF assms(1)] assms(2) by fastforce
  then have "log_bytes addr ((sy_actors S)(i \<mapsto> c)) F = log_bytes addr (sy_actors S) F"
    by (intro log_bytes_update) simp
  moreover have "share i F = []" using i by (rule share_none)
  moreover have "\<exists>j d. ((sy_actors S)(i \<mapsto> c)) j = Some d \<and> guard d = holder (sy_world S)" if "holder (sy_world S) \<noteq> None"
    using framedD(6) [OF assms(1) that] assms(2) by (metis fun_upd_other option.distinct(1))
  ultimately show ?thesis
    using assms(1) fresh_ok [OF assms(3)] assms(2) unfolding framed_def by auto
qed

text \<open>The step of a writer that meets the lock in the hand of another sends nothing.\<close>

lemma blocked_framed:
  assumes fr: "framed F bs S" and c: "sy_actors S i = Some c" and a: "act c (sy_world S) ev c' w'"
    and blocked: "holder (sy_world S) \<noteq> guard c"
  shows "framed F bs (S\<lparr>sy_actors := (sy_actors S)(i \<mapsto> c'), sy_world := w',
    sy_events := (sy_events S)(i := sy_events S i @ ev)\<rparr>)"
proof -
  let ?w = "sy_world S"
  note okc = framedD(3) [OF fr c]
  have g: "guard c = None" using ok_guard [OF okc] blocked by blast
  from act_ok [OF a okc, of "wire ?w"] g obtain gs bs' where step: "ok c' w' bs' (share i F @ gs) (sy_events S i @ ev)"
    "wire w' = wire ?w @ frames (tagged (addr c) gs) @ bs'" "lock_view wire holder None ?w (guard c') w'" "addr c' = addr c"
    by auto
  from step(3) blocked g have view: "guard c' = None" "holder w' = holder ?w" "wire w' = wire ?w"
    by (auto simp: lock_view_def)
  with step(2) have gs: "gs = []" "bs' = []" using frames_tagged_Nil by auto
  have log: "log_bytes addr ((sy_actors S)(i \<mapsto> c')) F = log_bytes addr (sy_actors S) F"
    by (rule log_bytes_update) (use c step(4) in auto)
  have others: "ok d w' (if guard d = None then [] else bs) (share j F) (sy_events S j)"
    if "sy_actors S j = Some d" for j d
    by (rule ok_frame [OF framedD(3) [OF fr that] view(2)])
  have held: "\<exists>j d. ((sy_actors S)(i \<mapsto> c')) j = Some d \<and> guard d = holder w'"
  proof -
    from framedD(6) [OF fr] blocked g obtain j d where "sy_actors S j = Some d" "guard d = holder ?w" by auto
    moreover from this c g blocked have "j \<noteq> i" by auto
    ultimately show ?thesis using view(2) by auto
  qed
  have dom: "fst ` set F \<subseteq> dom ((sy_actors S)(i \<mapsto> c'))" using framedD(2) [OF fr] by auto
  show ?thesis
    unfolding framed_def using dom framedD(1,4,5) [OF fr] framedD(2) [OF fr] log others held step(1) view gs blocked g
    by (intro conjI; simp)
qed

text \<open>The step of a writer that has the lock, or finds it free.\<close>

lemma holder_framed:
  assumes fr: "framed F bs S" and c: "sy_actors S i = Some c" and a: "act c (sy_world S) ev c' w'"
    and free: "holder (sy_world S) = guard c"
  shows "\<exists>G bs'. framed (F @ G) bs' (S\<lparr>sy_actors := (sy_actors S)(i \<mapsto> c'), sy_world := w',
    sy_events := (sy_events S)(i := sy_events S i @ ev)\<rparr>)"
proof -
  let ?w = "sy_world S"
  have bs: "(if guard c = None then [] else bs) = bs" using framedD(5) [OF fr] free by auto
  note okc = framedD(3) [OF fr c, unfolded bs]
  from act_ok [OF a okc framedD(1) [OF fr]] obtain gs bs' where step: "ok c' w' bs' (share i F @ gs) (sy_events S i @ ev)"
    "wire w' = log_bytes addr (sy_actors S) F @ frames (tagged (addr c) gs) @ bs'"
    "lock_view wire holder (guard c) ?w (guard c') w'" "addr c' = addr c" "\<forall>p \<in> set gs. length p \<le> 65535"
    by auto
  from step(3) free have view: "holder w' = guard c'" by (simp add: lock_view_def)
  have log: "log_bytes addr ((sy_actors S)(i \<mapsto> c')) F = log_bytes addr (sy_actors S) F"
    by (rule log_bytes_update) (use c step(4) in auto)
  have log': "log_bytes addr ((sy_actors S)(i \<mapsto> c')) (map (Pair i) gs) = frames (tagged (addr c) gs)"
    using step(4) by (simp add: log_bytes_one)
  have idle: "guard d = None" if "sy_actors S j = Some d" "j \<noteq> i" for j d
    using that framedD(3,4) [OF fr] c free ok_guard by metis
  have others: "ok d w' [] (share j F) (sy_events S j)" if "sy_actors S j = Some d" "j \<noteq> i" for j d
    using framedD(3) [OF fr that(1)] idle [OF that] ok_unlocked by simp
  have part: "guard c' = None \<Longrightarrow> bs' = []" using ok_unlocked [OF step(1)] by simp
  have "framed (F @ map (Pair i) gs) bs' (S\<lparr>sy_actors := (sy_actors S)(i \<mapsto> c'), sy_world := w',
    sy_events := (sy_events S)(i := sy_events S i @ ev)\<rparr>)"
    unfolding framed_def using framedD(2) [OF fr] step log log' view idle others part c
    by (auto simp: image_image)
  then show ?thesis by blast
qed

lemma step_framed:
  assumes "sys_step act fresh S S'" and "framed F bs S"
  shows "\<exists>G bs'. framed (F @ G) bs' S'"
  using assms(1)
proof (cases rule: sys_step.cases)
  case (new_actor i c)
  with new_framed [OF assms(2)] show ?thesis by (metis append_Nil2)
next
  case (actor_acts i c ev c' w')
  with blocked_framed [OF assms(2)] holder_framed [OF assms(2)] show ?thesis
    by (metis append_Nil2)
qed

text \<open>Reachable systems are framed, and a log only grows.\<close>

lemma reach_framed:
  assumes "(sys_step act fresh)\<^sup>*\<^sup>* S S'" and "framed F bs S"
  shows "\<exists>G bs'. framed (F @ G) bs' S'"
  using assms
proof (induction rule: rtranclp_induct)
  case base
  then show ?case by (metis append_Nil2)
next
  case (step S1 S2)
  then show ?case using step_framed [OF step(2)] by (metis append.assoc)
qed

lemma run_framed:
  assumes "(sys_step act fresh)\<^sup>*\<^sup>* (sys_start w) S" and "wire w = []" and "holder w = None"
  shows "\<exists>F bs. framed F bs S"
  using reach_framed [OF assms(1) start_framed [OF assms(2,3)]] by auto

end

end
