(* ===== verification/Write_System.thy ===== *)
theory Write_System
  imports Shared_Wire
begin

text \<open>
  All writers of one stream, as \<open>src/write.rs\<close> runs them: open connections, handshakes in progress and
  the tasks of dropped connections, interleaved in any order. The steps are calls of the model.
  Left out are what breaks the frames on the wire for good: calls that end in an I/O error, because after a failed write the stream is
  lost; a handshake that is given up before it is done; and a drop in the middle of a shutdown that has the lock. The last two leave a truncated
  frame, which is shown where handshakes and drops are.
  \<open>wire_system\<close> interprets \<open>shared_wire\<close> on them.
\<close>

section \<open>Writers\<close>

text \<open>
  A writer is new, shakes hands, is open (the flag says whether it shook hands, or was accepted), or has
  been dropped and is a task or gone.
\<close>

datatype ('g, 'f, 'a) actor =
    ActNew "('g, 'f) write_inner"
  | ActShake "('g, 'f) write_inner" "('g, 'f, 'a) handshake_fut"
  | ActConn bool "('g, 'f) write_inner"
  | ActTask bool socket_addr "('g, 'f, 'a) drop_task"
  | ActGone bool socket_addr

fun actor_addr :: "('g, 'f, 'a) actor \<Rightarrow> socket_addr" where
  "actor_addr (ActNew c) = WriteInner_addr c"
| "actor_addr (ActShake c h) = WriteInner_addr c"
| "actor_addr (ActConn i c) = WriteInner_addr c"
| "actor_addr (ActTask i a t) = a"
| "actor_addr (ActGone i a) = a"

fun actor_guard :: "('g, 'f, 'a) actor \<Rightarrow> 'g option" where
  "actor_guard (ActShake c h) = handshake_guard h"
| "actor_guard (ActConn i c) = state_guard (wi_state c)"
| "actor_guard (ActTask i a t) = task_guard t"
| "actor_guard _ = None"

text \<open>
  The frames of one connection: the empty frame of the handshake if it made one, data frames, and when
  it has been closed one more empty frame.
\<close>

definition session :: "bool \<Rightarrow> byte list list \<Rightarrow> bool" where
  "session i fs \<longleftrightarrow> (\<exists>ds. fs = (if i then [[]] else []) @ ds \<and> proper_frames ds)"

definition ended_session :: "bool \<Rightarrow> byte list list \<Rightarrow> bool" where
  "ended_session i fs \<longleftrightarrow> (\<exists>ds. fs = ds @ [[]] \<and> session i ds)"

lemma session_simps [simp]: "session False []" "session True [[]]"
  by (simp_all add: session_def)

lemma session_append: "session i fs \<Longrightarrow> proper_frames gs \<Longrightarrow> session i (fs @ gs)"
  by (auto simp: session_def)

text \<open>
  What is known of each write: the bytes that were offered, the answer, and whether the call left the
  connection waiting for the lock (a pending future in its \<open>PollMutex\<close>).
\<close>

type_synonym offer = "byte list \<times> nat io_result poll \<times> bool"

text \<open>
  \<open>accepted es bs\<close>: the bytes \<open>bs\<close> are what was accepted of the offers \<open>es\<close>, a prefix of each: exactly
  \<open>k\<close> bytes of one that was answered \<open>Ready(Ok(k))\<close>, and none of one that was answered \<open>Pending\<close> unless the connection
  had to wait for the lock.
\<close>

inductive accepted :: "offer list \<Rightarrow> byte list \<Rightarrow> bool" where
  accepted_Nil: "accepted [] []"
| accepted_snoc: "accepted es bs \<Longrightarrow> n \<le> length buf \<Longrightarrow> (\<forall>k. r = Ready (Inr k) \<longrightarrow> n = k) \<Longrightarrow>
    (r = Pending \<longrightarrow> \<not> waits \<longrightarrow> n = 0) \<Longrightarrow> accepted (es @ [(buf, r, waits)]) (bs @ take n buf)"

lemma accepted_NilD: "accepted [] bs \<Longrightarrow> bs = []"
  by (cases rule: accepted.cases) auto

text \<open>
  The steps of one writer, with the offers they make. \<open>do_forget\<close> is the drop of a connection whose shutdown does not have the
  lock: it is done, or still waits for it.
\<close>

inductive actor_step ::
  "('w, 'g, 'f, 'a) writer_api \<Rightarrow> ('g, 'f, 'a) actor \<Rightarrow> 'w \<Rightarrow> offer list \<Rightarrow> ('g, 'f, 'a) actor \<Rightarrow> 'w \<Rightarrow> bool"
  for W where
  do_write: "WriteInner_poll_write W c cx buf w = Some (Done r, c', w') \<Longrightarrow> \<forall>e. r \<noteq> Ready (Inl e) \<Longrightarrow>
    actor_step W (ActConn i c) w [(buf, r, pm_fut (wi_write_lock c') \<noteq> None)] (ActConn i c') w'"
| do_flush: "WriteInner_poll_flush W c cx w = Some (Done q, c', w') \<Longrightarrow> \<forall>e. q \<noteq> Ready (Inl e) \<Longrightarrow>
    actor_step W (ActConn i c) w [] (ActConn i c') w'"
| do_shutdown: "WriteInner_poll_shutdown W c cx w = Some (Done q, c', w', wk) \<Longrightarrow> \<forall>e. q \<noteq> Ready (Inl e) \<Longrightarrow>
    actor_step W (ActConn i c) w [] (ActConn i c') w'"
| do_drop: "WriteInner_drop W c w = (Done (Some t), w') \<Longrightarrow>
    actor_step W (ActConn i c) w [] (ActTask i (WriteInner_addr c) t) w'"
| do_forget: "WriteInner_drop W c w = (Done None, w') \<Longrightarrow> state_guard (wi_state c) = None \<Longrightarrow>
    actor_step W (ActConn i c) w [] (ActGone i (WriteInner_addr c)) w'"
| do_accept: "actor_step W (ActNew c) w [] (ActConn False c) w"
| do_handshake: "WriteInner_handshake W c w = Done (h, c', w') \<Longrightarrow> actor_step W (ActNew c) w [] (ActShake c' h) w'"
| do_shaking: "WriteInner_handshake_poll W c h cx w = (Done Pending, h', w') \<Longrightarrow>
    actor_step W (ActShake c h) w [] (ActShake c h') w'"
| do_shaken: "WriteInner_handshake_poll W c h cx w = (Done (Ready (Inr ())), h', w') \<Longrightarrow>
    actor_step W (ActShake c h) w [] (ActConn True c) w'"
| do_task: "drop_task_poll W t cx w = (u, t', w') \<Longrightarrow> actor_step W (ActTask i a t) w [] (ActTask i a t') w'"

text \<open>A new writer, as \<open>make_writer\<close> builds it on mutex \<open>m\<close>.\<close>

definition fresh_actor :: "nat \<Rightarrow> ('g, 'f, 'a) actor \<Rightarrow> bool" where
  "fresh_actor m c \<longleftrightarrow> (\<exists>u a. c = ActNew (box_new WriteInner_init u (a, PollMutex_new m)))"

text \<open>What the writers rely on: the laws of mutex and stream, on a stream that does not fail.\<close>

definition wire_laws ::
  "('w, 'g, 'f, 'a) writer_api \<Rightarrow> nat \<Rightarrow> ('w \<Rightarrow> byte list) \<Rightarrow> ('w \<Rightarrow> 'g option) \<Rightarrow> ('a \<Rightarrow> byte list) \<Rightarrow> bool" where
  "wire_laws W m wire holder rest \<longleftrightarrow> lock_laws W m wire holder \<and> write_laws W wire holder rest \<and>
     flush_always_ready W \<and> write_all_reliable W"

definition actor_act ::
  "('w, 'g, 'f, 'a) writer_api \<Rightarrow> nat \<Rightarrow> ('w \<Rightarrow> byte list) \<Rightarrow> ('w \<Rightarrow> 'g option) \<Rightarrow> ('a \<Rightarrow> byte list) \<Rightarrow>
     ('g, 'f, 'a) actor \<Rightarrow> 'w \<Rightarrow> offer list \<Rightarrow> ('g, 'f, 'a) actor \<Rightarrow> 'w \<Rightarrow> bool" where
  "actor_act W m wire holder rest c w ev c' w' \<longleftrightarrow> wire_laws W m wire holder rest \<and> actor_step W c w ev c' w'"

lemma actor_act_step: "wire_laws W m wire holder rest \<Longrightarrow> actor_act W m wire holder rest = actor_step W"
  by (simp add: actor_act_def fun_eq_iff)

text \<open>
  The account of a writer that has sent the frames \<open>fs\<close> and then the part \<open>bs\<close>: an open connection still
  has in its buffer what it accepted beyond them; a handshake is sending one empty frame; a task
  is sending the frames \<open>ps\<close>, which end the session, and gives up the bytes \<open>lost\<close>; so does a connection
  that was dropped while its shutdown waited for the lock, but not one that was dropped after it.
\<close>

fun actor_ok ::
  "nat \<Rightarrow> ('w \<Rightarrow> 'g option) \<Rightarrow> ('a \<Rightarrow> byte list) \<Rightarrow> ('g, 'f, 'a) actor \<Rightarrow> 'w \<Rightarrow> byte list \<Rightarrow> byte list list \<Rightarrow>
     offer list \<Rightarrow> bool" where
  "actor_ok m holder rest (ActNew c) w bs fs es \<longleftrightarrow>
     wi_inv holder m c w \<and> wi_state c = Writing Noop Buffering \<and> wi_payload c = [] \<and> bs = [] \<and> fs = [] \<and> es = []"
| "actor_ok m holder rest (ActShake c h) w bs fs es \<longleftrightarrow>
     wi_inv holder m c w \<and> wi_state c = Writing Noop Buffering \<and> wi_payload c = [] \<and> fs = [] \<and> es = [] \<and>
     h \<noteq> HandshakeDone \<and> (handshake_guard h = None \<or> holder w = handshake_guard h) \<and>
     bs @ handshake_rest rest (WriteInner_addr c) h = frame (WriteInner_addr c) []"
| "actor_ok m holder rest (ActConn i c) w bs fs es \<longleftrightarrow>
     wi_inv holder m c w \<and> bs = wi_in_flight c \<and> accepted es (concat fs @ wi_payload c) \<and>
     (if wi_state c = Shutdown ShutDone then ended_session i fs else session i fs)"
| "actor_ok m holder rest (ActTask i a t) w bs fs es \<longleftrightarrow>
     task_inv holder m t w \<and> (task_guard t = None \<longrightarrow> bs = []) \<and>
     (\<exists>ps lost. bs @ task_rest rest t = frames (tagged a ps) \<and> accepted es (concat fs @ concat ps @ lost) \<and>
        (\<forall>p \<in> set ps. length p \<le> 65535) \<and> ended_session i (fs @ ps))"
| "actor_ok m holder rest (ActGone i a) w bs fs es \<longleftrightarrow> bs = [] \<and>
     (\<exists>lost. accepted es (concat fs @ lost) \<and> (session i fs \<or> ended_session i fs \<and> lost = []))"

text \<open>The conclusion of one step, as the locale asks for it.\<close>

definition step_ok ::
  "nat \<Rightarrow> ('w \<Rightarrow> byte list) \<Rightarrow> ('w \<Rightarrow> 'g option) \<Rightarrow> ('a \<Rightarrow> byte list) \<Rightarrow> socket_addr \<Rightarrow> 'g option \<Rightarrow> 'w \<Rightarrow>
     byte list \<Rightarrow> byte list list \<Rightarrow> offer list \<Rightarrow> ('g, 'f, 'a) actor \<Rightarrow> 'w \<Rightarrow> bool" where
  "step_ok m wire holder rest a o1 w base fs es c' w' \<longleftrightarrow>
     (\<exists>gs bs'. actor_ok m holder rest c' w' bs' (fs @ gs) es \<and> wire w' = base @ frames (tagged a gs) @ bs' \<and>
        lock_view wire holder o1 w (actor_guard c') w' \<and> actor_addr c' = a \<and> (\<forall>p \<in> set gs. length p \<le> 65535))"

lemma step_okI:
  assumes "actor_ok m holder rest c' w' bs' (fs @ gs) es" and "wire w' = base @ frames (tagged a gs) @ bs'"
    and "lock_view wire holder o1 w (actor_guard c') w'" and "actor_addr c' = a" and "\<forall>p \<in> set gs. length p \<le> 65535"
  shows "step_ok m wire holder rest a o1 w base fs es c' w'"
  using assms unfolding step_ok_def by blast

section \<open>Steps of a connection\<close>

lemma wire_lawsD:
  assumes "wire_laws W m wire holder rest"
  shows "lock_laws W m wire holder" and "write_laws W wire holder rest" and "flush_always_ready W" and "write_all_reliable W"
  using assms by (simp_all add: wire_laws_def)

lemma wi_inv_frame: "wi_inv holder m c w \<Longrightarrow> holder w' = holder w \<Longrightarrow> wi_inv holder m c w'"
  by (auto simp: wi_inv_def ws_inv_def sh_inv_def split: write_pipe_state.splits write_state.splits shutdown_state.splits)

lemma wi_inv_guard: "wi_inv holder m c w \<Longrightarrow> state_guard (wi_state c) \<noteq> None \<Longrightarrow> holder w = state_guard (wi_state c)"
  by (auto simp: wi_inv_def ws_inv_def sh_inv_def own_def sh_own_def split: write_pipe_state.splits write_state.splits shutdown_state.splits)

lemma wi_inv_unlocked:
  assumes "wi_inv holder m c w" and "state_guard (wi_state c) = None"
  shows "wi_in_flight c = []" and "wi_inv holder m c w'"
  using assms
  by (auto simp: wi_inv_def wi_in_flight_def ws_inv_def sh_inv_def own_def sh_own_def sh_in_flight_def in_flight_def
      split: write_pipe_state.splits write_state.splits shutdown_state.splits)

lemma wi_inv_payload: "wi_inv holder m c w \<Longrightarrow> length (wi_payload c) \<le> 65535"
  by (auto simp: wi_inv_def wi_payload_def ws_inv_def sh_inv_def intro!: length_payload_bound split: write_pipe_state.splits)

text \<open>A call that keeps the account of the connection is a step of the system.\<close>

lemma account_step_ok:
  assumes acc: "conn_account wire holder m base gs acc c w c' w'"
    and es: "accepted es' (concat fs @ wi_payload c @ acc)" and len: "\<forall>p \<in> set gs. length p \<le> 65535"
    and shape: "if wi_state c' = Shutdown ShutDone then ended_session i (fs @ gs) else session i (fs @ gs)"
  shows "step_ok m wire holder rest (WriteInner_addr c) (state_guard (wi_state c)) w base fs es'
    (ActConn i c' :: ('g, 'f, 'a) actor) w'"
proof (rule step_okI [where bs' = "wi_in_flight c'" and gs = gs])
  have "concat gs @ wi_payload c' = wi_payload c @ acc" and "wi_inv holder m c' w'"
    using acc by (simp_all add: conn_account_def)
  with es shape show "actor_ok m holder rest (ActConn i c') w' (wi_in_flight c') (fs @ gs) es'" by simp
qed (use acc len in \<open>simp_all add: conn_account_def\<close>)

lemma proper_frames_length: "proper_frames fs \<Longrightarrow> \<forall>p \<in> set fs. length p \<le> 65535"
  by (simp add: proper_frames_def)

lemma write_step_ok:
  assumes laws: "wire_laws W m wire holder rest"
    and ok: "actor_ok m holder rest (ActConn i c :: ('g, 'f, 'a) actor) w bs fs es" and wire: "wire w = base @ bs"
    and eq: "WriteInner_poll_write W c cx buf w = Some (Done r, c', w')" and r: "\<forall>e. r \<noteq> Ready (Inl e)"
  shows "step_ok m wire holder rest (WriteInner_addr c) (state_guard (wi_state c)) w base fs
    (es @ [(buf, r, pm_fut (wi_write_lock c') \<noteq> None)])
    (ActConn i c' :: ('g, 'f, 'a) actor) w'"
proof -
  have c: "wi_inv holder m c w" "wire w = base @ wi_in_flight c" "accepted es (concat fs @ wi_payload c)"
    using ok wire by simp_all
  obtain wk st where st: "wi_state c = Writing wk st"
    using c(1) eq r by (cases "wi_state c") (auto simp: wi_inv_def WriteInner_poll_write_def PoisonOnPanic_new_def)
  obtain r1 c1 w1 gs n where out: "WriteInner_poll_write W c cx buf w = Some (Done r1, c1, w1)" "n \<le> length buf" "proper_frames gs"
    "(\<And>e. r1 \<noteq> Ready (Inl e)) \<Longrightarrow> conn_account wire holder m base gs (take n buf) c w c1 w1"
    "\<And>k. r1 = Ready (Inr k) \<Longrightarrow> k = n \<and> (buf \<noteq> [] \<longrightarrow> 0 < k)"
    "r1 = Pending \<Longrightarrow> n = 0 \<or> wi_state c1 = Writing cx Buffering \<and> PacketBuffer_is_full (wi_buffer c1) \<and> pm_fut (wi_write_lock c1) \<noteq> None"
    "\<exists>st'. wi_state c1 = Writing cx st'"
    by (rule poll_write_outcome [OF wire_lawsD(1,2) [OF laws] c(1) st c(2), where cx = cx and buf = buf]) blast
  have same: "r1 = r" "c1 = c'" "w1 = w'" using out(1) eq by simp_all
  obtain st' where gs: "n \<le> length buf" "proper_frames gs" "wi_state c' = Writing cx st'"
    "conn_account wire holder m base gs (take n buf) c w c' w'" "\<forall>k. r = Ready (Inr k) \<longrightarrow> n = k"
    "r = Pending \<longrightarrow> \<not> pm_fut (wi_write_lock c') \<noteq> None \<longrightarrow> n = 0"
    using out(2-7) r unfolding same by blast
  have "session i (fs @ gs)" using ok st gs(2) by (simp add: session_append)
  with gs accepted_snoc [OF c(3) gs(1,5,6)] show ?thesis
    by (intro account_step_ok) (auto simp: proper_frames_length)
qed

lemma flush_step_ok:
  assumes laws: "wire_laws W m wire holder rest"
    and ok: "actor_ok m holder rest (ActConn i c :: ('g, 'f, 'a) actor) w bs fs es" and wire: "wire w = base @ bs"
    and eq: "WriteInner_poll_flush W c cx w = Some (Done r, c', w')" and r: "\<forall>e. r \<noteq> Ready (Inl e)"
  shows "step_ok m wire holder rest (WriteInner_addr c) (state_guard (wi_state c)) w base fs es
    (ActConn i c' :: ('g, 'f, 'a) actor) w'"
proof -
  have c: "wi_inv holder m c w" "wire w = base @ wi_in_flight c" "accepted es (concat fs @ wi_payload c)"
    using ok wire by simp_all
  obtain wk st where st: "wi_state c = Writing wk st"
    using c(1) eq r by (cases "wi_state c") (auto simp: wi_inv_def WriteInner_poll_flush_def PoisonOnPanic_new_def)
  obtain gs st' where gs: "proper_frames gs" "wi_state c' = Writing cx st'" "conn_account wire holder m base gs [] c w c' w'"
    by (rule poll_flush_outcome [OF wire_lawsD(1-3) [OF laws] c(1) st c(2), where cx = cx]) (use eq r in auto)
  have "session i (fs @ gs)" using ok st gs(1) by (simp add: session_append)
  with gs c(3) show ?thesis by (intro account_step_ok) (auto simp: proper_frames_length)
qed

lemma shutdown_step_ok:
  assumes laws: "wire_laws W m wire holder rest"
    and ok: "actor_ok m holder rest (ActConn i c :: ('g, 'f, 'a) actor) w bs fs es" and wire: "wire w = base @ bs"
    and eq: "WriteInner_poll_shutdown W c cx w = Some (Done r, c', w', wk)" and r: "\<forall>e. r \<noteq> Ready (Inl e)"
  shows "step_ok m wire holder rest (WriteInner_addr c) (state_guard (wi_state c)) w base fs es
    (ActConn i c' :: ('g, 'f, 'a) actor) w'"
proof -
  have c: "wi_inv holder m c w" "wire w = base @ wi_in_flight c" "accepted es (concat fs @ wi_payload c)"
    using ok wire by simp_all
  obtain gs where acc: "conn_account wire holder m base gs [] c w c' w'"
    and fin: "r = Ready (Inr ()) \<longrightarrow> wi_state c' = Shutdown ShutDone \<and>
      (wi_state c \<noteq> Shutdown ShutDone \<longrightarrow> (\<exists>ds. proper_frames ds \<and> gs = ds @ [[]]))"
    and more: "r = Pending \<longrightarrow> proper_frames gs \<and> wi_state c' \<noteq> Shutdown ShutDone"
    and again: "wi_state c = Shutdown ShutDone \<longrightarrow> proper_frames gs"
    by (rule poll_shutdown_outcome [OF wire_lawsD(1,2) [OF laws] c(1,2), where cx = cx]) (use eq r in auto)
  have "(if wi_state c' = Shutdown ShutDone then ended_session i (fs @ gs) else session i (fs @ gs)) \<and>
      (\<forall>p \<in> set gs. length p \<le> 65535)"
  proof (cases "wi_state c = Shutdown ShutDone")
    case True
    with c(1) have "wi_payload c = []" by (simp add: wi_inv_def wi_payload_def)
    with acc have "concat gs = []" by (simp add: conn_account_def)
    with again True have "gs = []" by (auto simp: proper_frames_def)
    moreover have "wi_state c' = Shutdown ShutDone"
      using eq True by (auto simp: WriteInner_poll_shutdown_def PoisonOnPanic_new_def PoisonOnPanic_drop_def shutdown_loop.simps)
    ultimately show ?thesis using ok True by simp
  next
    case False
    then have s: "session i fs" using ok by simp
    show ?thesis
    proof (cases r rule: unit_result_cases)
      case 1
      with more s show ?thesis by (auto simp: session_append proper_frames_def)
    next
      case 3
      with fin False obtain ds where ds: "proper_frames ds" "gs = ds @ [[]]" "wi_state c' = Shutdown ShutDone" by blast
      then show ?thesis using session_append [OF s ds(1)] by (auto simp: ended_session_def proper_frames_length)
    qed (use r in auto)
  qed
  with acc c(3) show ?thesis by (intro account_step_ok) auto
qed

section \<open>The ends of a connection\<close>

lemma drop_task_guard:
  assumes "WriteInner_drop W c w = (Done (Some t), w')"
  shows "task_guard t = state_guard (wi_state c)" and "\<exists>wk st. wi_state c = Writing wk st"
  using assms
  by (auto simp: WriteInner_drop_def PollMutex_take_token_def Let_def
      split: write_pipe_state.splits write_state.splits if_splits run.splits)

lemma drop_step_ok:
  assumes laws: "wire_laws W m wire holder rest"
    and ok: "actor_ok m holder rest (ActConn i c :: ('g, 'f, 'a) actor) w bs fs es" and wire_bs: "wire w = base @ bs"
    and eq: "WriteInner_drop W c w = (Done (Some t), w')"
  shows "step_ok m wire holder rest (WriteInner_addr c) (state_guard (wi_state c)) w base fs es
    (ActTask i (WriteInner_addr c) t) w'"
proof -
  have inv: "wi_inv holder m c w" and wire: "wire w = base @ wi_in_flight c" and es: "accepted es (concat fs @ wi_payload c)"
    using ok wire_bs by simp_all
  let ?a = "WriteInner_addr c" and ?bs = "wi_in_flight c"
  let ?ps = "(if ?bs = [] then [] else [wi_payload c]) @ [[]]" and ?lost = "if ?bs = [] then wi_payload c else []"
  note g = drop_task_guard(1) [OF eq]
  obtain wk st where st: "wi_state c = Writing wk st" using drop_task_guard(2) [OF eq] by blast
  obtain t1 w1 where eq1: "WriteInner_drop W c w = (Done (Some t1), w1)" and d1: "task_inv holder m t1 w1"
    "lock_view wire holder (own st) w (task_guard t1) w1" "wire w1 = wire w"
    "wire w1 @ task_rest rest t1 = base @ frames (tagged ?a ?ps)"
    by (rule drop_outcome [OF wire_lawsD(1) [OF laws] inv st wire, where rest = rest])
  from eq eq1 have "t1 = t" "w1 = w'" by simp_all
  note d = d1 [unfolded this]
  have rest_ps: "?bs @ task_rest rest t = frames (tagged ?a ?ps)" using d(3,4) wire by simp
  have acc: "accepted es (concat fs @ concat ?ps @ ?lost)" using es by simp
  have len: "\<forall>p \<in> set ?ps. length p \<le> 65535" using wi_inv_payload [OF inv] by simp
  have none: "task_guard t = None \<longrightarrow> ?bs = []" using wi_inv_unlocked(1) [OF inv] g by simp
  have "session i (fs @ (if ?bs = [] then [] else [wi_payload c]))"
  proof (cases "?bs = []")
    case False
    with inv st have "wi_payload c \<noteq> []"
      by (cases st) (auto simp: wi_inv_def wi_in_flight_def wi_payload_def unat_gt_0)
    then have "proper_frames [wi_payload c]" using wi_inv_payload [OF inv] by simp
    with ok st False show ?thesis by (simp add: session_append)
  qed (use ok st in simp)
  then have "ended_session i (fs @ ?ps)" unfolding ended_session_def by (metis append.assoc)
  then have "actor_ok m holder rest (ActTask i ?a t) w' ?bs (fs @ []) es"
    unfolding actor_ok.simps append_Nil2 using d(1) none rest_ps acc len by blast
  then show ?thesis by (rule step_okI) (use d(2,3) wire st g in simp_all)
qed

lemma forget_step_ok:
  assumes laws: "wire_laws W m wire holder rest"
    and ok: "actor_ok m holder rest (ActConn i c :: ('g, 'f, 'a) actor) w bs fs es" and wire_bs: "wire w = base @ bs"
    and eq: "WriteInner_drop W c w = (Done None, w')" and g: "state_guard (wi_state c) = None"
  shows "step_ok m wire holder rest (WriteInner_addr c) (state_guard (wi_state c)) w base fs es
    (ActGone i (WriteInner_addr c) :: ('g, 'f, 'a) actor) w'"
proof -
  have inv: "wi_inv holder m c w" and wire: "wire w = base @ wi_in_flight c" and es: "accepted es (concat fs @ wi_payload c)"
    using ok wire_bs by simp_all
  have "w' = drop_fut_opt W (pm_fut (wi_write_lock c)) w"
    using eq g inv
    by (auto simp: WriteInner_drop_def PollMutex_take_token_def drop_state_def wi_inv_def Let_def
        split: write_pipe_state.splits write_state.splits if_splits run.splits)
  then have "quiet wire holder w w'" using drop_fut_opt_quiet [OF wire_lawsD(1) [OF laws]] by simp
  moreover have "\<exists>lost. accepted es (concat fs @ lost) \<and> (session i fs \<or> ended_session i fs \<and> lost = [])"
    using es ok by (cases "wi_state c = Shutdown ShutDone") (auto simp: wi_inv_def wi_payload_def intro: exI [of _ "[]"])
  ultimately show ?thesis
    using wire g wi_inv_unlocked(1) [OF inv g]
    by (intro step_okI [where gs = "[]" and bs' = "[]"]) (auto simp: quiet_def lock_view_def)
qed

lemma handshake_start_step_ok:
  assumes laws: "wire_laws W m wire holder rest"
    and ok: "actor_ok m holder rest (ActNew c :: ('g, 'f, 'a) actor) w bs fs es" and wire: "wire w = base @ bs"
    and eq: "WriteInner_handshake W c w = Done (h, c', w')"
  shows "step_ok m wire holder rest (WriteInner_addr c) None w base fs es (ActShake c' h) w'"
proof -
  from ok have c: "wi_inv holder m c w" "wi_state c = Writing Noop Buffering" "wi_payload c = []" by simp_all
  from eq c(2) obtain f lk where l: "PollMutex_lock W (wi_write_lock c) w = (f, lk, w')"
    and h: "h = HandshakeLock f" "c' = c\<lparr>wi_write_lock := lk\<rparr>"
    by (auto simp: WriteInner_handshake_def split: if_splits prod.splits)
  have m: "pm_mutex (wi_write_lock c) = m" using c by (auto simp: wi_inv_def)
  note q = lock_start_quiet [OF wire_lawsD(1) [OF laws] m l]
  with c ok have "actor_ok m holder rest (ActShake c' h) w' [] (fs @ []) es"
    by (simp add: h wi_inv_def wi_payload_def)
  then show ?thesis
    by (rule step_okI) (use q wire ok in \<open>auto simp: h quiet_def lock_view_def WriteInner_addr_def\<close>)
qed

text \<open>A poll of the handshake, and the last one.\<close>

lemma shake_step_ok:
  assumes laws: "wire_laws W m wire holder rest"
    and ok: "actor_ok m holder rest (ActShake c h) w bs fs es" and wire: "wire w = base @ bs"
    and eq: "WriteInner_handshake_poll W c h cx w = (Done r, h', w')"
    and r: "r = Pending \<and> c' = ActShake c h' \<or> r = Ready (Inr ()) \<and> c' = ActConn True c"
  shows "step_ok m wire holder rest (WriteInner_addr c) (handshake_guard h) w base fs es c' w'"
proof -
  let ?a = "WriteInner_addr c"
  from ok have c: "wi_state c = Writing Noop Buffering" "wi_inv holder m c w" "wi_payload c = []" "h \<noteq> HandshakeDone"
    "handshake_guard h = None \<or> holder w = handshake_guard h" "bs @ handshake_rest rest ?a h = frame ?a []" "fs = []" "es = []"
    by auto
  from handshake_poll_step [OF wire_lawsD(1,2) [OF laws] c(2-5), of cx] eq obtain xs
    where x: "wire w' = wire w @ xs" "lock_view wire holder (handshake_guard h) w (handshake_guard h') w'"
      "handshake_guard h' = None \<or> holder w' = handshake_guard h'"
      "r = Pending \<longrightarrow> h' \<noteq> HandshakeDone \<and> handshake_rest rest ?a h = xs @ handshake_rest rest ?a h'"
      "r \<noteq> Pending \<longrightarrow> h' = HandshakeDone" "r = Ready (Inr ()) \<longrightarrow> xs = handshake_rest rest ?a h"
    by (auto simp: handshake_step_def)
  have inv': "wi_inv holder m c w'" by (rule wi_inv_unlocked(2) [OF c(2)]) (simp add: c(1))
  from r show ?thesis
  proof
    assume r: "r = Pending \<and> c' = ActShake c h'"
    with x c inv' have "actor_ok m holder rest c' w' (bs @ xs) (fs @ []) es" by simp
    then show ?thesis by (rule step_okI) (use r x wire in simp_all)
  next
    assume r: "r = Ready (Inr ()) \<and> c' = ActConn True c"
    with x(6) c(6) have full: "bs @ xs = frame ?a []" by simp
    have "actor_ok m holder rest c' w' [] (fs @ [[]]) es" using r c inv' by (simp add: wi_in_flight_def accepted_Nil)
    then show ?thesis by (rule step_okI) (use r x wire full c(1) in simp_all)
  qed
qed

text \<open>A poll of the task of a dropped connection.\<close>

lemma task_poll_unlocked:
  assumes "drop_task_poll W t cx w = (u, t', w')" and "task_guard t' = None" and "t' \<noteq> TaskDone"
  shows "task_guard t = None" and "length (task_rest rest t) = 20" and "length (task_rest rest t') = 20"
  using assms
  by (cases t rule: drop_task_cases;
      auto simp: drop_eof_def drop_rest_def drop_lock_def split: prod.splits poll.splits sum.splits)+

lemma task_step_ok:
  assumes laws: "wire_laws W m wire holder rest"
    and ok: "actor_ok m holder rest (ActTask i a t) w bs fs es" and wire: "wire w = base @ bs"
    and eq: "drop_task_poll W t cx w = (u, t', w')"
  shows "step_ok m wire holder rest a (task_guard t) w base fs es (ActTask i a t') w'"
proof -
  from ok obtain ps lost where t: "task_inv holder m t w" "task_guard t = None \<longrightarrow> bs = []"
    "bs @ task_rest rest t = frames (tagged a ps)" "accepted es (concat fs @ concat ps @ lost)" "\<forall>p \<in> set ps. length p \<le> 65535"
    "ended_session i (fs @ ps)"
    by auto
  from drop_task_poll_step [OF wire_lawsD(1,2) [OF laws] t(1), of cx] eq wire_lawsD(4) [OF laws] obtain xs
    where x: "wire w' = wire w @ xs" "task_inv holder m t' w'" "lock_view wire holder (task_guard t) w (task_guard t') w'"
      "task_rest rest t = xs @ task_rest rest t'"
    by (auto simp: task_step_def)
  show ?thesis
  proof (cases "t' = TaskDone")
    case True
    with x t have "actor_ok m holder rest (ActTask i a t') w' [] (fs @ ps) es"
      by (auto intro!: exI [of _ "[]"] exI [of _ lost])
    then show ?thesis by (rule step_okI) (use x t wire True in auto)
  next
    case False
    have none: "task_guard t' = None \<longrightarrow> bs @ xs = []"
    proof
      assume "task_guard t' = None"
      note n = task_poll_unlocked [OF eq this False]
      with t(2) arg_cong [OF x(4), of length] show "bs @ xs = []" by simp
    qed
    have "actor_ok m holder rest (ActTask i a t') w' (bs @ xs) (fs @ []) es"
      using x t none by (auto intro!: exI [of _ ps] exI [of _ lost])
    then show ?thesis by (rule step_okI) (use x wire in auto)
  qed
qed

section \<open>The system of writers\<close>

lemma actor_step_ok:
  assumes "wire_laws W m wire holder rest" and "actor_step W c w ev c' w'"
    and "actor_ok m holder rest c w bs fs es" and "wire w = base @ bs"
  shows "step_ok m wire holder rest (actor_addr c) (actor_guard c) w base fs (es @ ev) c' w'"
  using assms(2)
proof (cases rule: actor_step.cases)
  case (do_write c1 cx buf r c1' i)
  with assms(3) have "actor_ok m holder rest (ActConn i c1) w bs fs es" by simp
  from write_step_ok [OF assms(1) this assms(4) do_write(4,5)] do_write show ?thesis by simp
next
  case (do_flush c1 cx q c1' i)
  with assms(3) have "actor_ok m holder rest (ActConn i c1) w bs fs es" by simp
  from flush_step_ok [OF assms(1) this assms(4) do_flush(4,5)] do_flush show ?thesis by simp
next
  case (do_shutdown c1 cx q c1' wk i)
  with assms(3) have "actor_ok m holder rest (ActConn i c1) w bs fs es" by simp
  from shutdown_step_ok [OF assms(1) this assms(4) do_shutdown(4,5)] do_shutdown show ?thesis by simp
next
  case (do_drop c1 t i)
  with assms(3) have "actor_ok m holder rest (ActConn i c1) w bs fs es" by simp
  from drop_step_ok [OF assms(1) this assms(4) do_drop(4)] do_drop show ?thesis by simp
next
  case (do_forget c1 i)
  with assms(3) have "actor_ok m holder rest (ActConn i c1) w bs fs es" by simp
  from forget_step_ok [OF assms(1) this assms(4) do_forget(4,5)] do_forget show ?thesis by simp
next
  case (do_accept c1)
  with assms(3,4) have "actor_ok m holder rest c' w' [] (fs @ []) (es @ ev)"
    by (simp add: wi_in_flight_def accepted_Nil)
  then show ?thesis by (rule step_okI) (use do_accept assms(3,4) in simp_all)
next
  case (do_handshake c1 h c1')
  with assms(3) have "actor_ok m holder rest (ActNew c1) w bs fs es" by simp
  from handshake_start_step_ok [OF assms(1) this assms(4) do_handshake(4)] do_handshake show ?thesis by simp
next
  case (do_shaking c1 h cx h')
  with assms(3) have "actor_ok m holder rest (ActShake c1 h) w bs fs es" by simp
  from shake_step_ok [OF assms(1) this assms(4) do_shaking(4)] do_shaking show ?thesis by simp
next
  case (do_shaken c1 h cx h')
  with assms(3) have "actor_ok m holder rest (ActShake c1 h) w bs fs es" by simp
  from shake_step_ok [OF assms(1) this assms(4) do_shaken(4)] do_shaken show ?thesis by simp
next
  case (do_task t cx u t' i a)
  with assms(3) have "actor_ok m holder rest (ActTask i a t) w bs fs es" by simp
  from task_step_ok [OF assms(1) this assms(4) do_task(4)] do_task show ?thesis by simp
qed

lemma fresh_writer:
  fixes u :: "('g, 'f) write_inner" and m a
  defines "c \<equiv> box_new WriteInner_init u (a, PollMutex_new m)"
  shows "wi_inv holder m c w" and "wi_state c = Writing Noop Buffering" and "wi_payload c = []" and "WriteInner_addr c = a"
    and "wi_in_flight c = []"
  by (simp_all add: c_def box_new_def WriteInner_init_def wi_inv_def wi_payload_def WriteInner_addr_def PacketBuffer_addr_def
      PollMutex_new_def wi_in_flight_def)

lemma actor_ok_unlocked:
  assumes "actor_ok m holder rest c w bs fs es" and "actor_guard c = None"
  shows "bs = [] \<and> actor_ok m holder rest c w' bs fs es"
proof (cases c)
  case (ActConn i c1)
  with assms show ?thesis using wi_inv_unlocked [of holder m c1 w] by simp
next
  case (ActNew c1)
  with assms have "wi_inv holder m c1 w'" using wi_inv_unlocked(2) [of holder m c1 w] by auto
  with ActNew assms show ?thesis by simp
next
  case (ActShake c1 h)
  with assms have "wi_inv holder m c1 w'" using wi_inv_unlocked(2) [of holder m c1 w] by auto
  with ActShake assms show ?thesis by (cases h) auto
qed (use assms in \<open>auto simp: task_inv_def\<close>)

interpretation wire_system: shared_wire wire holder actor_guard actor_addr "actor_ok m holder rest"
    "actor_act W m wire holder rest" "fresh_actor m"
  for W :: "('w, 'g, 'f, 'a) writer_api" and m wire holder rest
proof
  fix c :: "('g, 'f, 'a) actor" and w w' bs fs es
  show "actor_guard c = None \<and> actor_ok m holder rest c w [] [] []" if "fresh_actor m c"
    using that by (auto simp: fresh_actor_def fresh_writer accepted_Nil)
  show "holder w = actor_guard c" if "actor_ok m holder rest c w bs fs es" "actor_guard c \<noteq> None"
    using that wi_inv_guard [of holder m _ w] by (cases c) (auto simp: task_inv_def)
  show "bs = [] \<and> actor_ok m holder rest c w' bs fs es" if "actor_ok m holder rest c w bs fs es" "actor_guard c = None"
    using that by (rule actor_ok_unlocked)
  show "actor_ok m holder rest c w' bs fs es" if "actor_ok m holder rest c w bs fs es" "holder w' = holder w"
    using that wi_inv_frame [of holder m _ w] by (cases c) (auto simp: task_inv_def)
next
  fix c c' :: "('g, 'f, 'a) actor" and w w' bs fs es ev base
  assume a: "actor_act W m wire holder rest c w ev c' w'" "actor_ok m holder rest c w bs fs es" "wire w = base @ bs"
  then have "wire_laws W m wire holder rest" "actor_step W c w ev c' w'" by (simp_all add: actor_act_def)
  from actor_step_ok [OF this a(2,3)] show "\<exists>gs bs'. actor_ok m holder rest c' w' bs' (fs @ gs) (es @ ev) \<and>
      wire w' = base @ frames (tagged (actor_addr c) gs) @ bs' \<and>
      lock_view wire holder (actor_guard c) w (actor_guard c') w' \<and> actor_addr c' = actor_addr c \<and>
      (\<forall>p \<in> set gs. length p \<le> 65535)"
    by (simp add: step_ok_def)
qed

lemma writers_framed:
  assumes "wire_laws W m wire holder rest" and "(sys_step (actor_step W) (fresh_actor m))\<^sup>*\<^sup>* (sys_start w) S"
    and "wire w = []" and "holder w = None"
  obtains F bs where "wire_system.framed wire holder m rest F bs S"
proof -
  have "(sys_step (actor_act W m wire holder rest) (fresh_actor m))\<^sup>*\<^sup>* (sys_start w) S"
    using assms(2) by (simp add: actor_act_step [OF assms(1)])
  from wire_system.run_framed [OF this assms(3,4)] show ?thesis using that by blast
qed

end
