(* ===== verification/Write_Safety.thy ===== *)
theory Write_Safety
  imports Write_System Loopback
begin

text \<open>
  Safety of the writing side on a stream that may fail at any time: one connection under any calls, in any
  order and after any answer, errors included, while other connections use the same stream. The counterpart of
  \<open>Read_Safety\<close>; the frames on the wire need not stay whole here, since a failed write leaves a part of one.
\<close>

section \<open>The calls on a connection\<close>

text \<open>
  \<open>call_elsewhere\<close> is whatever happens outside the connection. The mutex promises that nobody else
  uses the stream or gives the lock back while the connection has it.
\<close>

inductive writer_op ::
  "('w, 'g, 'f, 'a) writer_api \<Rightarrow> ('w \<Rightarrow> byte list) \<Rightarrow> ('w \<Rightarrow> 'g option) \<Rightarrow>
     ('g, 'f) write_inner \<times> 'w \<Rightarrow> ('g, 'f) write_inner \<times> 'w \<Rightarrow> bool"
  for W wire holder where
  call_write: "WriteInner_poll_write W c cx buf w = Some (r, c', w') \<Longrightarrow> writer_op W wire holder (c, w) (c', w')"
| call_flush: "WriteInner_poll_flush W c cx w = Some (q, c', w') \<Longrightarrow> writer_op W wire holder (c, w) (c', w')"
| call_shutdown: "WriteInner_poll_shutdown W c cx w = Some (q, c', w', woken) \<Longrightarrow> writer_op W wire holder (c, w) (c', w')"
| call_elsewhere: "(state_guard (wi_state c) \<noteq> None \<Longrightarrow> wire w' = wire w \<and> holder w' = holder w) \<Longrightarrow>
    writer_op W wire holder (c, w) (c, w')"

text \<open>Well-formed: the invariant of the connection, and the part of the frame that it counts as sent is on the wire.\<close>

definition writer_safe :: "('w \<Rightarrow> byte list) \<Rightarrow> ('w \<Rightarrow> 'g option) \<Rightarrow> nat \<Rightarrow> ('g, 'f) write_inner \<Rightarrow> 'w \<Rightarrow> bool" where
  "writer_safe wire holder m c w \<longleftrightarrow> wi_inv holder m c w \<and> suffix (wi_in_flight c) (wire w)"

lemma writer_safeE:
  assumes "writer_safe wire holder m c w"
  obtains base where "wi_inv holder m c w" and "wire w = base @ wi_in_flight c"
  using assms by (auto simp: writer_safe_def suffix_def)

lemma account_safe: "conn_account wire holder m base fs acc c w c' w' \<Longrightarrow> writer_safe wire holder m c' w'"
  by (auto simp: conn_account_def writer_safe_def suffix_def)

lemma failed_safe: "conn_failed wire holder m base fs acc c w c' w' \<Longrightarrow> writer_safe wire holder m c' w'"
  using wi_inv_unlocked(1) by (fastforce simp: conn_failed_def writer_safe_def)

section \<open>Progress and preservation of each call\<close>

lemma shut_writer_rejects:
  assumes "wi_state c = Shutdown st"
  shows "WriteInner_poll_write W c cx buf w = Some (Done (Ready (Inl broken_pipe)), c, w)"
    and "WriteInner_poll_flush W c cx w = Some (Done (Ready (Inl broken_pipe)), c, w)"
  using assms by (simp_all add: WriteInner_poll_write_def WriteInner_poll_flush_def PoisonOnPanic_new_def)

lemma safe_state_cases:
  assumes "writer_safe wire holder m c w"
  obtains (open_pipe) wk st where "wi_state c = Writing wk st" | (closing) st where "wi_state c = Shutdown st"
  using assms by (cases "wi_state c") (auto simp: writer_safe_def wi_inv_def)

lemma write_safe:
  assumes laws: "lock_laws W m wire holder" "write_laws W wire holder rest" and safe: "writer_safe wire holder m c w"
  shows "\<exists>r c' w'. WriteInner_poll_write W c cx buf w = Some (Done r, c', w') \<and> writer_safe wire holder m c' w'"
  using safe
proof (cases rule: safe_state_cases)
  case (open_pipe wk st)
  obtain base where inv: "wi_inv holder m c w" "wire w = base @ wi_in_flight c" by (rule writer_safeE [OF safe])
  show ?thesis
    by (rule poll_write_outcome [OF laws inv(1) open_pipe inv(2), of cx buf]) (metis account_safe failed_safe)
qed (use safe in \<open>simp add: shut_writer_rejects\<close>)

lemma flush_safe:
  assumes laws: "lock_laws W m wire holder" "write_laws W wire holder rest" "flush_always_ready W"
    and safe: "writer_safe wire holder m c w"
  shows "\<exists>r c' w'. WriteInner_poll_flush W c cx w = Some (Done r, c', w') \<and> writer_safe wire holder m c' w'"
  using safe
proof (cases rule: safe_state_cases)
  case (open_pipe wk st)
  obtain base where inv: "wi_inv holder m c w" "wire w = base @ wi_in_flight c" by (rule writer_safeE [OF safe])
  show ?thesis
    by (rule poll_flush_outcome [OF laws inv(1) open_pipe inv(2), of cx]) (metis account_safe failed_safe)
qed (use safe in \<open>simp add: shut_writer_rejects\<close>)

lemma shutdown_safe:
  assumes laws: "lock_laws W m wire holder" "write_laws W wire holder rest" and safe: "writer_safe wire holder m c w"
  shows "\<exists>r c' w' woken. WriteInner_poll_shutdown W c cx w = Some (Done r, c', w', woken) \<and> writer_safe wire holder m c' w'"
proof -
  obtain base where inv: "wi_inv holder m c w" "wire w = base @ wi_in_flight c" by (rule writer_safeE [OF safe])
  show ?thesis
    by (rule poll_shutdown_outcome [OF laws inv, of cx]) (metis account_safe failed_safe)
qed

text \<open>A drop keeps the lock only for the task that it leaves behind.\<close>

lemma drop_safe:
  assumes locks: "lock_laws W m wire holder" and safe: "writer_safe wire holder m c w"
  shows "\<exists>t w'. WriteInner_drop W c w = (Done t, w') \<and> wire w' = wire w \<and>
    (case t of None \<Rightarrow> holder w' = (if state_guard (wi_state c) = None then holder w else None) | Some t \<Rightarrow> task_inv holder m t w')"
  using safe
proof (cases rule: safe_state_cases)
  case (open_pipe wk st)
  obtain base where inv: "wi_inv holder m c w" "wire w = base @ wi_in_flight c" by (rule writer_safeE [OF safe])
  obtain t w' where "WriteInner_drop W c w = (Done (Some t), w')" "task_inv holder m t w'" "wire w' = wire w"
    by (rule drop_outcome [OF locks inv(1) open_pipe inv(2)])
  then show ?thesis by force
next
  case (closing st)
  have inv: "wi_inv holder m c w" using safe by (simp add: writer_safe_def)
  let ?w1 = "drop_state W (Shutdown st) w" and ?f = "pm_fut (wi_write_lock c)"
  have w1: "wire ?w1 = wire w \<and> holder ?w1 = (if sh_own st = None then holder w else None)"
  proof (cases "sh_own st")
    case None
    with closing show ?thesis by (simp add: drop_state_def)
  next
    case (Some g)
    then have "holder w = Some g" using wi_inv_guard [OF inv] closing by simp
    with Some lock_lawsD(8,9) [OF locks, of w g] show ?thesis by (simp add: drop_state_def)
  qed
  then show ?thesis
    using closing drop_fut_opt_quiet [OF locks, of ?w1 ?f] by (simp add: WriteInner_drop_def Let_def quiet_def)
qed

section \<open>Reachable states\<close>

lemma writer_op_preserves:
  assumes laws: "lock_laws W m wire holder" "write_laws W wire holder rest" "flush_always_ready W"
  shows "writer_op W wire holder p p' \<Longrightarrow> writer_safe wire holder m (fst p) (snd p) \<Longrightarrow> writer_safe wire holder m (fst p') (snd p')"
proof (induction rule: writer_op.induct)
  case (call_write c cx buf w r c' w')
  with write_safe [OF laws(1,2), of c w cx buf] show ?case by auto
next
  case (call_flush c cx w q c' w')
  with flush_safe [OF laws, of c w cx] show ?case by auto
next
  case (call_shutdown c cx w q c' w' woken)
  with shutdown_safe [OF laws(1,2), of c w cx] show ?case by auto
next
  case (call_elsewhere c w' w)
  then have inv: "wi_inv holder m c w" by (simp add: writer_safe_def)
  show ?case
  proof (cases "state_guard (wi_state c) = None")
    case True
    from wi_inv_unlocked [OF inv True] show ?thesis by (simp add: writer_safe_def)
  next
    case False
    with call_elsewhere wi_inv_frame [OF inv, of w'] show ?thesis by (simp add: writer_safe_def)
  qed
qed

lemma writer_ops_preserve:
  assumes laws: "lock_laws W m wire holder" "write_laws W wire holder rest" "flush_always_ready W"
    and run: "(writer_op W wire holder)\<^sup>*\<^sup>* p p'" and start: "writer_safe wire holder m (fst p) (snd p)"
  shows "writer_safe wire holder m (fst p') (snd p')"
  using run start by (induction rule: rtranclp_induct) (auto intro: writer_op_preserves [OF laws])

text \<open>
  C8. Type safety of the writing side: a new connection, after any calls in any order, whatever the stream answers and whatever
  happens elsewhere, is well formed and not poisoned. Every further call returns a value in a well-formed state, also
  after errors and after the shutdown: no slice is out of range, no counter overflows, no loop runs forever. Dropping it is
  safe at any time, and keeps the lock only for the task that it leaves behind.
\<close>

theorem writer_type_safe:
  assumes "lock_laws W m wire holder" and "write_laws W wire holder rest" and "flush_always_ready W"
    and "(writer_op W wire holder)\<^sup>*\<^sup>* (box_new WriteInner_init u (a, PollMutex_new m), w0) (c, w)"
  shows "writer_safe wire holder m c w \<and>
    (\<forall>cx buf. \<exists>r c' w'. WriteInner_poll_write W c cx buf w = Some (Done r, c', w') \<and> writer_safe wire holder m c' w') \<and>
    (\<forall>cx. \<exists>r c' w'. WriteInner_poll_flush W c cx w = Some (Done r, c', w') \<and> writer_safe wire holder m c' w') \<and>
    (\<forall>cx. \<exists>r c' w' woken. WriteInner_poll_shutdown W c cx w = Some (Done r, c', w', woken) \<and> writer_safe wire holder m c' w') \<and>
    (\<exists>t w'. WriteInner_drop W c w = (Done t, w') \<and> wire w' = wire w \<and>
       (case t of None \<Rightarrow> holder w' = (if state_guard (wi_state c) = None then holder w else None) | Some t \<Rightarrow> task_inv holder m t w'))"
proof -
  have "writer_safe wire holder m (box_new WriteInner_init u (a, PollMutex_new m)) w0"
    by (simp add: writer_safe_def fresh_writer)
  then have safe: "writer_safe wire holder m c w" using writer_ops_preserve [OF assms] by simp
  show ?thesis
    using safe write_safe [OF assms(1,2) safe] flush_safe [OF assms(1-3) safe] shutdown_safe [OF assms(1,2) safe]
      drop_safe [OF assms(1) safe] by blast
qed

text \<open>A stream of which every write fails.\<close>

definition broken_stream :: "(lb_world, unit, unit, byte list) writer_api" where
  "broken_stream = loopback\<lparr>poll_write_w := (\<lambda>g cx bs w. (Ready (Inl broken_pipe), w))\<rparr>"

lemma broken_stream_laws:
  "lock_laws broken_stream m lb_wire lb_holder" "write_laws broken_stream lb_wire lb_holder id" "flush_always_ready broken_stream"
  using loopback_lock_laws [of m] loopback_write_laws loopback_flush_ready
  by (simp_all add: broken_stream_def lock_laws_def write_laws_def flush_always_ready_def)

theorem writer_type_safe_witness:
  "\<exists>r c w q c' w'. WriteInner_poll_write broken_stream (box_new WriteInner_init uninit_writer (addr0, PollMutex_new 0)) (Task 1)
      (replicate 70000 7) (lb_start []) = Some (Done r, c, w) \<and>
    WriteInner_poll_flush broken_stream c (Task 1) w = Some (Done q, c', w') \<and>
    (\<exists>r' c'' w''. WriteInner_poll_write broken_stream c' (Task 2) [1] w' = Some (Done r', c'', w''))"
proof -
  let ?c = "box_new WriteInner_init uninit_writer (addr0, PollMutex_new 0)" and ?w = "lb_start []"
  note safe = writer_type_safe [OF broken_stream_laws, of uninit_writer addr0 0 ?w]
  from safe [OF rtranclp.rtrancl_refl] obtain r c w where
    1: "WriteInner_poll_write broken_stream ?c (Task 1) (replicate 70000 7) ?w = Some (Done r, c, w)" by blast
  then have one: "(writer_op broken_stream lb_wire lb_holder)\<^sup>*\<^sup>* (?c, ?w) (c, w)" by (intro r_into_rtranclp call_write)
  from safe [OF one] obtain q c' w' where 2: "WriteInner_poll_flush broken_stream c (Task 1) w = Some (Done q, c', w')" by blast
  from rtranclp.rtrancl_into_rtrancl [OF one call_flush [OF this]]
  have "(writer_op broken_stream lb_wire lb_holder)\<^sup>*\<^sup>* (?c, ?w) (c', w')" .
  from safe [OF this] 1 2 show ?thesis by blast
qed

section \<open>A connection that was shut down\<close>

lemma writer_op_closed:
  assumes laws: "lock_laws W m wire holder" "write_laws W wire holder rest"
  shows "writer_op W wire holder p p' \<Longrightarrow> writer_safe wire holder m (fst p) (snd p) \<Longrightarrow> wi_state (fst p) = Shutdown st \<Longrightarrow>
    \<exists>st'. wi_state (fst p') = Shutdown st'"
proof (induction rule: writer_op.induct)
  case (call_shutdown c cx w q c' w' woken)
  then have "writer_safe wire holder m c w" by simp
  then obtain base where inv: "wi_inv holder m c w" "wire w = base @ wi_in_flight c" by (rule writer_safeE)
  show ?case by (rule poll_shutdown_outcome [OF laws inv, of cx]) (use call_shutdown.hyps in auto)
qed (auto simp: shut_writer_rejects)

text \<open>
  C29. A shutdown is final, whatever it answers. Let a connection have been used in any way and then \<open>poll_shutdown\<close> be called, which may succeed, be pending or
  fail. After any further calls and whatever happens elsewhere, \<open>poll_write\<close> and \<open>poll_flush\<close> answer \<open>BrokenPipe\<close> at once, leave the connection and the
  stream as they are and accept nothing; only \<open>poll_shutdown\<close> can still be called, which returns a value, wakes nobody and leaves the connection shut.
\<close>

theorem closed_pipe_rejects:
  assumes "lock_laws W m wire holder" and "write_laws W wire holder rest" and "flush_always_ready W"
    and "(writer_op W wire holder)\<^sup>*\<^sup>* (box_new WriteInner_init u (a, PollMutex_new m), w0) (c0, w1)"
    and "WriteInner_poll_shutdown W c0 cx0 w1 = Some (q, c1, w2, woken)"
    and "(writer_op W wire holder)\<^sup>*\<^sup>* (c1, w2) (c, w)"
  shows "WriteInner_poll_write W c cx buf w = Some (Done (Ready (Inl broken_pipe)), c, w) \<and>
    WriteInner_poll_flush W c cx w = Some (Done (Ready (Inl broken_pipe)), c, w) \<and>
    (\<exists>r c' w' st'. WriteInner_poll_shutdown W c cx w = Some (Done r, c', w', []) \<and> wi_state c' = Shutdown st')"
proof -
  have closes: "\<exists>r c' w' st'. WriteInner_poll_shutdown W c cx w =
      Some (Done r, c', w', case wi_state c of Writing wk st \<Rightarrow> [wk] | _ \<Rightarrow> []) \<and> wi_state c' = Shutdown st'"
    if "writer_safe wire holder m c w" for c cx w
  proof -
    from that obtain base where inv: "wi_inv holder m c w" "wire w = base @ wi_in_flight c" by (rule writer_safeE)
    show ?thesis by (rule poll_shutdown_outcome [OF assms(1,2) inv, of cx]) blast
  qed
  have safe0: "writer_safe wire holder m c0 w1"
    using writer_ops_preserve [OF assms(1-4)] by (simp add: writer_safe_def fresh_writer)
  with shutdown_safe [OF assms(1,2), of c0 w1 cx0] assms(5) have safe1: "writer_safe wire holder m c1 w2" by auto
  have "writer_safe wire holder m (fst p) (snd p) \<and> (\<exists>st. wi_state (fst p) = Shutdown st)" if "(writer_op W wire holder)\<^sup>*\<^sup>* (c1, w2) p" for p
    using that
  proof (induction rule: rtranclp_induct)
    case base
    from closes [OF safe0, of cx0] assms(5) safe1 show ?case by auto
  next
    case (step p p')
    with writer_op_preserves [OF assms(1-3)] writer_op_closed [OF assms(1,2)] show ?case by blast
  qed
  from this [OF assms(6)] obtain st where st: "writer_safe wire holder m c w" "wi_state c = Shutdown st" by auto
  with closes [OF st(1), of cx] show ?thesis by (simp add: shut_writer_rejects)
qed

text \<open>The shutdown of a new connection on a stream that refuses every write, and calls after it.\<close>

theorem closed_pipe_rejects_witness:
  "\<exists>q c w woken. WriteInner_poll_shutdown broken_stream (box_new WriteInner_init uninit_writer (addr0, PollMutex_new 0)) (Task 1) (lb_start []) =
      Some (q, c, w, woken) \<and>
    WriteInner_poll_write broken_stream c (Task 2) [1] w = Some (Done (Ready (Inl broken_pipe)), c, w) \<and>
    (\<exists>r c' w'. WriteInner_poll_shutdown broken_stream c (Task 2) w = Some (Done r, c', w', []))"
proof -
  let ?c = "box_new WriteInner_init uninit_writer (addr0, PollMutex_new 0)" and ?w = "lb_start []"
  have "writer_safe lb_wire lb_holder 0 ?c ?w" by (simp add: writer_safe_def fresh_writer)
  from shutdown_safe [OF broken_stream_laws(1,2) this, of "Task 1"] obtain r c w woken
    where 1: "WriteInner_poll_shutdown broken_stream ?c (Task 1) ?w = Some (Done r, c, w, woken)" by blast
  from closed_pipe_rejects [OF broken_stream_laws rtranclp.rtrancl_refl 1 rtranclp.rtrancl_refl, of "Task 2" "[1]"] 1 show ?thesis by blast
qed

end
