(* ===== verification/Lone_Writer.thy ===== *)
theory Lone_Writer
  imports Write_System
begin

text \<open>
  A connection that has the stream for itself. Its lock is free whenever it does not hold it, so that no call has
  to wait for the lock, and a write that answers \<open>Pending\<close> has accepted nothing: what the application knows
  from the answers is exactly what was accepted.
\<close>

section \<open>A free lock is taken at once\<close>

text \<open>
  Documented behaviour of the mutex, which hands the lock out in the order of the calls: \<open>waits\<close> are the futures in its queue. \<open>try_lock_owned\<close> fails only while
  the lock is held or somebody waits for it, and as long as nobody waits, only a future that finds the lock taken joins the queue.
\<close>

definition try_lock_succeeds :: "('w, 'g, 'f, 'a) writer_api \<Rightarrow> nat \<Rightarrow> ('w \<Rightarrow> 'g option) \<Rightarrow> ('w \<Rightarrow> 'f list) \<Rightarrow> bool" where
  "try_lock_succeeds W m holder waits \<longleftrightarrow>
     (\<forall>w. holder w = None \<longrightarrow> waits w = [] \<longrightarrow> fst (try_lock_owned W m w) \<noteq> None) \<and>
     (\<forall>w. waits w = [] \<longrightarrow> waits (snd (try_lock_owned W m w)) = []) \<and>
     (\<forall>w. waits w = [] \<longrightarrow> waits (snd (lock_ref W m w)) = []) \<and>
     (\<forall>f cx w. holder w = None \<longrightarrow> waits w = [] \<longrightarrow> waits (snd (snd (poll_lock_fut W f cx w))) = []) \<and>
     (\<forall>f w. waits w = [] \<longrightarrow> waits (drop_lock_fut W f w) = []) \<and>
     (\<forall>g w. waits w = [] \<longrightarrow> waits (drop_guard W g w) = []) \<and>
     (\<forall>g cx bs w. waits w = [] \<longrightarrow> waits (snd (poll_write_w W g cx bs w)) = []) \<and>
     (\<forall>g cx w. waits w = [] \<longrightarrow> waits (snd (poll_flush_w W g cx w)) = []) \<and>
     (\<forall>a g cx w. waits w = [] \<longrightarrow> waits (snd (snd (poll_write_all W a g cx w))) = [])"

lemma try_lockD:
  assumes "try_lock_succeeds W m holder waits" and "waits w = []"
  shows "try_lock_owned W m w = (x, w') \<Longrightarrow> waits w' = [] \<and> (holder w = None \<longrightarrow> x \<noteq> None)"
    and "lock_ref W m w = (f, w') \<Longrightarrow> waits w' = []"
    and "poll_lock_fut W f cx w = (r, f', w') \<Longrightarrow> holder w = None \<Longrightarrow> waits w' = []"
    and "waits (drop_lock_fut W f w) = []" and "waits (drop_guard W g w) = []"
    and "poll_write_w W g cx bs w = (q, w') \<Longrightarrow> waits w' = []"
    and "poll_flush_w W g cx w = (u, w') \<Longrightarrow> waits w' = []"
    and "poll_write_all W a g cx w = (u, a', w') \<Longrightarrow> waits w' = []"
  using assms unfolding try_lock_succeeds_def by (metis fst_conv snd_conv)+

text \<open>No lock future is pending, here or elsewhere, and the lock is in the hand \<open>g\<close> says.\<close>

definition calm :: "nat \<Rightarrow> ('w \<Rightarrow> 'g option) \<Rightarrow> ('w \<Rightarrow> 'f list) \<Rightarrow> 'g option \<Rightarrow> 'f poll_mutex \<Rightarrow> 'w \<Rightarrow> bool" where
  "calm m holder waits g lk w \<longleftrightarrow> pm_mutex lk = m \<and> pm_fut lk = None \<and> holder w = g \<and> waits w = []"

lemma calm_poll_lock:
  assumes locks: "lock_laws W m wire holder" and free: "try_lock_succeeds W m holder waits" and c: "calm m holder waits None lk w"
  obtains g w' where "PollMutex_poll_lock W lk cx w = (Ready g, lk, w')" and "calm m holder waits (Some g) lk w'"
proof -
  obtain x w' where t: "try_lock_owned W m w = (x, w')" by fastforce
  from try_lockD(1) [OF free _ t] c have x: "x \<noteq> None" "waits w' = []" by (simp_all add: calm_def)
  then obtain g where g: "x = Some g" by auto
  from lock_lawsD(1) [OF locks t [unfolded g]] have "holder w' = Some g" by (simp add: acquires_def)
  with t x g c show ?thesis by (intro that [of g w']) (simp_all add: PollMutex_poll_lock_def calm_def)
qed

lemma calm_poll_locked:
  assumes locks: "lock_laws W m wire holder" and free: "try_lock_succeeds W m holder waits" and c: "calm m holder waits (own st) lk w"
  obtains g k w' where "poll_locked W st lk cx w = (Ready (g, k), Flushing g k, lk, w')" and "calm m holder waits (Some g) lk w'"
proof (cases st)
  case Buffering
  then have "calm m holder waits None lk w" using c by (simp add: own_def)
  then show ?thesis
    by (rule calm_poll_lock [OF locks free, where cx = cx]) (use Buffering that in \<open>auto simp: poll_locked_def\<close>)
next
  case (Flushing g k)
  with c show ?thesis by (intro that [of g k w]) (simp_all add: poll_locked_def own_def)
qed

section \<open>The calls\<close>

lemma flush_buf_keeps:
  fixes W :: "('a, 'b, 'c, 'd) writer_api"
  assumes keep: "\<And>g cx bs w q w'. poll_write_w W g cx bs w = (q, w') \<Longrightarrow> P w \<Longrightarrow> P w'"
    and eq: "flush_buf W cx b g k w = Some (r, b', k', w')" and P: "P w"
  shows "P w'"
proof -
  have "V = W \<longrightarrow> P w \<longrightarrow> P (snd (snd (snd y)))" if "flush_buf V cx b g k w = Some y" for V cx b g k w y
    using that
  proof (rule flush_buf.raw_induct [rotated])
    fix fb and V :: "('a, 'b, 'c, 'd) writer_api" and cx b g k w y
    assume IH: "\<And>V cx b g k w y. fb V cx b g k w = Some y \<Longrightarrow> V = W \<longrightarrow> P w \<longrightarrow> P (snd (snd (snd y)))"
      and body: "(case PacketBuffer_bytes_from b (current_count k) of
        Panicked \<Rightarrow> Some (Panicked, b, k, w)
      | Undefined \<Rightarrow> Some (Undefined, b, k, w)
      | Done bytes \<Rightarrow>
          if bytes = [] then Some (Done (Ready (Inr ())), PacketBuffer_clear b, k, w)
          else
            (case poll_write_w V g cx bytes w of
               (Ready (Inr wrote_now), w') \<Rightarrow>
                 if wrote_now = 0
                 then Some (Done (Ready (Inl (IoError WriteZero ''failed to flush packet buffer''))), b, k, w')
                 else (case counter_add k wrote_now of
                         Done written' \<Rightarrow> fb V cx b g written' w'
                       | Panicked \<Rightarrow> Some (Panicked, b, k, w')
                       | Undefined \<Rightarrow> Some (Undefined, b, k, w'))
             | (Ready (Inl e), w') \<Rightarrow> Some (Done (Ready (Inl e)), b, k, w')
             | (Pending, w') \<Rightarrow> Some (Done Pending, b, k, w'))) = Some y"
    show "V = W \<longrightarrow> P w \<longrightarrow> P (snd (snd (snd y)))"
    proof (intro impI)
      assume V: "V = W" and P: "P w"
      have "P w'" if "poll_write_w W g cx bs w = (q, w')" for bs q w' by (rule keep [OF that P])
      with body IH P show "P (snd (snd (snd y)))"
        by (auto simp: V split: run.splits if_splits prod.splits poll.splits sum.splits)
    qed
  qed
  with eq P show ?thesis by fastforce
qed

lemma calm_flush_buf:
  assumes laws: "write_laws W wire holder rest" and free: "try_lock_succeeds W m holder waits"
    and eq: "flush_buf W cx b g k w = Some (r, b', k', w')" and c: "calm m holder waits g1 lk w"
  shows "calm m holder waits g1 lk w'"
proof (rule flush_buf_keeps [where P = "calm m holder waits g1 lk", OF _ eq c])
  fix g cx bs w q w' assume p: "poll_write_w W g cx bs w = (q, w')" and c: "calm m holder waits g1 lk w"
  show "calm m holder waits g1 lk w'" using write_lawsD(1) [OF laws p] try_lockD(6) [OF free _ p] c by (simp add: calm_def)
qed

lemma calm_drop_guard:
  assumes "lock_laws W m wire holder" and "try_lock_succeeds W m holder waits" and "calm m holder waits (Some g) lk w"
  shows "calm m holder waits None lk (drop_guard W g w)"
  using lock_lawsD(9) [OF assms(1)] try_lockD(5) [OF assms(2)] assms(3) by (simp add: calm_def)

lemma calm_flush_macro:
  assumes locks: "lock_laws W m wire holder" and laws: "write_laws W wire holder rest" and free: "try_lock_succeeds W m holder waits"
    and eq: "flush_macro W cx b g amt wrote w = Some (x, st', b', w')" and c: "calm m holder waits (Some g) lk w"
  shows "calm m holder waits (own st') lk w'"
proof -
  from eq obtain r k' w1 where f: "flush_buf W cx b g (CounterU32 amt) w = Some (r, b', k', w1)"
    and m: "(x, st', b', w') = (case r of
              Done (Ready (Inr u)) \<Rightarrow> (Inr (), Buffering, b', drop_guard W g w1)
            | Done (Ready (Inl e)) \<Rightarrow> (Inl (Done (Ready (Inl e))), Buffering, b', drop_guard W g w1)
            | Done Pending \<Rightarrow> (Inl (Done (if wrote \<noteq> 0 then Ready (Inr wrote) else Pending)), Flushing g (current_count k'), b', w1)
            | Panicked \<Rightarrow> (Inl Panicked, Flushing g (current_count k'), b', w1)
            | Undefined \<Rightarrow> (Inl Undefined, Flushing g (current_count k'), b', w1))"
    by (auto simp: flush_macro_def split: option.splits prod.splits run.splits poll.splits sum.splits)
  note c1 = calm_flush_buf [OF laws free f c]
  from m c1 calm_drop_guard [OF locks free c1] show ?thesis by (auto simp: own_def split: run.splits poll.splits sum.splits)
qed

text \<open>What a call leaves: no pending lock future, and the lock as the new state says.\<close>

abbreviation (input) leaves_calm :: "nat \<Rightarrow> ('w \<Rightarrow> 'g option) \<Rightarrow> ('w \<Rightarrow> 'f list) \<Rightarrow> 'r \<times> 'g write_state \<times> 'f poll_mutex \<times> 'b \<times> 'w \<Rightarrow> bool" where
  "leaves_calm m holder waits y \<equiv> calm m holder waits (own (fst (snd y))) (fst (snd (snd y))) (snd (snd (snd (snd y))))"

lemma calm_poll_write_loop:
  assumes locks: "lock_laws W m wire holder" and laws: "write_laws W wire holder rest" and free: "try_lock_succeeds W m holder waits"
    and eq: "poll_write_loop W cx st lk b buf wrote w = Some y" and c: "calm m holder waits (own st) lk w"
  shows "leaves_calm m holder waits y"
proof -
  have "V = W \<longrightarrow> calm m holder waits (own st) lk w \<longrightarrow> leaves_calm m holder waits y"
    if "poll_write_loop V cx st lk b buf wrote w = Some y" for V cx st lk b buf wrote w y
    using that
    apply (rule poll_write_loop.raw_induct [rotated])
    subgoal premises prems for f V cx st lk b buf wrote w y
    proof (intro impI)
      assume V: "V = W" and c: "calm m holder waits (own st) lk w"
      note IH = prems(1) [THEN mp, THEN mp] and body = prems(2) [unfolded V]
      obtain g k w1 where lock: "poll_locked W st lk cx w = (Ready (g, k), Flushing g k, lk, w1)" "calm m holder waits (Some g) lk w1"
        by (rule calm_poll_locked [OF locks free c])
      have macro: "calm m holder waits (own st') lk w''" if "flush_macro W cx b' g' amt wr w' = Some (x, st', b'', w'')" "calm m holder waits (Some g') lk w'"
        for b' g' amt wr w' x st' b'' w''
        by (rule calm_flush_macro [OF locks laws free that])
      show "leaves_calm m holder waits y"
      proof (cases st)
        case Buffering
        with body c lock show ?thesis
          by (auto split: if_splits option.splits prod.splits sum.splits run.splits dest!: macro intro: IH)
      next
        case (Flushing g' k')
        with body c show ?thesis
          by (auto split: if_splits option.splits prod.splits sum.splits run.splits dest!: macro intro: IH)
      qed
    qed
    done
  with eq c show ?thesis by blast
qed

lemma calm_flush_writer:
  assumes locks: "lock_laws W m wire holder" and laws: "write_laws W wire holder rest" and free: "try_lock_succeeds W m holder waits"
    and c: "calm m holder waits (own st) lk w"
  shows "leaves_calm m holder waits (flush_writer W cx st lk b w)"
proof -
  obtain g k w1 where lock: "poll_locked W st lk cx w = (Ready (g, k), Flushing g k, lk, w1)" "calm m holder waits (Some g) lk w1"
    by (rule calm_poll_locked [OF locks free c])
  have "calm m holder waits (Some g) lk w2" if "poll_flush_w W g cx w1 = (r, w2)" for r w2
    using write_lawsD(6) [OF laws that] try_lockD(7) [OF free _ that] lock(2) by (auto simp: quiet_def calm_def)
  then show ?thesis
    using lock(1) calm_drop_guard [OF locks free] by (auto simp: flush_writer_def own_def split: prod.split poll.split)
qed

lemma calm_poll_flush_body:
  assumes locks: "lock_laws W m wire holder" and laws: "write_laws W wire holder rest" and free: "try_lock_succeeds W m holder waits"
    and eq: "poll_flush_body W cx st lk b w = Some y" and c: "calm m holder waits (own st) lk w"
  shows "leaves_calm m holder waits y"
proof -
  obtain g k w1 where lock: "poll_locked W st lk cx w = (Ready (g, k), Flushing g k, lk, w1)" "calm m holder waits (Some g) lk w1"
    by (rule calm_poll_locked [OF locks free c])
  have buf: "calm m holder waits (Some g) lk w2" if "flush_buf W cx b g k1 w1 = Some (r, b', k', w2)" for k1 r b' k' w2
    by (rule calm_flush_buf [OF laws free that lock(2)])
  have fl: "leaves_calm m holder waits (flush_writer W cx (Flushing g k1) lk b' w2)" if "calm m holder waits (Some g) lk w2" for k1 b' w2
    by (rule calm_flush_writer [OF locks laws free]) (use that in \<open>simp add: own_def\<close>)
  show ?thesis
  proof (cases "PacketBuffer_is_empty b")
    case True
    with eq calm_flush_writer [OF locks laws free c] show ?thesis by (auto simp: poll_flush_body_def)
  next
    case False
    with eq lock(1) obtain r b' k' w2 where f: "flush_buf W cx b g (CounterU32 k) w1 = Some (r, b', k', w2)"
      by (auto simp: poll_flush_body_def split: option.splits)
    note c2 = buf [OF f]
    from False eq lock(1) f show ?thesis
      using fl [OF c2] c2 calm_drop_guard [OF locks free c2]
      by (auto simp: poll_flush_body_def split: run.splits poll.splits sum.splits if_splits)
  qed
qed

lemma calm_shutdown_loop:
  assumes locks: "lock_laws W m wire holder" and laws: "write_laws W wire holder rest" and free: "try_lock_succeeds W m holder waits"
  shows "shutdown_loop W cx st lk b w = Some (r, st', lk', b', w') \<Longrightarrow> calm m holder waits (sh_own st) lk w \<Longrightarrow>
    pm_fut lk' = None \<and> waits w' = []"
proof (induction st arbitrary: lk b w rule: measure_induct_rule [where f = shutdown_rank])
  case (less st)
  show ?case
  proof (cases st)
    case WaitingLock
    then have "calm m holder waits None lk w" using less.prems(2) by simp
    then obtain g w1 where l: "PollMutex_poll_lock W lk cx w = (Ready g, lk, w1)" "calm m holder waits (Some g) lk w1"
      by (rule calm_poll_lock [OF locks free])
    with less.prems(1) WaitingLock have "shutdown_loop W cx (ShutFlushing g 0) lk b w1 = Some (r, st', lk', b', w')"
      by (simp add: shutdown_loop.simps(1))
    from less.IH [OF _ this] l(2) WaitingLock show ?thesis by simp
  next
    case (ShutFlushing g k)
    then have c: "calm m holder waits (Some g) lk w" using less.prems(2) by simp
    have next_state: "pm_fut lk' = None \<and> waits w' = []" if "shutdown_loop W cx (ShutWriting g 0) lk b1 w1 = Some (r, st', lk', b', w')" "calm m holder waits (Some g) lk w1"
      for b1 w1
      using less.IH [OF _ that(1)] that(2) ShutFlushing by simp
    show ?thesis
    proof (cases "PacketBuffer_is_empty b")
      case True
      with less.prems(1) ShutFlushing next_state c show ?thesis by (simp add: shutdown_loop.simps(2))
    next
      case False
      with less.prems(1) ShutFlushing obtain q b1 k1 w1 where f: "flush_buf W cx b g (CounterU32 k) w = Some (q, b1, k1, w1)"
        by (auto simp: shutdown_loop.simps(2) split: option.splits)
      note c1 = calm_flush_buf [OF laws free f c]
      from less.prems(1) ShutFlushing False f next_state [OF _ c1] c1 calm_drop_guard [OF locks free c1] show ?thesis
        by (auto simp: shutdown_loop.simps(2) calm_def split: run.splits poll.splits sum.splits)
    qed
  next
    case (ShutWriting g k)
    then have c: "calm m holder waits (Some g) lk w" using less.prems(2) by simp
    show ?thesis
    proof (cases "PacketBuffer_is_empty b")
      case True
      with less.prems(1) ShutWriting obtain q b1 k1 w1 where f: "flush_buf W cx b g (CounterU8 k) w = Some (q, b1, k1, w1)"
        by (auto simp: shutdown_loop.simps split: option.splits)
      note c1 = calm_flush_buf [OF laws free f c]
      from less.prems(1) ShutWriting True f c1 calm_drop_guard [OF locks free c1] show ?thesis
        by (auto simp: shutdown_loop.simps calm_def split: run.splits poll.splits sum.splits)
    qed (use less.prems(1) ShutWriting c in \<open>auto simp: shutdown_loop.simps calm_def\<close>)
  qed (use less.prems in \<open>auto simp: shutdown_loop.simps calm_def\<close>)
qed

section \<open>Runs of one writer\<close>

text \<open>Neither the writer nor anybody else waits for the lock, until it is dropped.\<close>

fun actor_calm :: "('w \<Rightarrow> 'f list) \<Rightarrow> ('g, 'f, 'a) actor \<Rightarrow> 'w \<Rightarrow> bool" where
  "actor_calm waits (ActNew c) w \<longleftrightarrow> pm_fut (wi_write_lock c) = None \<and> waits w = []"
| "actor_calm waits (ActShake c h) w \<longleftrightarrow> pm_fut (wi_write_lock c) = None \<and> waits w = []"
| "actor_calm waits (ActConn i c) w \<longleftrightarrow> pm_fut (wi_write_lock c) = None \<and> waits w = []"
| "actor_calm waits c w \<longleftrightarrow> True"

text \<open>A write that did not fail and did not have to wait for the lock.\<close>

fun settled :: "offer \<Rightarrow> bool" where
  "settled (buf, r, waits) \<longleftrightarrow> \<not> waits \<and> (\<forall>e. r \<noteq> Ready (Inl e))"

lemma conn_calm:
  assumes "actor_ok m holder rest (ActConn i c) w bs fs es" and "actor_calm waits (ActConn i c) w" and "holder w = state_guard (wi_state c)"
  shows "calm m holder waits (state_guard (wi_state c)) (wi_write_lock c) w"
  using assms by (simp add: calm_def wi_inv_def)

lemma lock_await_waits:
  assumes free: "try_lock_succeeds W m holder waits" and w: "waits w = []" "holder w = None"
    and eq: "PollMutex_lock_poll W f cx w = (r, f', w')"
  shows "waits w' = []"
proof -
  obtain fut q fut' w1 where p: "poll_lock_fut W fut cx w = (q, fut', w1)" and f: "f = AwaitOwned fut \<or> f = AwaitBorrowed fut"
    by (cases f) (metis prod_cases3)+
  note w1 = try_lockD(3) [OF free w(1) p w(2)]
  with eq p f try_lockD(4) [OF free w1] show ?thesis by (auto split: poll.splits)
qed

lemma handshake_waits:
  assumes free: "try_lock_succeeds W m holder waits" and w: "waits w = []"
    and eq: "WriteInner_handshake_poll W c h cx w = (r, h', w')" and guard: "holder w = handshake_guard h"
  shows "waits w' = []"
proof -
  have write1: "waits w2 = []" if "handshake_write W g a cx w1 = (r1, h1, w2)" "waits w1 = []" for g a w1 r1 h1 w2
  proof -
    obtain q a' w3 where p: "poll_write_all W a g cx w1 = (q, a', w3)" by (metis prod_cases3)
    note w3 = try_lockD(8) [OF free that(2) p]
    from that(1) p w3 try_lockD(5) [OF free w3] show ?thesis by (auto simp: handshake_write_def split: poll.splits)
  qed
  show ?thesis
  proof (cases h)
    case (HandshakeLock f)
    obtain q f' w1 where p: "PollMutex_lock_poll W f cx w = (q, f', w1)" by (metis prod_cases3)
    have w1: "waits w1 = []" by (rule lock_await_waits [OF free w _ p]) (use guard HandshakeLock in simp)
    from eq HandshakeLock p w1 try_lockD(5) [OF free w1] show ?thesis by (auto split: poll.splits run.splits dest: write1)
  next
    case (HandshakeWrite g f)
    with eq write1 [OF _ w] show ?thesis by simp
  qed (use eq w in simp)
qed

lemma actor_step_calm:
  assumes laws: "wire_laws W m wire holder rest" and free: "try_lock_succeeds W m holder waits" and step: "actor_step W c w ev c' w'"
    and ok: "actor_ok m holder rest c w bs fs es" and guard: "holder w = actor_guard c" and calm: "actor_calm waits c w"
  shows "actor_calm waits c' w' \<and> (\<forall>e \<in> set ev. settled e)"
proof -
  note L = wire_lawsD(1,2) [OF laws] free
  from step show ?thesis
  proof (cases rule: actor_step.cases)
    case (do_write d cx buf r d' i)
    have cd: "calm m holder waits (state_guard (wi_state d)) (wi_write_lock d) w"
      by (rule conn_calm) (use ok guard calm do_write(1) in auto)
    from do_write(4,5) ok do_write(1) obtain wk st where st: "wi_state d = Writing wk st"
      by (cases "wi_state d") (auto simp: WriteInner_poll_write_def PoisonOnPanic_new_def)
    with do_write(4) obtain y where y: "poll_write_loop W cx st (wi_write_lock d) (wi_buffer d) buf 0 w = Some y"
      and d': "wi_write_lock d' = fst (snd (snd y))"
      by (auto simp: WriteInner_poll_write_def PoisonOnPanic_new_def split: option.splits prod.splits)
    have "snd (snd (snd (snd y))) = w'"
      using do_write(4) st y by (auto simp: WriteInner_poll_write_def PoisonOnPanic_new_def PoisonOnPanic_drop_def split: option.splits prod.splits)
    with calm_poll_write_loop [OF L y] cd st have "pm_fut (wi_write_lock d') = None" "waits w' = []" by (simp_all add: calm_def d')
    with do_write show ?thesis by simp
  next
    case (do_flush d cx q d' i)
    have cd: "calm m holder waits (state_guard (wi_state d)) (wi_write_lock d) w"
      by (rule conn_calm) (use ok guard calm do_flush(1) in auto)
    from do_flush(4,5) obtain wk st where st: "wi_state d = Writing wk st"
      by (cases "wi_state d") (auto simp: WriteInner_poll_flush_def PoisonOnPanic_new_def)
    with do_flush(4) obtain y where y: "poll_flush_body W cx st (wi_write_lock d) (wi_buffer d) w = Some y"
      and d': "wi_write_lock d' = fst (snd (snd y))"
      by (auto simp: WriteInner_poll_flush_def PoisonOnPanic_new_def split: option.splits prod.splits)
    have "snd (snd (snd (snd y))) = w'"
      using do_flush(4) st y by (auto simp: WriteInner_poll_flush_def PoisonOnPanic_new_def PoisonOnPanic_drop_def split: option.splits prod.splits)
    with calm_poll_flush_body [OF L y] cd st have "pm_fut (wi_write_lock d') = None" "waits w' = []" by (simp_all add: calm_def d')
    with do_flush show ?thesis by simp
  next
    case (do_shutdown d cx q d' wk i)
    have cd: "calm m holder waits (state_guard (wi_state d)) (wi_write_lock d) w"
      by (rule conn_calm) (use ok guard calm do_shutdown(1) in auto)
    from do_shutdown(4) obtain st st' lk' b' where
      y: "shutdown_loop W cx st (wi_write_lock d) (wi_buffer d) w = Some (Done q, st', lk', b', w')"
      and st: "sh_own st = state_guard (wi_state d)" and d': "wi_write_lock d' = lk'"
      by (cases "wi_state d") (auto simp: WriteInner_poll_shutdown_def PoisonOnPanic_new_def PoisonOnPanic_drop_def split: option.splits prod.splits)
    from calm_shutdown_loop [OF L y] cd st d' do_shutdown show ?thesis by simp
  next
    case (do_handshake d h d')
    from ok do_handshake(1) have "pm_mutex (wi_write_lock d) = m" by (simp add: wi_inv_def)
    with do_handshake(4) calm do_handshake(1) obtain f
      where "lock_ref W m w = (f, w')" "pm_fut (wi_write_lock d') = None" "waits w = []"
      by (auto simp: WriteInner_handshake_def PollMutex_lock_def split: write_pipe_state.splits write_state.splits if_splits prod.splits)
    with do_handshake try_lockD(2) [OF free, of w f w'] show ?thesis by simp
  next
    case (do_shaking d h cx h')
    with handshake_waits [OF free _ do_shaking(4)] calm guard show ?thesis by simp
  next
    case (do_shaken d h cx h')
    with handshake_waits [OF free _ do_shaken(4)] calm guard show ?thesis by simp
  qed (use calm in auto)
qed

text \<open>A stream that only ever had one writer.\<close>

lemma lone_run:
  assumes laws: "wire_laws W m wire holder rest" and free: "try_lock_succeeds W m holder waits"
    and run: "(sys_step (actor_step W) (fresh_actor m))\<^sup>*\<^sup>* (sys_start w) S" and start: "wire w = []" "holder w = None" "waits w = []"
  shows "(sy_actors S = Map.empty \<longrightarrow> waits (sy_world S) = []) \<and>
    (\<forall>i c. sy_actors S = [i \<mapsto> c] \<longrightarrow> actor_calm waits c (sy_world S) \<and> (\<forall>e \<in> set (sy_events S i). settled e))"
  using run
proof (induction rule: rtranclp_induct)
  case base
  have "sy_actors (sys_start w) = Map.empty" "sy_world (sys_start w) = w" by (simp_all add: sys_start_def)
  with start(3) map_upd_nonempty show ?case by metis
next
  case (step S1 S2)
  from step.hyps(2) show ?case
  proof (cases rule: sys_step.cases)
    case (new_actor j d)
    have S2: "sy_actors S2 = (sy_actors S1)(j \<mapsto> d)" by (simp add: new_actor(1))
    show ?thesis
    proof (intro conjI allI impI)
      fix i c assume "sy_actors S2 = [i \<mapsto> c]"
      with S2 have S1: "(sy_actors S1)(j \<mapsto> d) = [i \<mapsto> c]" by (simp only:)
      then have "((sy_actors S1)(j \<mapsto> d)) j = [i \<mapsto> c] j" by simp
      then have j: "i = j" "c = d" by (auto split: if_splits)
      have "sy_actors S1 x = None" for x using fun_cong [OF S1, of x] new_actor(2) j(1) by (cases "x = j") auto
      then have "waits (sy_world S1) = []" using step.IH by blast
      then show "actor_calm waits c (sy_world S2)" "\<forall>e \<in> set (sy_events S2 i). settled e"
        using new_actor j by (auto simp: fresh_actor_def box_new_def WriteInner_init_def PollMutex_new_def)
    qed (metis S2 map_upd_nonempty)
  next
    case (actor_acts j d ev d' w')
    have S2: "sy_actors S2 = (sy_actors S1)(j \<mapsto> d')" by (simp add: actor_acts(1))
    show ?thesis
    proof (intro conjI allI impI)
      fix i c assume "sy_actors S2 = [i \<mapsto> c]"
      with S2 have upd: "(sy_actors S1)(j \<mapsto> d') = [i \<mapsto> c]" by (simp only:)
      then have "((sy_actors S1)(j \<mapsto> d')) j = [i \<mapsto> c] j" by simp
      then have j: "i = j" "c = d'" by (auto split: if_splits)
      have "sy_actors S1 x = [j \<mapsto> d] x" for x using fun_cong [OF upd, of x] actor_acts(2) j(1) by (cases "x = j") auto
      then have one: "sy_actors S1 = [j \<mapsto> d]" by blast
      with step.IH have IH: "actor_calm waits d (sy_world S1)" "\<forall>e \<in> set (sy_events S1 j). settled e" by blast+
      obtain F bs where fr: "wire_system.framed wire holder m rest F bs S1" by (rule writers_framed [OF laws step.hyps(1) start(1,2)])
      note F = wire_system.framedD [OF fr]
      note ok = F(3) [OF actor_acts(2)]
      have "holder (sy_world S1) = actor_guard d"
      proof (cases "holder (sy_world S1)")
        case None
        with wire_system.ok_guard [OF ok] show ?thesis by (cases "actor_guard d") auto
      next
        case (Some g)
        with F(6) one show ?thesis by (auto split: if_splits)
      qed
      from actor_step_calm [OF laws free actor_acts(3) ok this IH(1)] IH(2) j actor_acts
      show "actor_calm waits c (sy_world S2)" "\<forall>e \<in> set (sy_events S2 i). settled e" by auto
    qed (metis S2 map_upd_nonempty)
  qed
qed

section \<open>What the application knows\<close>

text \<open>The bytes that the answers say were accepted.\<close>

definition answered :: "offer list \<Rightarrow> byte list" where
  "answered es = concat (map (\<lambda>(buf, r, waits). case r of Ready (Inr k) \<Rightarrow> take k buf | _ \<Rightarrow> []) es)"

lemma accepted_answered: "accepted es bs \<Longrightarrow> \<forall>e \<in> set es. settled e \<Longrightarrow> bs = answered es"
proof (induction rule: accepted.induct)
  case (accepted_snoc es bs n buf r waits)
  then show ?case by (cases r rule: poll.exhaust; auto simp: answered_def split: sum.split)
qed (simp add: answered_def)

end
