(* ===== verification/Write_Live.thy ===== *)
theory Write_Live
  imports Lone_Writer Loopback
begin

text \<open>
  A connection never stays pending without a reason: while nobody else has the lock or waits for it and the stream takes bytes, every
  call completes at once, also if the connection itself has waited for the lock. A write accepts all it is offered, a flush and a shutdown
  answer \<open>Ready(Ok)\<close>. The sample mutex at the end has a queue.
\<close>

section \<open>A stream that takes bytes\<close>

definition stream_ready :: "('w, 'g, 'f, 'a) writer_api \<Rightarrow> bool" where
  "stream_ready W \<longleftrightarrow>
     (\<forall>g cx bs w. bs \<noteq> [] \<longrightarrow> (\<exists>n w'. 0 < n \<and> poll_write_w W g cx bs w = (Ready (Inr n), w'))) \<and>
     (\<forall>g cx w. \<exists>w'. poll_flush_w W g cx w = (Ready (Inr ()), w'))"

text \<open>The result of a call that is through, or has panicked.\<close>

abbreviation (input) through :: "'r \<Rightarrow> 'r io_result poll run \<Rightarrow> bool" where
  "through v r \<equiv> r = Done (Ready (Inr v)) \<or> r = Panicked \<or> r = Undefined"

section \<open>A connection whose turn it is\<close>

text \<open>Documented behaviour of the mutex: the future that waits alone for a lock that nobody has gets it when it is polled.\<close>

definition lock_turns :: "('w, 'g, 'f, 'a) writer_api \<Rightarrow> ('w \<Rightarrow> 'g option) \<Rightarrow> ('w \<Rightarrow> 'f list) \<Rightarrow> bool" where
  "lock_turns W holder waits \<longleftrightarrow>
     (\<forall>f cx w. holder w = None \<longrightarrow> waits w = [f] \<longrightarrow> (\<exists>g f' w'. poll_lock_fut W f cx w = (Ready g, f', w') \<and> waits w' = []))"

text \<open>Either nobody waits and the lock is in the hand \<open>g\<close> says, or nobody has it and the connection is the only one that waits.\<close>

definition turn :: "nat \<Rightarrow> ('w \<Rightarrow> 'g option) \<Rightarrow> ('w \<Rightarrow> 'f list) \<Rightarrow> 'g option \<Rightarrow> 'f poll_mutex \<Rightarrow> 'w \<Rightarrow> bool" where
  "turn m holder waits g lk w \<longleftrightarrow> pm_mutex lk = m \<and> holder w = g \<and>
     (case pm_fut lk of None \<Rightarrow> waits w = [] | Some f \<Rightarrow> g = None \<and> waits w = [f])"

lemma calm_turn: "calm m holder waits g lk w \<Longrightarrow> turn m holder waits g lk w"
  by (simp add: calm_def turn_def)

lemma turn_calm: "turn m holder waits (Some g) lk w \<Longrightarrow> calm m holder waits (Some g) lk w"
  by (auto simp: calm_def turn_def split: option.splits)

lemma turn_poll_lock:
  assumes locks: "lock_laws W m wire holder" and free: "try_lock_succeeds W m holder waits" and turns: "lock_turns W holder waits"
    and c: "turn m holder waits None lk w"
  obtains g lk' w' where "PollMutex_poll_lock W lk cx w = (Ready g, lk', w')" and "calm m holder waits (Some g) lk' w'"
proof (cases "pm_fut lk")
  case None
  then have "calm m holder waits None lk w" using c by (simp add: turn_def calm_def)
  then show ?thesis by (rule calm_poll_lock [OF locks free]) (rule that)
next
  case (Some f)
  with c have w: "holder w = None" "waits w = [f]" "pm_mutex lk = m" by (simp_all add: turn_def)
  with turns obtain g f' w' where p: "poll_lock_fut W f cx w = (Ready g, f', w')" "waits w' = []" unfolding lock_turns_def by blast
  have "holder (drop_lock_fut W f' w') = Some g"
    using lock_lawsD(5) [OF locks p(1)] lock_lawsD(7) [OF locks, of w' f'] by (simp add: acquires_def quiet_def)
  with p w Some try_lockD(4) [OF free p(2)] show ?thesis
    by (intro that [of g "lk\<lparr>pm_fut := None\<rparr>" "drop_lock_fut W f' w'"]) (simp_all add: PollMutex_poll_lock_def PollMutex_poll_fut_def calm_def)
qed

lemma turn_poll_locked:
  assumes locks: "lock_laws W m wire holder" and free: "try_lock_succeeds W m holder waits" and turns: "lock_turns W holder waits"
    and c: "turn m holder waits (own st) lk w"
  obtains g k lk' w' where "poll_locked W st lk cx w = (Ready (g, k), Flushing g k, lk', w')" and "calm m holder waits (Some g) lk' w'"
proof (cases st)
  case Buffering
  then have "turn m holder waits None lk w" using c by (simp add: own_def)
  then show ?thesis
    by (rule turn_poll_lock [OF locks free turns, where cx = cx]) (use Buffering that in \<open>auto simp: poll_locked_def\<close>)
next
  case (Flushing g k)
  with c show ?thesis by (intro that [of g k lk w]) (simp_all add: poll_locked_def own_def turn_calm)
qed

section \<open>Sending\<close>

lemma ready_flush_buf:
  assumes ready: "stream_ready W" and eq: "flush_buf W cx b g k w = Some y"
  shows "through () (fst y)"
proof -
  have "V = W \<longrightarrow> through () (fst y)" if "flush_buf V cx b g k w = Some y" for V cx b g k w y
    using that
    apply (rule flush_buf.raw_induct [rotated])
    subgoal premises prems for f V cx b g k w y
    proof
      assume V: "V = W"
      have write1: "\<exists>n w'. 0 < n \<and> poll_write_w W g cx bs w = (Ready (Inr n), w')" if "bs \<noteq> []" for bs
        using ready that unfolding stream_ready_def by blast
      show "through () (fst y)"
      proof (cases "PacketBuffer_bytes_from b (current_count k)")
        case (Done bs)
        show ?thesis
        proof (cases "bs = []")
          case False
          with write1 obtain n w' where "0 < n" "poll_write_w W g cx bs w = (Ready (Inr n), w')" by blast
          with prems(2) Done False prems(1) show ?thesis by (auto simp: V split: run.splits)
        qed (use prems(2) Done in auto)
      qed (use prems(2) in auto)
    qed
    done
  with eq show ?thesis by blast
qed

lemma ready_flush_macro:
  assumes ready: "stream_ready W" and eq: "flush_macro W cx b g amt wrote w = Some (x, st', b', w')"
  shows "x = Inr () \<or> x = Inl Panicked \<or> x = Inl Undefined"
proof -
  from eq obtain r b1 k1 w1 where f: "flush_buf W cx b g (CounterU32 amt) w = Some (r, b1, k1, w1)"
    by (auto simp: flush_macro_def split: option.splits)
  with ready_flush_buf [OF ready f] eq show ?thesis by (auto simp: flush_macro_def split: run.splits poll.splits sum.splits)
qed

lemma push_within: "PacketBuffer_push b d k = Done (n, b') \<Longrightarrow> unat n \<le> length d"
  by (auto simp: PacketBuffer_push_def Let_def unat_of_nat mod_less_eq_dividend split: option.splits if_splits)

section \<open>The calls\<close>

lemma ready_poll_write_loop:
  assumes locks: "lock_laws W m wire holder" and laws: "write_laws W wire holder rest" and free: "try_lock_succeeds W m holder waits" and turns: "lock_turns W holder waits"
    and ready: "stream_ready W" and eq: "poll_write_loop W cx st lk b buf wrote w = Some y" and c: "turn m holder waits (own st) lk w"
  shows "through (wrote + length buf) (fst y)"
proof -
  have "V = W \<longrightarrow> turn m holder waits (own st) lk w \<longrightarrow> through (wrote + length buf) (fst y)"
    if "poll_write_loop V cx st lk b buf wrote w = Some y" for V cx st lk b buf wrote w y
    using that
    apply (rule poll_write_loop.raw_induct [rotated])
    subgoal premises prems for f V cx st lk b buf wrote w y
    proof (intro impI)
      assume V: "V = W" and c: "turn m holder waits (own st) lk w"
      note body = prems(2) [unfolded V]
      define P where "P \<longleftrightarrow> through (wrote + length buf) (fst y)"
      have base: "P" if "y = (Done (Ready (Inr (wrote + length buf))), z) \<or> y = (Panicked, z) \<or> y = (Undefined, z)" for z
        using that by (auto simp: P_def)
      have IH: "P"
        if "f W cx st' lk' b' (drop (unat n) buf) (wrote + unat n) w' = Some y" "turn m holder waits (own st') lk' w'" "unat n \<le> length buf"
        for st' lk' b' n w'
        using prems(1) [rule_format, OF that(1) refl that(2)] that(3) by (simp add: P_def)
      have IH0: "P" if "f W cx st' lk' b' buf wrote w' = Some y" "turn m holder waits (own st') lk' w'" for st' lk' b' w'
        using prems(1) [rule_format, OF that(1) refl that(2)] by (simp add: P_def)
      obtain g k lk1 w1 where lock: "poll_locked W st lk cx w = (Ready (g, k), Flushing g k, lk1, w1)" "calm m holder waits (Some g) lk1 w1"
        by (rule turn_poll_locked [OF locks free turns c])
      have macro: "turn m holder waits (own st') lk' w''"
        if "flush_macro W cx b' g' amt wr w' = Some (x, st', b'', w'')" "turn m holder waits (Some g') lk' w'" for b' g' amt wr w' x st' b'' w'' lk'
        by (rule calm_turn [OF calm_flush_macro [OF locks laws free that(1) turn_calm [OF that(2)]]])
      note lock1 = calm_turn [OF lock(2)]
      have "P"
      proof (cases st)
        case Buffering
        with body c lock(1) lock1 show ?thesis
          by (auto split: if_splits option.splits prod.splits sum.splits run.splits
              dest: ready_flush_macro [OF ready] intro: base IH IH0 macro push_within)
      next
        case (Flushing g' k')
        with body c show ?thesis
          by (auto split: if_splits option.splits prod.splits sum.splits run.splits
              dest: ready_flush_macro [OF ready] intro: base IH IH0 macro push_within)
      qed
      then show "through (wrote + length buf) (fst y)" by (simp add: P_def)
    qed
    done
  with eq c show ?thesis by blast
qed

lemma ready_flush_writer:
  assumes locks: "lock_laws W m wire holder" and free: "try_lock_succeeds W m holder waits" and turns: "lock_turns W holder waits" and ready: "stream_ready W"
    and c: "turn m holder waits (own st) lk w"
  shows "through () (fst (flush_writer W cx st lk b w))"
proof -
  obtain g k lk1 w1 where lock: "poll_locked W st lk cx w = (Ready (g, k), Flushing g k, lk1, w1)"
    by (rule turn_poll_locked [OF locks free turns c])
  moreover obtain w2 where "poll_flush_w W g cx w1 = (Ready (Inr ()), w2)" using ready unfolding stream_ready_def by blast
  ultimately show ?thesis by (simp add: flush_writer_def)
qed

lemma ready_poll_flush_body:
  assumes locks: "lock_laws W m wire holder" and laws: "write_laws W wire holder rest" and free: "try_lock_succeeds W m holder waits" and turns: "lock_turns W holder waits"
    and ready: "stream_ready W" and eq: "poll_flush_body W cx st lk b w = Some y" and c: "turn m holder waits (own st) lk w"
  shows "through () (fst y)"
proof (cases "PacketBuffer_is_empty b")
  case True
  with eq ready_flush_writer [OF locks free turns ready c] show ?thesis by (auto simp: poll_flush_body_def)
next
  case False
  obtain g k lk1 w1 where lock: "poll_locked W st lk cx w = (Ready (g, k), Flushing g k, lk1, w1)" "calm m holder waits (Some g) lk1 w1"
    by (rule turn_poll_locked [OF locks free turns c])
  with False eq obtain r b' k' w2 where f: "flush_buf W cx b g (CounterU32 k) w1 = Some (r, b', k', w2)"
    by (auto simp: poll_flush_body_def split: option.splits)
  have "turn m holder waits (own (Flushing g k1)) lk1 w2" for k1 using calm_turn [OF calm_flush_buf [OF laws free f lock(2)]] by (simp add: own_def)
  then have writer: "through () (fst (flush_writer W cx (Flushing g k1) lk1 b1 w2))" for k1 b1
    by (rule ready_flush_writer [OF locks free turns ready])
  from ready_flush_buf [OF ready f] False eq lock(1) f writer [of "current_count k'" b'] show ?thesis
    by (auto simp: poll_flush_body_def split: if_splits)
qed

lemma ready_shutdown_loop:
  assumes locks: "lock_laws W m wire holder" and laws: "write_laws W wire holder rest" and free: "try_lock_succeeds W m holder waits" and turns: "lock_turns W holder waits"
    and ready: "stream_ready W"
  shows "shutdown_loop W cx st lk b w = Some y \<Longrightarrow> turn m holder waits (sh_own st) lk w \<Longrightarrow> st \<noteq> ShutError \<Longrightarrow> through () (fst y)"
proof (induction st arbitrary: lk b w rule: measure_induct_rule [where f = shutdown_rank])
  case (less st)
  show ?case
  proof (cases st)
    case WaitingLock
    then have "turn m holder waits None lk w" using less.prems(2) by simp
    then obtain g lk1 w1 where l: "PollMutex_poll_lock W lk cx w = (Ready g, lk1, w1)" "calm m holder waits (Some g) lk1 w1"
      by (rule turn_poll_lock [OF locks free turns])
    with less.prems(1) WaitingLock have "shutdown_loop W cx (ShutFlushing g 0) lk1 b w1 = Some y"
      by (simp add: shutdown_loop.simps(1))
    from less.IH [OF _ this] calm_turn [OF l(2)] WaitingLock show ?thesis by simp
  next
    case (ShutFlushing g k)
    then have c: "calm m holder waits (Some g) lk w" using less.prems(2) turn_calm by simp
    have next_state: "through () (fst y)" if "shutdown_loop W cx (ShutWriting g 0) lk b1 w1 = Some y" "calm m holder waits (Some g) lk w1" for b1 w1
      using less.IH [OF _ that(1)] calm_turn [OF that(2)] ShutFlushing by simp
    show ?thesis
    proof (cases "PacketBuffer_is_empty b")
      case True
      with less.prems(1) ShutFlushing next_state c show ?thesis by (simp add: shutdown_loop.simps(2))
    next
      case False
      with less.prems(1) ShutFlushing obtain q b1 k1 w1 where f: "flush_buf W cx b g (CounterU32 k) w = Some (q, b1, k1, w1)"
        by (auto simp: shutdown_loop.simps(2) split: option.splits)
      from ready_flush_buf [OF ready f] less.prems(1) ShutFlushing False f next_state [OF _ calm_flush_buf [OF laws free f c]] show ?thesis
        by (auto simp: shutdown_loop.simps(2))
    qed
  next
    case (ShutWriting g k)
    show ?thesis
    proof (cases "PacketBuffer_is_empty b")
      case True
      with less.prems(1) ShutWriting obtain q b1 k1 w1 where f: "flush_buf W cx b g (CounterU8 k) w = Some (q, b1, k1, w1)"
        by (auto simp: shutdown_loop.simps split: option.splits)
      from ready_flush_buf [OF ready f] less.prems(1) ShutWriting True f show ?thesis by (auto simp: shutdown_loop.simps)
    qed (use less.prems(1) ShutWriting in \<open>auto simp: shutdown_loop.simps\<close>)
  qed (use less.prems in \<open>auto simp: shutdown_loop.simps\<close>)
qed

section \<open>Liveness\<close>

text \<open>
  C21. While nobody else has the lock or waits for it and the stream takes bytes, an open connection never answers \<open>Pending\<close>, whether a frame of it is
  partly sent, it has to take the lock, or it has been waiting for it: a write of any length accepts everything it is offered, a flush is through, and
  so is a shutdown.
\<close>

theorem calls_complete:
  assumes "lock_laws W m wire holder" and "write_laws W wire holder rest" and "try_lock_succeeds W m holder waits"
    and "lock_turns W holder waits" and "stream_ready W"
    and "wi_inv holder m this w" and "wi_state this = Writing wk st" and "wire w = base @ wi_in_flight this"
    and "holder w = state_guard (wi_state this)"
    and "case pm_fut (wi_write_lock this) of None \<Rightarrow> waits w = [] | Some f \<Rightarrow> holder w = None \<and> waits w = [f]"
  shows "(\<exists>this' w'. WriteInner_poll_write W this cx buf w = Some (Done (Ready (Inr (length buf))), this', w')) \<and>
    (\<exists>this' w'. WriteInner_poll_flush W this cx w = Some (Done (Ready (Inr ())), this', w')) \<and>
    (\<exists>this' w' woken. WriteInner_poll_shutdown W this cx w = Some (Done (Ready (Inr ())), this', w', woken))"
proof (intro conjI)
  have c: "turn m holder waits (own st) (wi_write_lock this) w"
    using assms(6,7,9,10) by (auto simp: turn_def wi_inv_def split: option.splits)
  have flush_ready: "flush_always_ready W" using assms(5) unfolding stream_ready_def flush_always_ready_def by (metis fst_conv poll.distinct(1))
  obtain r this' w' where 1: "WriteInner_poll_write W this cx buf w = Some (Done r, this', w')"
    by (rule poll_write_outcome [OF assms(1,2,6-8), of cx buf])
  with assms(7) obtain y where y: "poll_write_loop W cx st (wi_write_lock this) (wi_buffer this) buf 0 w = Some y" "fst y = Done r"
    by (auto simp: WriteInner_poll_write_def PoisonOnPanic_new_def split: option.splits prod.splits)
  from ready_poll_write_loop [OF assms(1-5) y(1) c] y(2) 1
  show "\<exists>this' w'. WriteInner_poll_write W this cx buf w = Some (Done (Ready (Inr (length buf))), this', w')" by auto
  obtain r2 this2 w2 where 2: "WriteInner_poll_flush W this cx w = Some (Done r2, this2, w2)"
    by (rule poll_flush_outcome [OF assms(1,2) flush_ready assms(6-8), of cx])
  with assms(7) obtain y2 where y2: "poll_flush_body W cx st (wi_write_lock this) (wi_buffer this) w = Some y2" "fst y2 = Done r2"
    by (auto simp: WriteInner_poll_flush_def PoisonOnPanic_new_def split: option.splits prod.splits)
  from ready_poll_flush_body [OF assms(1-5) y2(1) c] y2(2) 2
  show "\<exists>this' w'. WriteInner_poll_flush W this cx w = Some (Done (Ready (Inr ())), this', w')" by auto
  obtain r3 this3 w3 wk3 where 3: "WriteInner_poll_shutdown W this cx w = Some (Done r3, this3, w3, wk3)"
    by (rule poll_shutdown_outcome [OF assms(1,2,6,8), of cx])
  with assms(7) obtain y3 where y3: "shutdown_loop W cx (shutdown_enter st) (wi_write_lock this) (wi_buffer this) w = Some y3" "fst y3 = Done r3"
    by (auto simp: WriteInner_poll_shutdown_def PoisonOnPanic_new_def split: option.splits prod.splits)
  have "turn m holder waits (sh_own (shutdown_enter st)) (wi_write_lock this) w" "shutdown_enter st \<noteq> ShutError"
    using c by (cases st; simp add: shutdown_enter_def own_def)+
  from ready_shutdown_loop [OF assms(1-5) y3(1) this] y3(2) 3
  show "\<exists>this' w' woken. WriteInner_poll_shutdown W this cx w = Some (Done (Ready (Inr ())), this', w', woken)" by auto
qed

text \<open>
  A stream that takes everything, behind a mutex with a queue: a future that finds the lock taken, or others before it, joins the queue, and only the
  first of the queue gets the lock.
\<close>

record fair_world =
  fw_wire :: "byte list"
  fw_held :: bool
  fw_queue :: "nat list"
  fw_next :: nat

definition fw_holder :: "fair_world \<Rightarrow> unit option" where
  "fw_holder w = (if fw_held w then Some () else None)"

definition fw_poll_lock :: "nat \<Rightarrow> waker \<Rightarrow> fair_world \<Rightarrow> unit poll \<times> nat \<times> fair_world" where
  "fw_poll_lock f cx w =
     (if \<not> fw_held w \<and> (fw_queue w = [] \<or> hd (fw_queue w) = f) then (Ready (), f, w\<lparr>fw_held := True, fw_queue := tl (fw_queue w)\<rparr>)
      else (Pending, f, w\<lparr>fw_queue := (if f \<in> set (fw_queue w) then fw_queue w else fw_queue w @ [f])\<rparr>))"

definition fair :: "(fair_world, unit, nat, byte list) writer_api" where
  "fair =
     \<lparr>try_lock_owned = (\<lambda>m w. if fw_held w \<or> fw_queue w \<noteq> [] then (None, w) else (Some (), w\<lparr>fw_held := True\<rparr>)),
      lock_owned = (\<lambda>m w. (fw_next w, w\<lparr>fw_next := fw_next w + 1\<rparr>)),
      lock_ref = (\<lambda>m w. (fw_next w, w\<lparr>fw_next := fw_next w + 1\<rparr>)),
      poll_lock_fut = fw_poll_lock,
      drop_lock_fut = (\<lambda>f w. w\<lparr>fw_queue := removeAll f (fw_queue w)\<rparr>),
      drop_guard = (\<lambda>g w. w\<lparr>fw_held := False\<rparr>),
      poll_write_w = (\<lambda>g cx bs w. (Ready (Inr (length bs)), w\<lparr>fw_wire := fw_wire w @ bs\<rparr>)),
      poll_flush_w = (\<lambda>g cx w. (Ready (Inr ()), w)),
      write_all = (\<lambda>bs. bs),
      poll_write_all = (\<lambda>a g cx w. (Ready (Inr ()), [], w\<lparr>fw_wire := fw_wire w @ a\<rparr>))\<rparr>"

lemma fair_laws:
  "lock_laws fair m fw_wire fw_holder" "write_laws fair fw_wire fw_holder id" "try_lock_succeeds fair m fw_holder fw_queue"
  "lock_turns fair fw_holder fw_queue" "stream_ready fair"
proof -
  show "lock_laws fair m fw_wire fw_holder"
    by (simp add: lock_laws_def fair_def fw_poll_lock_def fw_holder_def quiet_def acquires_def)
  show "write_laws fair fw_wire fw_holder id" by (auto simp: write_laws_def fair_def fw_holder_def quiet_def)
  show "try_lock_succeeds fair m fw_holder fw_queue" by (simp add: try_lock_succeeds_def fair_def fw_poll_lock_def fw_holder_def)
  show "lock_turns fair fw_holder fw_queue" by (simp add: lock_turns_def fair_def fw_poll_lock_def fw_holder_def)
  show "stream_ready fair" by (simp add: stream_ready_def fair_def)
qed

text \<open>A connection that has been waiting for the lock and finds it free: a write of more than one packet, and a shutdown.\<close>

definition queued_writer :: "(unit, nat) write_inner" where
  "queued_writer = \<lparr>wi_write_lock = \<lparr>pm_mutex = 0, pm_fut = Some 4\<rparr>, wi_state = Writing Noop Buffering,
     wi_buffer = PacketBuffer_init uninit_packet addr0\<rparr>"

definition queued_world :: fair_world where
  "queued_world = \<lparr>fw_wire = [], fw_held = False, fw_queue = [4], fw_next = 5\<rparr>"

theorem calls_complete_witness:
  "(\<exists>this' w'. WriteInner_poll_write fair queued_writer (Task 1) (replicate 70000 7) queued_world = Some (Done (Ready (Inr 70000)), this', w')) \<and>
   (\<exists>this' w' woken. WriteInner_poll_shutdown fair queued_writer (Task 1) queued_world = Some (Done (Ready (Inr ())), this', w', woken))"
proof -
  have c: "wi_inv fw_holder 0 queued_writer queued_world" "wi_state queued_writer = Writing Noop Buffering"
    "fw_wire queued_world = [] @ wi_in_flight queued_writer" "fw_holder queued_world = state_guard (wi_state queued_writer)"
    "case pm_fut (wi_write_lock queued_writer) of None \<Rightarrow> fw_queue queued_world = []
      | Some f \<Rightarrow> fw_holder queued_world = None \<and> fw_queue queued_world = [f]"
    by (simp_all add: queued_writer_def queued_world_def wi_inv_def ws_inv_def wi_in_flight_def in_flight_def own_def fw_holder_def)
  from calls_complete [OF fair_laws c, of "Task 1" "replicate 70000 7"] show ?thesis
    by (simp only: length_replicate)
qed

end
