(* ===== verification/Read_Buffer.thy ===== *)
theory Read_Buffer
  imports Mux_Prelude
begin

text \<open>
  \<open>src/read/read_buffer.rs\<close>: the buffer between the shared reader and one connection. Tokio's
  \<open>ReadBuf\<close> is a parameter, the record \<open>readbuf_api\<close> of the operations the program calls on a buffer
  of type \<open>'b\<close>; what the program relies on is \<open>readbuf_laws\<close>, stated through a view of the buffer:
  its memory, its capacity, and how much of it is filled and known to be initialised. The reader that
  fills a buffer is a function argument with the contract \<open>fills\<close>.
\<close>

section \<open>The parameters\<close>

record 'b readbuf_api =
  rb_uninit :: "mem \<Rightarrow> nat \<Rightarrow> 'b"
  rb_assume_init :: "nat \<Rightarrow> 'b \<Rightarrow> 'b"
  rb_set_filled :: "nat \<Rightarrow> 'b \<Rightarrow> 'b run"
  rb_remaining :: "'b \<Rightarrow> nat"
  rb_filled :: "'b \<Rightarrow> byte list"
  rb_initialized :: "'b \<Rightarrow> nat"
  rb_unfilled :: "'b \<Rightarrow> nat"
  rb_store :: "byte list \<Rightarrow> 'b \<Rightarrow> 'b"
  rb_put_slice :: "byte list \<Rightarrow> 'b \<Rightarrow> 'b run"
  rb_mem :: "'b \<Rightarrow> mem"

text \<open>
  \<open>rb_uninit m n\<close> is \<open>ReadBuf::uninit\<close> on a slice of \<open>n\<close> cells, \<open>rb_unfilled\<close> the length of
  \<open>unfilled_mut()\<close>, \<open>rb_store\<close> a copy to the front of that slice, and \<open>rb_mem\<close> what the slice holds
  when the \<open>ReadBuf\<close> is gone.
\<close>

record rb_view =
  v_mem :: mem
  v_cap :: nat
  v_filled :: nat
  v_init :: nat

definition readbuf_laws :: "'b readbuf_api \<Rightarrow> ('b \<Rightarrow> rb_view) \<Rightarrow> bool" where
  "readbuf_laws B view \<longleftrightarrow>
     (\<forall>m n. view (rb_uninit B m n) = \<lparr>v_mem = m, v_cap = n, v_filled = 0, v_init = 0\<rparr>) \<and>
     (\<forall>k b. view (rb_assume_init B k b) =
              (view b)\<lparr>v_init := max (v_init (view b)) (v_filled (view b) + k)\<rparr>) \<and>
     (\<forall>k b. k \<le> v_init (view b) \<longrightarrow> (\<exists>b'. rb_set_filled B k b = Done b' \<and> view b' = (view b)\<lparr>v_filled := k\<rparr>)) \<and>
     (\<forall>k b. v_init (view b) < k \<longrightarrow> rb_set_filled B k b = Panicked) \<and>
     (\<forall>b. rb_remaining B b = v_cap (view b) - v_filled (view b)) \<and>
     (\<forall>b. length (rb_filled B b) = v_filled (view b)) \<and>
     (\<forall>b xs. mem_read (v_mem (view b)) 0 (v_filled (view b)) = Some xs \<longrightarrow> rb_filled B b = xs) \<and>
     (\<forall>b. rb_initialized B b = v_init (view b)) \<and>
     (\<forall>b. rb_unfilled B b = v_cap (view b) - v_filled (view b)) \<and>
     (\<forall>bs b. view (rb_store B bs b) = (view b)\<lparr>v_mem := mem_write (v_mem (view b)) (v_filled (view b)) bs\<rparr>) \<and>
     (\<forall>bs b. length bs \<le> v_cap (view b) - v_filled (view b) \<longrightarrow>
        (\<exists>b'. rb_put_slice B bs b = Done b' \<and>
           view b' = (view b)\<lparr>v_mem := mem_write (v_mem (view b)) (v_filled (view b)) bs,
             v_filled := v_filled (view b) + length bs,
             v_init := max (v_init (view b)) (v_filled (view b) + length bs)\<rparr>)) \<and>
     (\<forall>b. rb_mem B b = v_mem (view b))"

text \<open>A buffer as the documentation of \<open>ReadBuf\<close> has it, and one that has grown by \<open>bs\<close>.\<close>

definition rb_ok :: "rb_view \<Rightarrow> bool" where
  "rb_ok v \<longleftrightarrow> v_filled v \<le> v_init v \<and> v_init v \<le> v_cap v \<and> mem_read (v_mem v) 0 (v_init v) \<noteq> None"

definition rb_contents :: "rb_view \<Rightarrow> byte list" where
  "rb_contents v = the (mem_read (v_mem v) 0 (v_filled v))"

definition rb_grown :: "rb_view \<Rightarrow> byte list \<Rightarrow> rb_view \<Rightarrow> bool" where
  "rb_grown v bs v' \<longleftrightarrow> rb_ok v' \<and> v_cap v' = v_cap v \<and> v_init v \<le> v_init v' \<and>
     v_filled v' = v_filled v + length bs \<and> rb_contents v' = rb_contents v @ bs"

text \<open>
  Documented behaviour of \<open>AsyncRead::poll_read\<close>: a ready read has put the next bytes of the stream
  behind the filled part, at most \<open>limit\<close> (if there is one) and at most what fits; a pending or failed one has
  filled nothing. \<open>src\<close> are the bytes the stream has delivered.
\<close>

definition within :: "nat option \<Rightarrow> nat \<Rightarrow> bool" where
  "within limit n \<longleftrightarrow> (case limit of None \<Rightarrow> True | Some l \<Rightarrow> n \<le> l)"

definition fills ::
  "('b \<Rightarrow> rb_view) \<Rightarrow> ('w \<Rightarrow> byte list) \<Rightarrow> nat option \<Rightarrow> (waker \<Rightarrow> 'b \<Rightarrow> 'w \<Rightarrow> unit io_result poll \<times> 'b \<times> 'w) \<Rightarrow> bool" where
  "fills view src limit poll_read \<longleftrightarrow>
     (\<forall>cx b w r b' w'. poll_read cx b w = (r, b', w') \<longrightarrow> rb_ok (view b) \<longrightarrow>
        (\<exists>bs. rb_grown (view b) bs (view b') \<and> src w' = src w @ bs \<and> within limit (length bs) \<and>
              (r \<noteq> Ready (Inr ()) \<longrightarrow> bs = [])))"

section \<open>Model\<close>

text \<open>\<open>ReadBuffer\<close>; the memory behind \<open>ptr\<close> is part of it.\<close>

record read_buffer =
  rd_ptr :: mem
  rd_capacity :: nat
  rd_pos :: nat
  rd_filled :: nat
  rd_initialized :: nat

text \<open>
  \<open>new\<close>: \<open>Layout::array\<close> fails above \<open>isize::MAX\<close> bytes, and the allocator may fail. Fresh memory is not
  initialised.
\<close>

definition ISIZE_MAX :: nat where
  "ISIZE_MAX = 2 ^ 63 - 1"

definition ReadBuffer_new :: "(nat \<Rightarrow> 'w \<Rightarrow> bool \<times> 'w) \<Rightarrow> nat \<Rightarrow> 'w \<Rightarrow> read_buffer io_result \<times> 'w" where
  "ReadBuffer_new alloc capacity w =
     (case (if capacity \<le> ISIZE_MAX then alloc capacity w else (False, w)) of
        (True, w') \<Rightarrow>
          (Inr \<lparr>rd_ptr = Map.empty, rd_capacity = capacity, rd_pos = 0, rd_filled = 0, rd_initialized = 0\<rparr>, w')
      | (False, w') \<Rightarrow> (Inl (IoError OutOfMemory ''failed to allocate read buffer''), w'))"

definition ReadBuffer_bytes :: "read_buffer \<Rightarrow> byte list run" where
  "ReadBuffer_bytes self =
     (if rd_filled self < rd_pos self then Undefined
      else case mem_read (rd_ptr self) (rd_pos self) (rd_filled self - rd_pos self) of
             None \<Rightarrow> Undefined
           | Some bs \<Rightarrow> Done bs)"

text \<open>\<open>Debug\<close> shows the unread bytes; \<open>Drop\<close> gives back the memory, with the size in \<open>capacity\<close>.\<close>

definition ReadBuffer_fmt :: "(string \<Rightarrow> string \<times> byte list \<Rightarrow> 'r) \<Rightarrow> read_buffer \<Rightarrow> 'r run" where
  "ReadBuffer_fmt debug_struct self = run_map (\<lambda>bytes. debug_struct ''ReadBuffer'' (''buffer'', bytes)) (ReadBuffer_bytes self)"

definition ReadBuffer_drop :: "(nat \<Rightarrow> 'w \<Rightarrow> 'w) \<Rightarrow> read_buffer \<Rightarrow> 'w \<Rightarrow> 'w" where
  "ReadBuffer_drop dealloc self w = dealloc (rd_capacity self) w"

text \<open>\<open>fill_buffer\<close>: the \<open>ReadBuf\<close> it makes of the memory, and what it does with it.\<close>

definition ReadBuffer_readbuf :: "'b readbuf_api \<Rightarrow> read_buffer \<Rightarrow> 'b run" where
  "ReadBuffer_readbuf B self =
     (if \<not> rd_filled self \<le> rd_initialized self \<or> \<not> rd_initialized self \<le> rd_capacity self then Undefined
      else let init = rd_initialized self;
               fill = rd_filled self;
               buff = rb_uninit B (rd_ptr self) (rd_capacity self);
               buff = rb_assume_init B init buff
           in rb_set_filled B fill buff)"

definition ReadBuffer_fill_buffer ::
  "'b readbuf_api \<Rightarrow> read_buffer \<Rightarrow> waker \<Rightarrow> (waker \<Rightarrow> 'b \<Rightarrow> 'w \<Rightarrow> unit io_result poll \<times> 'b \<times> 'w) \<Rightarrow> 'w \<Rightarrow>
     nat option io_result poll run \<times> read_buffer \<times> 'w" where
  "ReadBuffer_fill_buffer B self cx reader w =
     (case ReadBuffer_readbuf B self of
        Panicked \<Rightarrow> (Panicked, self, w)
      | Undefined \<Rightarrow> (Undefined, self, w)
      | Done buffer \<Rightarrow>
          if rb_remaining B buffer = 0 then (Done (Ready (Inr None)), self, w)
          else
            (case reader cx buffer w of
               (res, buffer', w') \<Rightarrow>
                 let self' = self\<lparr>rd_ptr := rb_mem B buffer'\<rparr>
                 in (case res of
                       Ready (Inr u) \<Rightarrow>
                         let filled = length (rb_filled B buffer');
                             init = rb_initialized B buffer';
                             old_filled = rd_filled self;
                             self'' = self'\<lparr>rd_filled := filled, rd_initialized := init\<rparr>
                         in if filled < old_filled then (Panicked, self'', w')
                            else (Done (Ready (Inr (Some (filled - old_filled)))), self'', w')
                     | Ready (Inl err) \<Rightarrow> (Done (Ready (Inl err)), self', w')
                     | Pending \<Rightarrow> (Done Pending, self', w'))))"

text \<open>\<open>read\<close>: copy to the caller's buffer; a buffer that is read up to its end starts over.\<close>

definition ReadBuffer_advance :: "read_buffer \<Rightarrow> nat \<Rightarrow> read_buffer run" where
  "ReadBuffer_advance self len =
     (let self' = self\<lparr>rd_pos := rd_pos self + len\<rparr>
      in if rd_filled self' < rd_pos self' then Undefined
         else if rd_pos self' = rd_filled self' then Done (self'\<lparr>rd_pos := 0, rd_filled := 0\<rparr>)
         else Done self')"

definition ReadBuffer_read :: "'b readbuf_api \<Rightarrow> read_buffer \<Rightarrow> 'b \<Rightarrow> (read_buffer \<times> 'b) run" where
  "ReadBuffer_read B self buffer =
     (case ReadBuffer_bytes self of
        Panicked \<Rightarrow> Panicked
      | Undefined \<Rightarrow> Undefined
      | Done bytes \<Rightarrow>
          let len = min (rb_unfilled B buffer) (length bytes)
          in if len = 0 then Done (self, buffer)
             else
               let buffer1 = rb_store B (take len bytes) buffer;
                   buffer2 = rb_assume_init B len buffer1;
                   filled_len = length (rb_filled B buffer2)
               in (case rb_set_filled B (filled_len + len) buffer2 of
                     Panicked \<Rightarrow> Panicked
                   | Undefined \<Rightarrow> Undefined
                   | Done buffer3 \<Rightarrow>
                       if drop filled_len (rb_filled B buffer3) \<noteq> take len bytes then Panicked
                       else (case ReadBuffer_advance self len of
                               Done self' \<Rightarrow> Done (self', buffer3)
                             | Panicked \<Rightarrow> Panicked
                             | Undefined \<Rightarrow> Undefined)))"

section \<open>Invariant and contents\<close>

definition rd_inv :: "read_buffer \<Rightarrow> bool" where
  "rd_inv q \<longleftrightarrow> rd_pos q \<le> rd_filled q \<and> rd_filled q \<le> rd_initialized q \<and> rd_initialized q \<le> rd_capacity q \<and>
     mem_read (rd_ptr q) 0 (rd_initialized q) \<noteq> None"

definition rd_contents :: "read_buffer \<Rightarrow> byte list" where
  "rd_contents q = the (mem_read (rd_ptr q) (rd_pos q) (rd_filled q - rd_pos q))"

lemma rd_inv_read:
  assumes "rd_inv q"
  shows "mem_read (rd_ptr q) (rd_pos q) (rd_filled q - rd_pos q) = Some (rd_contents q)"
proof -
  from assms obtain xs where "mem_read (rd_ptr q) 0 (rd_initialized q) = Some xs"
    by (auto simp: rd_inv_def)
  from mem_read_sub [OF this, of "rd_pos q" "rd_filled q - rd_pos q"] assms show ?thesis
    by (simp add: rd_inv_def rd_contents_def)
qed

lemma ReadBuffer_bytes_contents: "rd_inv q \<Longrightarrow> ReadBuffer_bytes q = Done (rd_contents q)"
  using rd_inv_read [of q] by (simp add: ReadBuffer_bytes_def rd_inv_def)

lemma length_rd_contents: "rd_inv q \<Longrightarrow> length (rd_contents q) = rd_filled q - rd_pos q"
  using rd_inv_read by (rule mem_read_length)

lemma ReadBuffer_new_ok:
  assumes "ReadBuffer_new alloc n w = (Inr q, w')"
  shows "rd_inv q" and "rd_contents q = []" and "rd_capacity q = n"
  using assms by (auto simp: ReadBuffer_new_def rd_inv_def rd_contents_def split: if_splits prod.splits bool.splits)

lemma ReadBuffer_fmt_contents: "rd_inv q \<Longrightarrow> ReadBuffer_fmt dbg q = Done (dbg ''ReadBuffer'' (''buffer'', rd_contents q))"
  by (simp add: ReadBuffer_fmt_def ReadBuffer_bytes_contents)

section \<open>Filling\<close>

lemma readbuf_lawsD:
  assumes "readbuf_laws B view"
  shows "view (rb_uninit B m n) = \<lparr>v_mem = m, v_cap = n, v_filled = 0, v_init = 0\<rparr>"
    and "view (rb_assume_init B k b) = (view b)\<lparr>v_init := max (v_init (view b)) (v_filled (view b) + k)\<rparr>"
    and "k \<le> v_init (view b) \<Longrightarrow> \<exists>b'. rb_set_filled B k b = Done b' \<and> view b' = (view b)\<lparr>v_filled := k\<rparr>"
    and "rb_remaining B b = v_cap (view b) - v_filled (view b)"
    and "length (rb_filled B b) = v_filled (view b)"
    and "mem_read (v_mem (view b)) 0 (v_filled (view b)) = Some xs \<Longrightarrow> rb_filled B b = xs"
    and "rb_initialized B b = v_init (view b)"
    and "rb_unfilled B b = v_cap (view b) - v_filled (view b)"
    and "view (rb_store B bs b) = (view b)\<lparr>v_mem := mem_write (v_mem (view b)) (v_filled (view b)) bs\<rparr>"
    and "rb_mem B b = v_mem (view b)"
    and "length bs \<le> v_cap (view b) - v_filled (view b) \<Longrightarrow> \<exists>b'. rb_put_slice B bs b = Done b' \<and>
      view b' = (view b)\<lparr>v_mem := mem_write (v_mem (view b)) (v_filled (view b)) bs,
        v_filled := v_filled (view b) + length bs,
        v_init := max (v_init (view b)) (v_filled (view b) + length bs)\<rparr>"
  using assms by (auto simp: readbuf_laws_def)

lemma rb_ok_read:
  assumes "rb_ok v"
  shows "mem_read (v_mem v) 0 (v_filled v) = Some (rb_contents v)"
proof -
  from assms obtain xs where "mem_read (v_mem v) 0 (v_init v) = Some xs" by (auto simp: rb_ok_def)
  from mem_read_prefix [OF this, of "v_filled v"] assms show ?thesis
    by (simp add: rb_ok_def rb_contents_def)
qed

lemma length_rb_contents: "rb_ok v \<Longrightarrow> length (rb_contents v) = v_filled v"
  using rb_ok_read by (rule mem_read_length)

lemma fillsD:
  assumes "fills view src limit poll_read" and "poll_read cx b w = (r, b', w')" and "rb_ok (view b)"
  obtains bs where "rb_grown (view b) bs (view b')" and "src w' = src w @ bs" and "within limit (length bs)"
    and "r \<noteq> Ready (Inr ()) \<longrightarrow> bs = []"
  using assms unfolding fills_def by metis

text \<open>The view that a buffer gives its reader.\<close>

definition rd_view :: "read_buffer \<Rightarrow> rb_view" where
  "rd_view q = \<lparr>v_mem = rd_ptr q, v_cap = rd_capacity q, v_filled = rd_filled q, v_init = rd_initialized q\<rparr>"

lemma rd_view_simps [simp]:
  "v_mem (rd_view q) = rd_ptr q" "v_cap (rd_view q) = rd_capacity q"
  "v_filled (rd_view q) = rd_filled q" "v_init (rd_view q) = rd_initialized q"
  by (simp_all add: rd_view_def)

lemma rd_view_pos [simp]: "rd_view (rd_pos_update f q) = rd_view q"
  by (simp add: rd_view_def)

lemma rd_inv_view: "rd_inv q \<longleftrightarrow> rd_pos q \<le> rd_filled q \<and> rb_ok (rd_view q)"
  by (auto simp: rd_inv_def rb_ok_def)

lemma rd_contents_view: "rd_inv q \<Longrightarrow> rd_contents q = drop (rd_pos q) (rb_contents (rd_view q))"
  using mem_read_suffix [OF rb_ok_read, of "rd_view q" "rd_pos q"] rd_inv_read [of q]
  by (simp add: rd_inv_view)

lemma ReadBuffer_readbuf_view:
  assumes laws: "readbuf_laws B view" and inv: "rd_inv q"
  obtains b where "ReadBuffer_readbuf B q = Done b" and "view b = rd_view q"
proof -
  let ?b = "rb_assume_init B (rd_initialized q) (rb_uninit B (rd_ptr q) (rd_capacity q))"
  have v: "view ?b = (rd_view q)\<lparr>v_filled := 0\<rparr>"
    by (simp add: readbuf_lawsD(1,2) [OF laws] rd_view_def)
  then obtain b where "rb_set_filled B (rd_filled q) ?b = Done b" "view b = rd_view q"
    using readbuf_lawsD(3) [OF laws, of "rd_filled q" ?b] inv by (auto simp: rd_inv_def rd_view_def)
  then show ?thesis
    using inv by (intro that [of b]) (auto simp: ReadBuffer_readbuf_def rd_inv_def)
qed

text \<open>A buffer whose memory was filled by a reader.\<close>

lemma rd_grown:
  assumes inv: "rd_inv q" and g: "rb_grown (rd_view q) bs v'"
    and q': "rd_ptr q' = v_mem v'" "rd_capacity q' = rd_capacity q" "rd_pos q' = rd_pos q"
      "rd_filled q' = v_filled v'" "rd_initialized q' = v_init v'"
  shows "rd_inv q' \<and> rd_contents q' = rd_contents q @ bs"
proof -
  have v': "rd_view q' = v'" using q' g by (simp add: rd_view_def rb_grown_def)
  have "rd_inv q'" using inv g q' by (auto simp: rd_inv_view v' rb_grown_def)
  moreover have "rd_pos q \<le> length (rb_contents (rd_view q))"
    using inv by (simp add: rd_inv_view length_rb_contents)
  ultimately show ?thesis
    using inv g q' by (simp add: rd_contents_view v' rb_grown_def)
qed

text \<open>A reader that filled nothing leaves the buffer as it was, whatever it did behind the filled part.\<close>

lemma rd_not_grown:
  assumes inv: "rd_inv q" and g: "rb_grown (rd_view q) [] v'"
  shows "rd_inv (q\<lparr>rd_ptr := v_mem v'\<rparr>) \<and> rd_contents (q\<lparr>rd_ptr := v_mem v'\<rparr>) = rd_contents q"
proof -
  let ?v = "v'\<lparr>v_init := rd_initialized q\<rparr>"
  have ok: "rb_ok ?v"
    using g inv mem_read_prefix [of "v_mem v'" 0 "v_init v'" _ "rd_initialized q"]
    by (auto simp: rb_ok_def rb_grown_def rd_inv_def)
  then have "rb_grown (rd_view q) [] ?v"
    using g by (auto simp: rb_grown_def rb_contents_def)
  from rd_grown [OF inv this, of "q\<lparr>rd_ptr := v_mem v'\<rparr>"] show ?thesis
    using g by (simp add: rb_grown_def)
qed

lemma fill_buffer_full:
  assumes "readbuf_laws B view" and "rd_inv q" and "rd_filled q = rd_capacity q"
  shows "ReadBuffer_fill_buffer B q cx reader w = (Done (Ready (Inr None)), q, w)"
proof -
  obtain b where "ReadBuffer_readbuf B q = Done b" "view b = rd_view q"
    by (rule ReadBuffer_readbuf_view [OF assms(1,2)])
  with assms(3) show ?thesis by (simp add: ReadBuffer_fill_buffer_def readbuf_lawsD(4) [OF assms(1)])
qed

lemma fill_buffer_ready:
  assumes laws: "readbuf_laws B view" and inv: "rd_inv q" and room: "rd_filled q \<noteq> rd_capacity q"
    and b: "ReadBuffer_readbuf B q = Done b" "view b = rd_view q"
    and p: "reader cx b w = (Ready (Inr ()), b', w')" and g: "rb_grown (rd_view q) bs (view b')"
  obtains q' where "ReadBuffer_fill_buffer B q cx reader w = (Done (Ready (Inr (Some (length bs)))), q', w')"
    and "rd_inv q'" and "rd_contents q' = rd_contents q @ bs" and "rd_capacity q' = rd_capacity q"
proof -
  let ?q = "q\<lparr>rd_ptr := v_mem (view b'), rd_filled := v_filled (view b'), rd_initialized := v_init (view b')\<rparr>"
  have "rb_remaining B b \<noteq> 0" using inv room by (simp add: readbuf_lawsD(4) [OF laws] b rd_inv_def)
  moreover have "v_filled (view b') = rd_filled q + length bs" using g by (simp add: rb_grown_def)
  ultimately have "ReadBuffer_fill_buffer B q cx reader w = (Done (Ready (Inr (Some (length bs)))), ?q, w')"
    using b p by (simp add: ReadBuffer_fill_buffer_def readbuf_lawsD(5,7,10) [OF laws] Let_def)
  moreover have "rd_inv ?q \<and> rd_contents ?q = rd_contents q @ bs" by (rule rd_grown [OF inv g]) simp_all
  ultimately show ?thesis by (intro that [of ?q]) simp_all
qed

lemma poll_cases:
  fixes r :: "unit io_result poll"
  obtains (ok) "r = Ready (Inr ())" | (err) e where "r = Ready (Inl e)" | (pend) "r = Pending"
  by (metis poll.exhaust sum.exhaust unit.exhaust)

lemma fill_buffer_spec:
  assumes laws: "readbuf_laws B view" and inv: "rd_inv q" and reader: "fills view src limit reader"
  obtains r q' w' bs where "ReadBuffer_fill_buffer B q cx reader w = (Done r, q', w')"
    and "rd_inv q'" and "rd_contents q' = rd_contents q @ bs" and "src w' = src w @ bs"
    and "within limit (length bs)" and "rd_capacity q' = rd_capacity q"
    and "case r of
           Ready (Inr (Some n)) \<Rightarrow> n = length bs
         | Ready (Inr None) \<Rightarrow> bs = [] \<and> q' = q \<and> w' = w \<and> rd_filled q = rd_capacity q
         | _ \<Rightarrow> bs = []"
proof -
  show ?thesis
  proof (cases "rd_filled q = rd_capacity q")
    case True
    from fill_buffer_full [OF laws inv True, of cx reader w] show ?thesis
      by (rule that [where bs = "[]"]) (use inv True in \<open>simp_all add: within_def split: option.split\<close>)
  next
    case False
    obtain b where b: "ReadBuffer_readbuf B q = Done b" "view b = rd_view q"
      by (rule ReadBuffer_readbuf_view [OF laws inv])
    have room: "rb_remaining B b \<noteq> 0" using inv False by (simp add: readbuf_lawsD(4) [OF laws] b rd_inv_def)
    obtain r b' w' where p: "reader cx b w = (r, b', w')" by (metis prod_cases3)
    have "rb_ok (view b)" using inv by (simp add: b rd_inv_view)
    then obtain bs where bs: "rb_grown (rd_view q) bs (view b')" "src w' = src w @ bs" "within limit (length bs)"
      "r \<noteq> Ready (Inr ()) \<longrightarrow> bs = []"
      using fillsD [OF reader p] by (metis b(2))
    show ?thesis
    proof (cases "r = Ready (Inr ())")
      case True
      obtain q' where q': "ReadBuffer_fill_buffer B q cx reader w = (Done (Ready (Inr (Some (length bs)))), q', w')"
        "rd_inv q'" "rd_contents q' = rd_contents q @ bs" "rd_capacity q' = rd_capacity q"
        by (rule fill_buffer_ready [where reader = reader and cx = cx and w = w, OF laws inv False b p [unfolded True] bs(1)])
      show ?thesis by (rule that [where bs = bs, OF q'(1)]) (use q' bs in simp_all)
    next
      case no: False
      let ?q = "q\<lparr>rd_ptr := v_mem (view b')\<rparr>"
      obtain r' where r': "ReadBuffer_fill_buffer B q cx reader w = (Done r', ?q, w')"
        "r' = Pending \<or> (\<exists>e. r' = Ready (Inl e))"
        using b room p no
        by (cases r rule: poll_cases) (simp_all add: ReadBuffer_fill_buffer_def readbuf_lawsD(10) [OF laws])
      have "rd_inv ?q \<and> rd_contents ?q = rd_contents q" using bs no by (intro rd_not_grown [OF inv]) simp
      with r' bs no show ?thesis by (intro that [where bs = "[]", OF r'(1)]) auto
    qed
  qed
qed

section \<open>Reading\<close>

lemma rb_grown_refl: "rb_ok v \<Longrightarrow> rb_grown v [] v"
  by (simp add: rb_grown_def)

text \<open>A buffer after \<open>bs\<close> was stored behind its filled part and counted as filled.\<close>

definition rb_put :: "rb_view \<Rightarrow> byte list \<Rightarrow> rb_view" where
  "rb_put v bs = v\<lparr>v_mem := mem_write (v_mem v) (v_filled v) bs, v_filled := v_filled v + length bs,
     v_init := max (v_init v) (v_filled v + length bs)\<rparr>"

lemma rb_put_read:
  "rb_ok v \<Longrightarrow> mem_read (v_mem (rb_put v bs)) 0 (v_filled (rb_put v bs)) = Some (rb_contents v @ bs)"
  unfolding rb_put_def by simp (rule mem_write_append [OF rb_ok_read])

lemma rb_put_grown:
  assumes ok: "rb_ok v" and fits: "length bs \<le> v_cap v - v_filled v"
  shows "rb_grown v bs (rb_put v bs)"
proof -
  let ?i = "max (v_init v) (v_filled v + length bs)" and ?m = "mem_write (v_mem v) (v_filled v) bs"
  have front: "mem_read ?m 0 (v_filled v + length bs) = Some (rb_contents v @ bs)"
    by (rule mem_write_append [OF rb_ok_read [OF ok]])
  have "mem_read ?m 0 ?i \<noteq> None"
  proof (cases "v_filled v + length bs \<le> v_init v")
    case True
    have "\<exists>y. ?m k = Some y" if "k < v_init v" for k
    proof -
      from ok obtain xs where "mem_read (v_mem v) 0 (v_init v) = Some xs" by (auto simp: rb_ok_def)
      with that show ?thesis by (auto simp: mem_read_Some_iff mem_write_def)
    qed
    then have "mem_read ?m 0 (v_init v) = Some (map (\<lambda>k. the (?m k)) [0..<v_init v])"
      by (fastforce simp: mem_read_Some_iff)
    with True show ?thesis by (simp add: max_def)
  next
    case False
    with front show ?thesis by (simp add: max_def)
  qed
  then show ?thesis
    using ok fits front by (auto simp: rb_grown_def rb_ok_def rb_contents_def rb_put_def)
qed

lemma rb_append:
  assumes laws: "readbuf_laws B view" and ok: "rb_ok (view b)"
    and fits: "length bs \<le> v_cap (view b) - v_filled (view b)"
  obtains b' where "rb_set_filled B (v_filled (view b) + length bs) (rb_assume_init B (length bs) (rb_store B bs b)) = Done b'"
    and "rb_grown (view b) bs (view b')" and "rb_filled B b' = rb_contents (view b) @ bs"
proof -
  let ?v = "view b" and ?b2 = "rb_assume_init B (length bs) (rb_store B bs b)"
  have "view ?b2 = ?v\<lparr>v_mem := mem_write (v_mem ?v) (v_filled ?v) bs, v_init := max (v_init ?v) (v_filled ?v + length bs)\<rparr>"
    by (simp add: readbuf_lawsD(2,9) [OF laws])
  then obtain b' where b': "rb_set_filled B (v_filled ?v + length bs) ?b2 = Done b'" and v': "view b' = rb_put ?v bs"
    using readbuf_lawsD(3) [OF laws, of "v_filled ?v + length bs" ?b2] by (auto simp: rb_put_def)
  have "rb_filled B b' = rb_contents ?v @ bs"
    by (rule readbuf_lawsD(6) [OF laws]) (simp add: v' rb_put_read [OF ok])
  with b' v' rb_put_grown [OF ok fits] show ?thesis by (intro that) auto
qed

lemma advance_spec:
  assumes inv: "rd_inv q" and len: "n \<le> length (rd_contents q)"
  obtains q' where "ReadBuffer_advance q n = Done q'" and "rd_inv q'"
    and "rd_contents q' = drop n (rd_contents q)" and "rd_capacity q' = rd_capacity q"
    and "rd_contents q' = [] \<longrightarrow> rd_filled q' = 0"
proof (cases "n = length (rd_contents q)")
  case True
  then have "rd_pos q + n = rd_filled q" using inv by (simp add: length_rd_contents rd_inv_def)
  with inv True show ?thesis
    by (intro that [of "q\<lparr>rd_pos := 0, rd_filled := 0\<rparr>"])
      (simp_all add: ReadBuffer_advance_def rd_inv_def rd_contents_def)
next
  case False
  with len inv have lt: "rd_pos q + n < rd_filled q" by (simp add: length_rd_contents)
  let ?q = "q\<lparr>rd_pos := rd_pos q + n\<rparr>"
  have inv': "rd_inv ?q" using inv lt by (simp add: rd_inv_def)
  have "rd_contents ?q = drop n (rd_contents q)"
    using rd_contents_view [OF inv'] rd_contents_view [OF inv] by (simp add: add.commute)
  with lt inv' len False show ?thesis
    by (intro that [of ?q]) (simp_all add: ReadBuffer_advance_def Let_def)
qed

lemma read_spec:
  assumes laws: "readbuf_laws B view" and inv: "rd_inv q" and ok: "rb_ok (view b)"
  defines "n \<equiv> min (v_cap (view b) - v_filled (view b)) (length (rd_contents q))"
  obtains q' b' where "ReadBuffer_read B q b = Done (q', b')"
    and "rd_inv q'" and "rd_contents q' = drop n (rd_contents q)" and "rd_capacity q' = rd_capacity q"
    and "rb_grown (view b) (take n (rd_contents q)) (view b')" and "n = 0 \<longrightarrow> q' = q \<and> b' = b"
    and "n \<noteq> 0 \<longrightarrow> rd_contents q' = [] \<longrightarrow> rd_filled q' = 0"
proof (cases "n = 0")
  case True
  then have "ReadBuffer_read B q b = Done (q, b)"
    using inv by (simp add: ReadBuffer_read_def ReadBuffer_bytes_contents n_def readbuf_lawsD(8) [OF laws])
  then show ?thesis
    by (rule that) (use True inv rb_grown_refl [OF ok] in simp_all)
next
  case False
  let ?bs = "take n (rd_contents q)"
  have n: "length ?bs = n" "n \<le> length (rd_contents q)" "length ?bs \<le> v_cap (view b) - v_filled (view b)"
    by (auto simp: n_def)
  from rb_append [OF laws ok n(3)] obtain b' where
    b': "rb_set_filled B (v_filled (view b) + n) (rb_assume_init B n (rb_store B ?bs b)) = Done b'"
    and g: "rb_grown (view b) ?bs (view b')" and f: "rb_filled B b' = rb_contents (view b) @ ?bs"
    unfolding n(1) by metis
  obtain q' where q': "ReadBuffer_advance q n = Done q'" "rd_inv q'"
    "rd_contents q' = drop n (rd_contents q)" "rd_capacity q' = rd_capacity q" "rd_contents q' = [] \<longrightarrow> rd_filled q' = 0"
    by (rule advance_spec [OF inv n(2)])
  have len: "length (rb_filled B (rb_assume_init B n (rb_store B ?bs b))) = v_filled (view b)"
    by (simp add: readbuf_lawsD(2,5,9) [OF laws])
  have n': "min (rb_unfilled B b) (length (rd_contents q)) = n"
    by (simp add: n_def readbuf_lawsD(8) [OF laws])
  have "ReadBuffer_read B q b = Done (q', b')"
    using False b' f q'(1) length_rb_contents [OF ok]
    by (simp add: ReadBuffer_read_def ReadBuffer_bytes_contents [OF inv] Let_def n' len)
  then show ?thesis
    by (rule that) (use False q' g in simp_all)
qed

section \<open>First in, first out\<close>

text \<open>
  The contract the connections rely on: bytes leave a buffer in the order in which they entered, none
  lost and none invented, over any interleaving of the two operations.
\<close>

datatype transfer = Into "byte list" | Out "byte list"

fun ins :: "transfer list \<Rightarrow> byte list" where
  "ins [] = []"
| "ins (Into bs # tr) = bs @ ins tr"
| "ins (Out bs # tr) = ins tr"

fun outs :: "transfer list \<Rightarrow> byte list" where
  "outs [] = []"
| "outs (Into bs # tr) = outs tr"
| "outs (Out bs # tr) = bs @ outs tr"

inductive fifo_path ::
  "('q \<Rightarrow> byte list \<Rightarrow> 'q \<Rightarrow> bool) \<Rightarrow> ('q \<Rightarrow> byte list \<Rightarrow> 'q \<Rightarrow> bool) \<Rightarrow> 'q \<Rightarrow> transfer list \<Rightarrow> 'q \<Rightarrow> bool"
  for fill drain where
  path_nil: "fifo_path fill drain q [] q"
| path_fill: "fill q bs q1 \<Longrightarrow> fifo_path fill drain q1 tr q' \<Longrightarrow> fifo_path fill drain q (Into bs # tr) q'"
| path_drain: "drain q bs q1 \<Longrightarrow> fifo_path fill drain q1 tr q' \<Longrightarrow> fifo_path fill drain q (Out bs # tr) q'"

locale byte_fifo =
  fixes inv :: "'q \<Rightarrow> bool" and contents :: "'q \<Rightarrow> byte list"
    and fill :: "'q \<Rightarrow> byte list \<Rightarrow> 'q \<Rightarrow> bool" and drain :: "'q \<Rightarrow> byte list \<Rightarrow> 'q \<Rightarrow> bool"
  assumes fill_appends: "inv q \<Longrightarrow> fill q bs q' \<Longrightarrow> inv q' \<and> contents q' = contents q @ bs"
    and drain_takes: "inv q \<Longrightarrow> drain q bs q' \<Longrightarrow> inv q' \<and> contents q = bs @ contents q'"
begin

lemma path_order:
  "fifo_path fill drain q tr q' \<Longrightarrow> inv q \<Longrightarrow> inv q' \<and> contents q @ ins tr = outs tr @ contents q'"
proof (induction rule: fifo_path.induct)
  case (path_fill q bs q1 tr q')
  then show ?case using fill_appends [OF path_fill.prems path_fill.hyps(1)] by simp
next
  case (path_drain q bs q1 tr q')
  then show ?case using drain_takes [OF path_drain.prems path_drain.hyps(1)] by simp
qed simp

end

text \<open>The two operations of \<open>ReadBuffer\<close> as transfers.\<close>

definition rd_fill ::
  "'b readbuf_api \<Rightarrow> ('b \<Rightarrow> rb_view) \<Rightarrow> ('w \<Rightarrow> byte list) \<Rightarrow> read_buffer \<Rightarrow> byte list \<Rightarrow> read_buffer \<Rightarrow> bool" where
  "rd_fill B view src q bs q' \<longleftrightarrow> readbuf_laws B view \<and>
     (\<exists>cx limit reader w w' r. fills view src limit reader \<and>
        ReadBuffer_fill_buffer B q cx reader w = (r, q', w') \<and> src w' = src w @ bs)"

definition rd_drain :: "'b readbuf_api \<Rightarrow> ('b \<Rightarrow> rb_view) \<Rightarrow> read_buffer \<Rightarrow> byte list \<Rightarrow> read_buffer \<Rightarrow> bool" where
  "rd_drain B view q bs q' \<longleftrightarrow> readbuf_laws B view \<and>
     (\<exists>b b'. rb_ok (view b) \<and> ReadBuffer_read B q b = Done (q', b') \<and>
        rb_contents (view b') = rb_contents (view b) @ bs)"

interpretation rd_fifo: byte_fifo rd_inv rd_contents "rd_fill B view src" "rd_drain B view"
  for B :: "'b readbuf_api" and view and src :: "'w \<Rightarrow> byte list"
proof
  fix q q' bs
  assume inv: "rd_inv q"
  show "rd_inv q' \<and> rd_contents q' = rd_contents q @ bs" if fill: "rd_fill B view src q bs q'"
  proof -
    from fill obtain cx limit reader w w' r where laws: "readbuf_laws B view" "fills view src limit reader"
      and eq: "ReadBuffer_fill_buffer B q cx reader w = (r, q', w')" "src w' = src w @ bs"
      by (auto simp: rd_fill_def)
    show ?thesis
      by (rule fill_buffer_spec [OF laws(1) inv laws(2), where cx = cx and w = w]) (use eq in auto)
  qed
  show "rd_inv q' \<and> rd_contents q = bs @ rd_contents q'" if drain: "rd_drain B view q bs q'"
  proof -
    from drain obtain b b' where laws: "readbuf_laws B view" and ok: "rb_ok (view b)"
      and eq: "ReadBuffer_read B q b = Done (q', b')" "rb_contents (view b') = rb_contents (view b) @ bs"
      by (auto simp: rd_drain_def)
    show ?thesis
      by (rule read_spec [OF laws inv ok]) (use eq in \<open>auto simp: rb_grown_def\<close>)
  qed
qed

end
