(* ===== verification/Read_Model.thy ===== *)
theory Read_Model
  imports Read_Buffer Protocol
begin

text \<open>
  \<open>src/read.rs\<close>: the shared reader that splits the stream into connections. All connections of a
  stream share one \<open>LockedReaderState\<close>; whichever of them is polled drives it. The \<open>Arc\<close>s of the
  connections live in a heap of entries with their strong and weak counts. A parameter record stands
  for the buffered TCP read half, the channel of new connections, the cooperative budget of the
  runtime and the allocator, over a world \<open>'w\<close>. Woken wakers are collected in a list.
\<close>

section \<open>The parameters\<close>

record reader_inner =
  ri_entry :: nat

text \<open>
  \<open>r_poll_take n\<close> is \<open>poll_read\<close> of \<open>(&mut reader).take(n)\<close>, \<open>r_send_async\<close> is \<open>into_send_async\<close> with its
  future \<open>'f\<close>, and \<open>r_poll_send\<close> a poll of that future: \<open>Inl\<close> gives the connection back when the
  receiver is gone.
\<close>

record ('w, 'b, 'f) reader_api =
  r_poll_read :: "waker \<Rightarrow> 'b \<Rightarrow> 'w \<Rightarrow> unit io_result poll \<times> 'b \<times> 'w"
  r_poll_take :: "nat \<Rightarrow> waker \<Rightarrow> 'b \<Rightarrow> 'w \<Rightarrow> unit io_result poll \<times> 'b \<times> 'w"
  r_is_disconnected :: "'w \<Rightarrow> bool"
  r_send_async :: "socket_addr \<times> reader_inner \<Rightarrow> 'w \<Rightarrow> 'f \<times> 'w"
  r_poll_send :: "'f \<Rightarrow> waker \<Rightarrow> 'w \<Rightarrow> (reader_inner + unit) poll \<times> 'f \<times> 'w"
  r_consume_budget :: "waker \<Rightarrow> 'w \<Rightarrow> unit poll \<times> 'w"
  r_alloc :: "nat \<Rightarrow> 'w \<Rightarrow> bool \<times> 'w"

section \<open>State\<close>

record reader_entry =
  reader_pipe_waker :: waker
  waiting_waker :: waker
  re_buffer :: read_buffer

record arc_entry =
  ae_strong :: nat
  ae_weak :: nat
  ae_entry :: reader_entry

datatype 'f shared_reader_state =
    Read socket_addr u16
  | NextPacket mem u8
  | SendSocket 'f
  | ReadError

record 'f locked_reader =
  lr_heap :: "nat \<rightharpoonup> arc_entry"
  lr_next :: nat
  lr_map :: "socket_addr \<rightharpoonup> nat"
  lr_state :: "'f shared_reader_state"

definition DEFAULT_BUFFER_CAPACITY :: nat where
  "DEFAULT_BUFFER_CAPACITY = 65535 * 2"

definition next_packet :: "'f shared_reader_state" where
  "next_packet = NextPacket Map.empty 0"

text \<open>\<open>Weak::upgrade\<close> followed by \<open>lock\<close>, a store through the guard, and the drops of the two references.\<close>

definition upgrade :: "'f locked_reader \<Rightarrow> nat \<Rightarrow> reader_entry option" where
  "upgrade self i =
     (case lr_heap self i of
        None \<Rightarrow> None
      | Some a \<Rightarrow> if 0 < ae_strong a then Some (ae_entry a) else None)"

definition put_entry :: "'f locked_reader \<Rightarrow> nat \<Rightarrow> reader_entry \<Rightarrow> 'f locked_reader" where
  "put_entry self i e =
     (case lr_heap self i of
        None \<Rightarrow> self
      | Some a \<Rightarrow> self\<lparr>lr_heap := (lr_heap self)(i \<mapsto> a\<lparr>ae_entry := e\<rparr>)\<rparr>)"

definition drop_weak :: "'f locked_reader \<Rightarrow> nat \<Rightarrow> 'f locked_reader" where
  "drop_weak self i =
     (case lr_heap self i of
        None \<Rightarrow> self
      | Some a \<Rightarrow> self\<lparr>lr_heap := (lr_heap self)(i \<mapsto> a\<lparr>ae_weak := ae_weak a - 1\<rparr>)\<rparr>)"

definition weak_count :: "'f locked_reader \<Rightarrow> nat \<Rightarrow> nat" where
  "weak_count self i = (case lr_heap self i of None \<Rightarrow> 0 | Some a \<Rightarrow> ae_weak a)"

text \<open>Dropping a \<open>ReaderInner\<close> drops its \<open>Arc\<close>.\<close>

definition ReaderInner_drop :: "'f locked_reader \<Rightarrow> reader_inner \<Rightarrow> 'f locked_reader" where
  "ReaderInner_drop self r =
     (case lr_heap self (ri_entry r) of
        None \<Rightarrow> self
      | Some a \<Rightarrow> self\<lparr>lr_heap := (lr_heap self)(ri_entry r \<mapsto> a\<lparr>ae_strong := ae_strong a - 1\<rparr>)\<rparr>)"

section \<open>The map of connections\<close>

definition ReaderMut_insert ::
  "('w, 'b, 'f) reader_api \<Rightarrow> 'f locked_reader \<Rightarrow> socket_addr \<Rightarrow> waker \<Rightarrow> 'w \<Rightarrow>
     reader_inner io_result \<times> 'f locked_reader \<times> 'w" where
  "ReaderMut_insert A self sock cx w =
     (case lr_map self sock of
        Some _ \<Rightarrow> (Inl (IoError AddrInUse ''duplicate socket entry''), self, w)
      | None \<Rightarrow>
          (case ReadBuffer_new (r_alloc A) DEFAULT_BUFFER_CAPACITY w of
             (Inl e, w') \<Rightarrow> (Inl e, self, w')
           | (Inr buffer, w') \<Rightarrow>
               let i = lr_next self;
                   entry = \<lparr>reader_pipe_waker = Noop, waiting_waker = cx, re_buffer = buffer\<rparr>;
                   arc = \<lparr>ae_strong = 1, ae_weak = 1, ae_entry = entry\<rparr>
               in (Inr \<lparr>ri_entry = i\<rparr>,
                   self\<lparr>lr_heap := (lr_heap self)(i \<mapsto> arc), lr_next := i + 1,
                        lr_map := (lr_map self)(sock \<mapsto> i)\<rparr>, w')))"

definition ReaderMut_remove :: "'f locked_reader \<Rightarrow> socket_addr \<Rightarrow> unit run \<times> 'f locked_reader \<times> waker list" where
  "ReaderMut_remove self sock =
     (case lr_map self sock of
        None \<Rightarrow> (Done (), self, [])
      | Some i \<Rightarrow>
          let self1 = self\<lparr>lr_map := (lr_map self)(sock := None)\<rparr>
          in (case upgrade self1 i of
                None \<Rightarrow> (Done (), drop_weak self1 i, [])
              | Some entry \<Rightarrow>
                  let read_pipe_wake = reader_pipe_waker entry;
                      self2 = drop_weak self1 i
                  in if weak_count self2 i \<noteq> 0 then (Panicked, self2, [])
                     else (Done (), self2, [read_pipe_wake])))"

definition ReaderMut_next_packet :: "'f locked_reader \<Rightarrow> 'f locked_reader" where
  "ReaderMut_next_packet self = self\<lparr>lr_state := next_packet\<rparr>"

definition ReaderMut_read :: "'f locked_reader \<Rightarrow> socket_addr \<Rightarrow> u16 \<Rightarrow> 'f locked_reader" where
  "ReaderMut_read self owner amount = self\<lparr>lr_state := Read owner amount\<rparr>"

definition ReaderMut_error :: "'f locked_reader \<Rightarrow> error_kind \<Rightarrow> string \<Rightarrow> io_error \<times> 'f locked_reader" where
  "ReaderMut_error self k msg = (IoError k msg, self\<lparr>lr_state := ReadError\<rparr>)"

text \<open>The macro \<open>error!\<close>: the value the surrounding function returns.\<close>

definition error_return ::
  "'f locked_reader \<Rightarrow> error_kind \<Rightarrow> string \<Rightarrow> 'w \<Rightarrow> waker list \<Rightarrow>
     unit io_result poll run \<times> 'f locked_reader \<times> 'w \<times> waker list" where
  "error_return self k msg w woken =
     (case ReaderMut_error self k msg of (e, self') \<Rightarrow> (Done (Ready (Inl e)), self', w, woken))"

section \<open>The payload of a frame\<close>

text \<open>Decimal digits, for the message.\<close>

fun show_nat :: "nat \<Rightarrow> string" where
  "show_nat n = (if n < 10 then [char_of (48 + n)] else show_nat (n div 10) @ [char_of (48 + n mod 10)])"

declare show_nat.simps [simp del]

text \<open>What \<open>poll_read\<close> does with the number of bytes it has read.\<close>

definition read_finish ::
  "'f locked_reader \<Rightarrow> socket_addr \<Rightarrow> u16 \<Rightarrow> nat \<Rightarrow> 'w \<Rightarrow> waker list \<Rightarrow>
     unit io_result poll run \<times> 'f locked_reader \<times> 'w \<times> waker list" where
  "read_finish self owner left read_amount w woken =
     (if read_amount = 0
      then error_return self UnexpectedEof (''expected '' @ show_nat (unat left) @ '' more bytes'') w woken
      else if 2 ^ 16 \<le> read_amount \<or> unat left < read_amount
      then error_return self OtherKind ''read more bytes than in provided buffer'' w woken
      else let new_left = left - of_nat read_amount
           in if new_left = 0 then (Done (Ready (Inr ())), ReaderMut_next_packet self, w, woken)
              else (Done (Ready (Inr ())), ReaderMut_read self owner new_left, w, woken))"

definition ReaderMut_poll_read ::
  "'b readbuf_api \<Rightarrow> ('w, 'b, 'f) reader_api \<Rightarrow> 'f locked_reader \<Rightarrow> waker \<Rightarrow> 'w \<Rightarrow>
     unit io_result poll run \<times> 'f locked_reader \<times> 'w \<times> waker list" where
  "ReaderMut_poll_read B A self cx w =
     (case lr_state self of
        Read owner left \<Rightarrow>
          (let entry = (case lr_map self owner of
                          None \<Rightarrow> None
                        | Some i \<Rightarrow> map_option (Pair i) (upgrade self i));
               reader = r_poll_take A (unat left)
           in case entry of
                None \<Rightarrow>
                  let buf = rb_uninit B Map.empty 65535
                  in (case reader cx buf w of
                        (Pending, buf', w') \<Rightarrow> (Done Pending, self, w', [])
                      | (Ready (Inl e), buf', w') \<Rightarrow> (Done (Ready (Inl e)), self, w', [])
                      | (Ready (Inr u), buf', w') \<Rightarrow>
                          read_finish self owner left (length (rb_filled B buf')) w' [])
              | Some (i, e) \<Rightarrow>
                  (case ReadBuffer_fill_buffer B (re_buffer e) cx reader w of
                     (res, buffer, w') \<Rightarrow>
                       let e' = e\<lparr>re_buffer := buffer\<rparr>; self' = put_entry self i e'
                       in (case res of
                             Panicked \<Rightarrow> (Panicked, self', w', [])
                           | Undefined \<Rightarrow> (Undefined, self', w', [])
                           | Done Pending \<Rightarrow> (Done Pending, self', w', [])
                           | Done (Ready (Inl err)) \<Rightarrow> (Done (Ready (Inl err)), self', w', [])
                           | Done (Ready (Inr None)) \<Rightarrow>
                               (Done Pending, put_entry self' i (e'\<lparr>waiting_waker := cx\<rparr>), w',
                                [reader_pipe_waker e])
                           | Done (Ready (Inr (Some amt))) \<Rightarrow>
                               read_finish self' owner left amt w' [reader_pipe_waker e])))
      | _ \<Rightarrow> (Panicked, self, w, []))"

section \<open>The header of the next frame\<close>

text \<open>A complete header: data for a connection, the end of one, or a new one.\<close>

definition packet_header ::
  "('w, 'b, 'f) reader_api \<Rightarrow> 'f locked_reader \<Rightarrow> mux_frame_header \<Rightarrow> waker \<Rightarrow> 'w \<Rightarrow>
     unit io_result poll run \<times> 'f locked_reader \<times> 'w \<times> waker list" where
  "packet_header A self header cx w =
     (let addr = MuxFrameHeader_addr header; n = MuxFrameHeader_len header
      in if n \<noteq> 0 then (Done (Ready (Inr ())), ReaderMut_read self addr n, w, [])
         else if lr_map self addr \<noteq> None
         then (case ReaderMut_remove self addr of
                 (Done u, self', woken) \<Rightarrow> (Done (Ready (Inr ())), ReaderMut_next_packet self', w, woken)
               | (Panicked, self', woken) \<Rightarrow> (Panicked, self', w, woken)
               | (Undefined, self', woken) \<Rightarrow> (Undefined, self', w, woken))
         else if r_is_disconnected A w then (Done (Ready (Inr ())), ReaderMut_next_packet self, w, [])
         else (case ReaderMut_insert A self addr cx w of
                 (Inl e, self', w') \<Rightarrow> (Done (Ready (Inl e)), self', w', [])
               | (Inr reader, self', w') \<Rightarrow>
                   (case r_send_async A (addr, reader) w' of
                      (fut, w'') \<Rightarrow> (Done (Ready (Inr ())), self'\<lparr>lr_state := SendSocket fut\<rparr>, w'', []))))"

definition ReaderMut_poll_next_packet ::
  "'b readbuf_api \<Rightarrow> ('w, 'b, 'f) reader_api \<Rightarrow> 'f locked_reader \<Rightarrow> waker \<Rightarrow> 'w \<Rightarrow>
     unit io_result poll run \<times> 'f locked_reader \<times> 'w \<times> waker list" where
  "ReaderMut_poll_next_packet B A self cx w =
     (case lr_state self of
        NextPacket header filled \<Rightarrow>
          if MuxFrameHeader_size < unat filled then (Panicked, self, w, [])
          else
            (let buffer = rb_uninit B (\<lambda>i. header (unat filled + i)) (MuxFrameHeader_size - unat filled)
             in case r_poll_read A cx buffer w of
                  (res, buffer', w') \<Rightarrow>
                    let header' = (\<lambda>i. if i < unat filled then header i else rb_mem B buffer' (i - unat filled));
                        self' = self\<lparr>lr_state := NextPacket header' filled\<rparr>
                    in (case res of
                          Pending \<Rightarrow> (Done Pending, self', w', [])
                        | Ready (Inl e) \<Rightarrow> (Done (Ready (Inl e)), self', w', [])
                        | Ready (Inr u) \<Rightarrow>
                            let extra_fill = length (rb_filled B buffer');
                                extra = (of_nat extra_fill :: u8);
                                new_filled = filled + extra
                            in if extra_fill = 0 then error_return self' UnexpectedEof ''eof on header read'' w' []
                               else if 2 ^ 8 \<le> unat filled + unat extra then (Panicked, self', w', [])
                               else (case cmp_word new_filled 20 of
                                       Less \<Rightarrow> (Done Pending, self\<lparr>lr_state := NextPacket header' new_filled\<rparr>, w', [])
                                     | Equal \<Rightarrow>
                                         (case mem_read header' 0 MuxFrameHeader_size of
                                            None \<Rightarrow> (Undefined, self', w', [])
                                          | Some bs \<Rightarrow> packet_header A self' (MuxFrameHeader_of_bytes bs) cx w')
                                     | Greater \<Rightarrow>
                                         error_return self' OtherKind ''reader read more bytes than were provided'' w' [])))
      | _ \<Rightarrow> (Panicked, self, w, []))"

section \<open>Polling the shared reader\<close>

definition ReaderMut_poll_once ::
  "'b readbuf_api \<Rightarrow> ('w, 'b, 'f) reader_api \<Rightarrow> 'f locked_reader \<Rightarrow> waker \<Rightarrow> 'w \<Rightarrow>
     unit io_result poll run \<times> 'f locked_reader \<times> 'w \<times> waker list" where
  "ReaderMut_poll_once B A self cx w =
     (case lr_state self of
        Read _ _ \<Rightarrow> ReaderMut_poll_read B A self cx w
      | NextPacket _ _ \<Rightarrow> ReaderMut_poll_next_packet B A self cx w
      | SendSocket sock_fut \<Rightarrow>
          (case r_poll_send A sock_fut cx w of
             (Pending, fut', w') \<Rightarrow> (Done Pending, self\<lparr>lr_state := SendSocket fut'\<rparr>, w', [])
           | (Ready (Inr u), fut', w') \<Rightarrow> (Done (Ready (Inr ())), ReaderMut_next_packet self, w', [])
           | (Ready (Inl r), fut', w') \<Rightarrow>
               (Done (Ready (Inr ())), ReaderMut_next_packet (ReaderInner_drop self r), w', []))
      | ReadError \<Rightarrow> (Done (Ready (Inl (IoError BrokenPipe ''socket hit fatal error''))), self, w, []))"

text \<open>
  The loop of \<open>poll\<close> ends only with \<open>Pending\<close> or an error: the type of its result has no value for
  success (\<open>Infallible\<close>).
\<close>

partial_function (option) ReaderMut_poll ::
  "'b readbuf_api \<Rightarrow> ('w, 'b, 'f) reader_api \<Rightarrow> 'f locked_reader \<Rightarrow> waker \<Rightarrow> 'w \<Rightarrow> waker list \<Rightarrow>
     (io_error poll run \<times> 'f locked_reader \<times> 'w \<times> waker list) option" where
  "ReaderMut_poll B A self cx w woken =
     (case ReaderMut_poll_once B A self cx w of
        (Panicked, self', w', wk) \<Rightarrow> Some (Panicked, self', w', woken @ wk)
      | (Undefined, self', w', wk) \<Rightarrow> Some (Undefined, self', w', woken @ wk)
      | (Done Pending, self', w', wk) \<Rightarrow> Some (Done Pending, self', w', woken @ wk)
      | (Done (Ready (Inl e)), self', w', wk) \<Rightarrow> Some (Done (Ready e), self', w', woken @ wk)
      | (Done (Ready (Inr u)), self', w', wk) \<Rightarrow>
          (case r_consume_budget A cx w' of
             (Pending, w'') \<Rightarrow> Some (Done Pending, self', w'', woken @ wk)
           | (Ready u, w'') \<Rightarrow> ReaderMut_poll B A self' cx w'' (woken @ wk)))"

definition SharedReader_new :: "'f locked_reader" where
  "SharedReader_new = \<lparr>lr_heap = Map.empty, lr_next = 0, lr_map = Map.empty, lr_state = next_packet\<rparr>"

definition SharedReader_poll ::
  "'b readbuf_api \<Rightarrow> ('w, 'b, 'f) reader_api \<Rightarrow> 'f locked_reader \<Rightarrow> waker \<Rightarrow> 'w \<Rightarrow>
     (io_error poll run \<times> 'f locked_reader \<times> 'w \<times> waker list) option" where
  "SharedReader_poll B A self cx w = ReaderMut_poll B A self cx w []"

definition SharedReader_add_connection ::
  "('w, 'b, 'f) reader_api \<Rightarrow> 'f locked_reader \<Rightarrow> socket_addr \<Rightarrow> 'w \<Rightarrow>
     reader_inner io_result \<times> 'f locked_reader \<times> 'w" where
  "SharedReader_add_connection A self sock w = ReaderMut_insert A self sock Noop w"

section \<open>Reading from a connection\<close>

definition ReaderInner_poll_read ::
  "'b readbuf_api \<Rightarrow> ('w, 'b, 'f) reader_api \<Rightarrow> reader_inner \<Rightarrow> 'f locked_reader \<Rightarrow> waker \<Rightarrow> 'b \<Rightarrow> 'w \<Rightarrow>
     (unit io_result poll run \<times> 'f locked_reader \<times> 'b \<times> 'w \<times> waker list) option" where
  "ReaderInner_poll_read B A this self cx buf w =
     (if rb_remaining B buf = 0 then Some (Done (Ready (Inr ())), self, buf, w, [])
      else case lr_heap self (ri_entry this) of
        None \<Rightarrow> Some (Undefined, self, buf, w, [])
      | Some arc \<Rightarrow>
          let entry = ae_entry arc; remaining_start = rb_remaining B buf
          in (case ReadBuffer_read B (re_buffer entry) buf of
                Panicked \<Rightarrow> Some (Panicked, self, buf, w, [])
              | Undefined \<Rightarrow> Some (Undefined, self, buf, w, [])
              | Done (buffer, buf') \<Rightarrow>
                  let entry' = entry\<lparr>re_buffer := buffer\<rparr>; self' = put_entry self (ri_entry this) entry'
                  in if remaining_start \<noteq> rb_remaining B buf'
                     then Some (Done (Ready (Inr ())), self', buf', w, [waiting_waker entry'])
                     else if weak_count self' (ri_entry this) = 0
                     then Some (Done (Ready (Inr ())), self', buf', w, [])
                     else
                       (case SharedReader_poll B A
                               (put_entry self' (ri_entry this) (entry'\<lparr>reader_pipe_waker := cx\<rparr>)) cx w of
                          None \<Rightarrow> None
                        | Some (Done (Ready e), self'', w', woken) \<Rightarrow>
                            Some (Done (Ready (Inl e)), self'', buf', w', woken)
                        | Some (Done Pending, self'', w', woken) \<Rightarrow> Some (Done Pending, self'', buf', w', woken)
                        | Some (Panicked, self'', w', woken) \<Rightarrow> Some (Panicked, self'', buf', w', woken)
                        | Some (Undefined, self'', w', woken) \<Rightarrow> Some (Undefined, self'', buf', w', woken))))"

end
