(* ===== verification/Mux_Model.thy ===== *)
theory Mux_Model
  imports Write_Model Read_Model
begin

text \<open>
  \<open>src/lib.rs\<close>: connections, the pipe that opens them and the listener that accepts them. The reader
  behind the \<open>Arc<SharedReader>\<close> of a pipe is passed along as state, as in \<open>Read_Model\<close>; the
  mutex behind its \<open>Arc<Mutex<Writer>>\<close> is an address; the receiver of the channel is part of the world. The two \<open>async\<close> functions are futures with
  one constructor per await point and a function that polls them.
\<close>

section \<open>Connections\<close>

record ('g, 'f) mux_connection =
  mc_write :: "('g, 'f) write_inner"
  mc_read :: reader_inner

definition MuxConnection_new :: "('g, 'f) write_inner \<Rightarrow> reader_inner \<Rightarrow> ('g, 'f) mux_connection" where
  "MuxConnection_new wr rd = \<lparr>mc_write = wr, mc_read = rd\<rparr>"

definition MuxConnection_addr :: "('g, 'f) mux_connection \<Rightarrow> socket_addr" where
  "MuxConnection_addr self = WriteInner_addr (mc_write self)"

definition MuxConnection_poll_write ::
  "('w, 'g, 'f, 'a) writer_api \<Rightarrow> ('g, 'f) mux_connection \<Rightarrow> waker \<Rightarrow> byte list \<Rightarrow> 'w \<Rightarrow>
     (nat io_result poll run \<times> ('g, 'f) mux_connection \<times> 'w) option" where
  "MuxConnection_poll_write W self cx buf w =
     (case WriteInner_poll_write W (mc_write self) cx buf w of
        None \<Rightarrow> None
      | Some (r, wr, w') \<Rightarrow> Some (r, self\<lparr>mc_write := wr\<rparr>, w'))"

definition MuxConnection_poll_flush ::
  "('w, 'g, 'f, 'a) writer_api \<Rightarrow> ('g, 'f) mux_connection \<Rightarrow> waker \<Rightarrow> 'w \<Rightarrow>
     (unit io_result poll run \<times> ('g, 'f) mux_connection \<times> 'w) option" where
  "MuxConnection_poll_flush W self cx w =
     (case WriteInner_poll_flush W (mc_write self) cx w of
        None \<Rightarrow> None
      | Some (r, wr, w') \<Rightarrow> Some (r, self\<lparr>mc_write := wr\<rparr>, w'))"

definition MuxConnection_poll_shutdown ::
  "('w, 'g, 'f, 'a) writer_api \<Rightarrow> ('g, 'f) mux_connection \<Rightarrow> waker \<Rightarrow> 'w \<Rightarrow>
     (unit io_result poll run \<times> ('g, 'f) mux_connection \<times> 'w \<times> waker list) option" where
  "MuxConnection_poll_shutdown W self cx w =
     (case WriteInner_poll_shutdown W (mc_write self) cx w of
        None \<Rightarrow> None
      | Some (r, wr, w', woken) \<Rightarrow> Some (r, self\<lparr>mc_write := wr\<rparr>, w', woken))"

definition MuxConnection_poll_read ::
  "'b readbuf_api \<Rightarrow> ('w, 'b, 'l) reader_api \<Rightarrow> ('g, 'f) mux_connection \<Rightarrow> 'l locked_reader \<Rightarrow> waker \<Rightarrow> 'b \<Rightarrow> 'w \<Rightarrow>
     (unit io_result poll run \<times> 'l locked_reader \<times> 'b \<times> 'w \<times> waker list) option" where
  "MuxConnection_poll_read B A self s cx buf w = ReaderInner_poll_read B A (mc_read self) s cx buf w"

text \<open>
  Dropping a connection drops its fields in order: the writer, which may spawn a task, and the reader.
\<close>

definition drop_halves ::
  "('w, 'g, 'f, 'a) writer_api \<Rightarrow> ('g, 'f) write_inner \<Rightarrow> reader_inner \<Rightarrow> 'l locked_reader \<Rightarrow> 'w \<Rightarrow>
     ('g, 'f, 'a) drop_task option run \<times> 'l locked_reader \<times> 'w" where
  "drop_halves W wr rd s w = (case WriteInner_drop W wr w of (task, w') \<Rightarrow> (task, ReaderInner_drop s rd, w'))"

definition MuxConnection_drop ::
  "('w, 'g, 'f, 'a) writer_api \<Rightarrow> ('g, 'f) mux_connection \<Rightarrow> 'l locked_reader \<Rightarrow> 'w \<Rightarrow>
     ('g, 'f, 'a) drop_task option run \<times> 'l locked_reader \<times> 'w" where
  "MuxConnection_drop W self s w = drop_halves W (mc_write self) (mc_read self) s w"

section \<open>The pipe\<close>

record mux_pipe =
  mp_write :: nat

definition MuxPipe_make_writer :: "('g, 'f) write_inner \<Rightarrow> mux_pipe \<Rightarrow> socket_addr \<Rightarrow> ('g, 'f) write_inner" where
  "MuxPipe_make_writer uninit self addr = box_new WriteInner_init uninit (addr, PollMutex_new (mp_write self))"

text \<open>
  \<open>add_connection\<close> waits in one place, for the handshake. A failed or panicking handshake drops the writer
  and the reader; polling a future that is done panics.
\<close>

datatype ('g, 'f, 'a) add_connection_fut =
    AddStart socket_addr
  | AddHandshake "('g, 'f) write_inner" reader_inner "('g, 'f, 'a) handshake_fut"
  | AddDone

type_synonym ('w, 'g, 'f, 'a, 'l) add_result =
  "('g, 'f) mux_connection io_result poll run \<times> ('g, 'f, 'a) add_connection_fut \<times> 'l locked_reader \<times> 'w \<times>
     ('g, 'f, 'a) drop_task option"

definition add_unwind ::
  "('w, 'g, 'f, 'a) writer_api \<Rightarrow> ('g, 'f) mux_connection io_result poll run \<Rightarrow> ('g, 'f) write_inner \<Rightarrow> reader_inner \<Rightarrow>
     'l locked_reader \<Rightarrow> 'w \<Rightarrow> ('w, 'g, 'f, 'a, 'l) add_result" where
  "add_unwind W ret writer reader s w =
     (case drop_halves W writer reader s w of
        (Done task, s', w') \<Rightarrow> (ret, AddDone, s', w', task)
      | (Panicked, s', w') \<Rightarrow> (Panicked, AddDone, s', w', None)
      | (Undefined, s', w') \<Rightarrow> (Undefined, AddDone, s', w', None))"

definition add_handshake ::
  "('w, 'g, 'f, 'a) writer_api \<Rightarrow> ('g, 'f) write_inner \<Rightarrow> reader_inner \<Rightarrow> ('g, 'f, 'a) handshake_fut \<Rightarrow>
     'l locked_reader \<Rightarrow> waker \<Rightarrow> 'w \<Rightarrow> ('w, 'g, 'f, 'a, 'l) add_result" where
  "add_handshake W writer reader fut s cx w =
     (case WriteInner_handshake_poll W writer fut cx w of
        (Done Pending, fut', w') \<Rightarrow> (Done Pending, AddHandshake writer reader fut', s, w', None)
      | (Done (Ready (Inr u)), fut', w') \<Rightarrow>
          (Done (Ready (Inr (MuxConnection_new writer reader))), AddDone, s, w', None)
      | (Done (Ready (Inl e)), fut', w') \<Rightarrow> add_unwind W (Done (Ready (Inl e))) writer reader s w'
      | (Panicked, fut', w') \<Rightarrow> add_unwind W Panicked writer reader s w'
      | (Undefined, fut', w') \<Rightarrow> (Undefined, AddDone, s, w', None))"

fun MuxPipe_add_connection ::
  "('w, 'g, 'f, 'a) writer_api \<Rightarrow> ('w, 'b, 'l) reader_api \<Rightarrow> ('g, 'f) write_inner \<Rightarrow> mux_pipe \<Rightarrow>
     ('g, 'f, 'a) add_connection_fut \<Rightarrow> 'l locked_reader \<Rightarrow> waker \<Rightarrow> 'w \<Rightarrow> ('w, 'g, 'f, 'a, 'l) add_result" where
  "MuxPipe_add_connection W A uninit self (AddStart addr) s cx w =
     (case SharedReader_add_connection A s addr w of
        (Inl e, s', w') \<Rightarrow> (Done (Ready (Inl e)), AddDone, s', w', None)
      | (Inr reader, s', w') \<Rightarrow>
          let writer = MuxPipe_make_writer uninit self addr
          in (case WriteInner_handshake W writer w' of
                Done (fut, writer', w'') \<Rightarrow> add_handshake W writer' reader fut s' cx w''
              | Panicked \<Rightarrow> add_unwind W Panicked writer reader s' w'
              | Undefined \<Rightarrow> (Undefined, AddDone, s', w', None)))"
| "MuxPipe_add_connection W A uninit self (AddHandshake writer reader fut) s cx w =
     add_handshake W writer reader fut s cx w"
| "MuxPipe_add_connection W A uninit self AddDone s cx w = (Panicked, AddDone, s, w, None)"

text \<open>Dropping the future before it is done: what it holds, then the writer, then the reader.\<close>

fun drop_lock_await :: "('w, 'g, 'f, 'a) writer_api \<Rightarrow> 'f lock_await \<Rightarrow> 'w \<Rightarrow> 'w" where
  "drop_lock_await W (AwaitOwned f) w = drop_lock_fut W f w"
| "drop_lock_await W (AwaitBorrowed f) w = drop_lock_fut W f w"

fun drop_handshake :: "('w, 'g, 'f, 'a) writer_api \<Rightarrow> ('g, 'f, 'a) handshake_fut \<Rightarrow> 'w \<Rightarrow> 'w" where
  "drop_handshake W (HandshakeLock fut) w = drop_lock_await W fut w"
| "drop_handshake W (HandshakeWrite lock fut) w = drop_guard W lock w"
| "drop_handshake W HandshakeDone w = w"

fun MuxPipe_add_connection_drop ::
  "('w, 'g, 'f, 'a) writer_api \<Rightarrow> ('g, 'f, 'a) add_connection_fut \<Rightarrow> 'l locked_reader \<Rightarrow> 'w \<Rightarrow>
     ('g, 'f, 'a) drop_task option run \<times> 'l locked_reader \<times> 'w" where
  "MuxPipe_add_connection_drop W (AddHandshake writer reader fut) s w =
     drop_halves W writer reader s (drop_handshake W fut w)"
| "MuxPipe_add_connection_drop W _ s w = (Done None, s, w)"

section \<open>The listener\<close>

text \<open>
  The parameters of the listener: \<open>flume::bounded\<close>, the allocation of the mutex around the write half, the
  \<open>recv_async\<close> future \<open>'r\<close> (\<open>Inl\<close> is \<open>RecvError\<close>) and the drops.
\<close>

record ('w, 'r) channel_api =
  ch_bounded :: "nat \<Rightarrow> 'w \<Rightarrow> 'w"
  ch_mutex_new :: "'w \<Rightarrow> nat \<times> 'w"
  ch_recv_async :: "'w \<Rightarrow> 'r \<times> 'w"
  ch_poll_recv :: "'r \<Rightarrow> waker \<Rightarrow> 'w \<Rightarrow> (unit + socket_addr \<times> reader_inner) poll \<times> 'r \<times> 'w"
  ch_drop_recv :: "'r \<Rightarrow> 'w \<Rightarrow> 'w"
  ch_drop_receiver :: "'w \<Rightarrow> 'w"

record mux_listener =
  ml_pipe :: mux_pipe

definition MuxListener_with_listener_capacity ::
  "('w, 'r) channel_api \<Rightarrow> nat \<Rightarrow> 'w \<Rightarrow> mux_listener \<times> 'l locked_reader \<times> 'w" where
  "MuxListener_with_listener_capacity X capacity w =
     (let w1 = ch_bounded X capacity w; read = SharedReader_new
      in case ch_mutex_new X w1 of (write, w2) \<Rightarrow> (\<lparr>ml_pipe = \<lparr>mp_write = write\<rparr>\<rparr>, read, w2))"

definition MuxListener_new :: "('w, 'r) channel_api \<Rightarrow> 'w \<Rightarrow> mux_listener \<times> 'l locked_reader \<times> 'w" where
  "MuxListener_new X w = MuxListener_with_listener_capacity X 1 w"

definition MuxListener_pipe :: "mux_listener \<Rightarrow> mux_pipe" where
  "MuxListener_pipe self = ml_pipe self"

definition MuxListener_into_pipe :: "('w, 'r) channel_api \<Rightarrow> mux_listener \<Rightarrow> 'w \<Rightarrow> mux_pipe \<times> 'w" where
  "MuxListener_into_pipe X self w = (ml_pipe self, ch_drop_receiver X w)"

definition MuxPipe_new :: "('w, 'r) channel_api \<Rightarrow> 'w \<Rightarrow> mux_pipe \<times> 'l locked_reader \<times> 'w" where
  "MuxPipe_new X w =
     (case MuxListener_with_listener_capacity X 0 w of
        (listener, s, w') \<Rightarrow> (case MuxListener_into_pipe X listener w' of (pipe, w'') \<Rightarrow> (pipe, s, w'')))"

definition MuxListener_add_connection ::
  "('w, 'g, 'f, 'a) writer_api \<Rightarrow> ('w, 'b, 'l) reader_api \<Rightarrow> ('g, 'f) write_inner \<Rightarrow> mux_listener \<Rightarrow>
     ('g, 'f, 'a) add_connection_fut \<Rightarrow> 'l locked_reader \<Rightarrow> waker \<Rightarrow> 'w \<Rightarrow> ('w, 'g, 'f, 'a, 'l) add_result" where
  "MuxListener_add_connection W A uninit self fut s cx w = MuxPipe_add_connection W A uninit (ml_pipe self) fut s cx w"

datatype 'r accept_fut = AcceptStart | AcceptWait 'r | AcceptDone

definition accept_wait ::
  "'b readbuf_api \<Rightarrow> ('w, 'b, 'l) reader_api \<Rightarrow> ('w, 'r) channel_api \<Rightarrow> ('g, 'f) write_inner \<Rightarrow> mux_listener \<Rightarrow> 'r \<Rightarrow>
     'l locked_reader \<Rightarrow> waker \<Rightarrow> 'w \<Rightarrow>
     (('g, 'f) mux_connection io_result poll run \<times> 'r accept_fut \<times> 'l locked_reader \<times> 'w \<times> waker list) option" where
  "accept_wait B A X uninit self fut s cx w =
     (case ch_poll_recv X fut cx w of
        (Ready (Inr (addr, reader)), fut', w') \<Rightarrow>
          let writer = MuxPipe_make_writer uninit (ml_pipe self) addr
          in Some (Done (Ready (Inr (MuxConnection_new writer reader))), AcceptDone, s, ch_drop_recv X fut' w', [])
      | (Ready (Inl u), fut', w') \<Rightarrow> Some (Panicked, AcceptDone, s, ch_drop_recv X fut' w', [])
      | (Pending, fut', w') \<Rightarrow>
          (case SharedReader_poll B A s cx w' of
             None \<Rightarrow> None
           | Some (Done Pending, s', w'', woken) \<Rightarrow> Some (Done Pending, AcceptWait fut', s', w'', woken)
           | Some (Done (Ready e), s', w'', woken) \<Rightarrow>
               Some (Done (Ready (Inl e)), AcceptDone, s', ch_drop_recv X fut' w'', woken)
           | Some (Panicked, s', w'', woken) \<Rightarrow> Some (Panicked, AcceptDone, s', ch_drop_recv X fut' w'', woken)
           | Some (Undefined, s', w'', woken) \<Rightarrow> Some (Undefined, AcceptDone, s', w'', woken)))"

fun MuxListener_accept ::
  "'b readbuf_api \<Rightarrow> ('w, 'b, 'l) reader_api \<Rightarrow> ('w, 'r) channel_api \<Rightarrow> ('g, 'f) write_inner \<Rightarrow> mux_listener \<Rightarrow>
     'r accept_fut \<Rightarrow> 'l locked_reader \<Rightarrow> waker \<Rightarrow> 'w \<Rightarrow>
     (('g, 'f) mux_connection io_result poll run \<times> 'r accept_fut \<times> 'l locked_reader \<times> 'w \<times> waker list) option" where
  "MuxListener_accept B A X uninit self AcceptStart s cx w =
     (case ch_recv_async X w of (fut, w') \<Rightarrow> accept_wait B A X uninit self fut s cx w')"
| "MuxListener_accept B A X uninit self (AcceptWait fut) s cx w = accept_wait B A X uninit self fut s cx w"
| "MuxListener_accept B A X uninit self AcceptDone s cx w = Some (Panicked, AcceptDone, s, w, [])"

end
