(* ===== verification/Demux.thy ===== *)
theory Demux
  imports Protocol
begin

text \<open>
  The abstract demultiplexer: what the reading side of \<open>vt-muxer\<close> promises, as an automaton that
  is fed one byte at a time. It collects 20 header bytes, then the payload the header announces. An
  empty frame ends the connection of its address if there is one and opens a new one otherwise,
  provided somebody listens; payload goes to the open connection of its address and is dropped when
  there is none, or when its reader is gone.
\<close>

section \<open>The automaton\<close>

datatype dx_phase = InHeader "byte list" | InBody socket_addr nat

record demux =
  dx_open :: "socket_addr \<rightharpoonup> nat"
  dx_next :: nat
  dx_phase :: dx_phase
  dx_got :: "nat \<Rightarrow> byte list"

definition dx_dispatch :: "bool \<Rightarrow> mux_frame_header \<Rightarrow> demux \<Rightarrow> demux" where
  "dx_dispatch listening h d =
     (let a = MuxFrameHeader_addr h; n = unat (MuxFrameHeader_len h)
      in if n \<noteq> 0 then d\<lparr>dx_phase := InBody a n\<rparr>
         else case dx_open d a of
           Some i \<Rightarrow> d\<lparr>dx_open := (dx_open d)(a := None), dx_phase := InHeader []\<rparr>
         | None \<Rightarrow>
             if listening
             then d\<lparr>dx_open := (dx_open d)(a \<mapsto> dx_next d), dx_next := dx_next d + 1,
                    dx_phase := InHeader [], dx_got := (dx_got d)(dx_next d := [])\<rparr>
             else d\<lparr>dx_phase := InHeader []\<rparr>)"

definition dx_deliver :: "(nat \<Rightarrow> bool) \<Rightarrow> socket_addr \<Rightarrow> byte list \<Rightarrow> demux \<Rightarrow> demux" where
  "dx_deliver live a bs d =
     (case dx_open d a of
        None \<Rightarrow> d
      | Some i \<Rightarrow> if live i then d\<lparr>dx_got := (dx_got d)(i := dx_got d i @ bs)\<rparr> else d)"

definition dx_feed :: "bool \<Rightarrow> (nat \<Rightarrow> bool) \<Rightarrow> byte \<Rightarrow> demux \<Rightarrow> demux" where
  "dx_feed listening live x d =
     (case dx_phase d of
        InHeader h \<Rightarrow>
          if length h + 1 < MuxFrameHeader_size then d\<lparr>dx_phase := InHeader (h @ [x])\<rparr>
          else dx_dispatch listening (MuxFrameHeader_of_bytes (h @ [x])) d
      | InBody a n \<Rightarrow>
          (dx_deliver live a [x] d)\<lparr>dx_phase := (if n \<le> 1 then InHeader [] else InBody a (n - 1))\<rparr>)"

abbreviation dx_run :: "bool \<Rightarrow> (nat \<Rightarrow> bool) \<Rightarrow> byte list \<Rightarrow> demux \<Rightarrow> demux" where
  "dx_run listening live bs d \<equiv> fold (dx_feed listening live) bs d"

text \<open>One whole frame.\<close>

definition dx_frame :: "bool \<Rightarrow> (nat \<Rightarrow> bool) \<Rightarrow> socket_addr \<times> byte list \<Rightarrow> demux \<Rightarrow> demux" where
  "dx_frame listening live f d =
     (case f of (a, p) \<Rightarrow>
        if p = [] then dx_dispatch listening (MuxFrameHeader_empty a) d else dx_deliver live a p d)"

section \<open>Lemmas\<close>

lemma dx_deliver_simps [simp]:
  "dx_open (dx_deliver live a bs d) = dx_open d" "dx_next (dx_deliver live a bs d) = dx_next d"
  "dx_phase (dx_deliver live a bs d) = dx_phase d"
  by (simp_all add: dx_deliver_def split: option.split)

lemma dx_deliver_phase [simp]:
  "dx_deliver live a bs (d\<lparr>dx_phase := ph\<rparr>) = (dx_deliver live a bs d)\<lparr>dx_phase := ph\<rparr>"
  by (simp add: dx_deliver_def split: option.split)

lemma dx_deliver_append [simp]:
  "dx_deliver live a cs (dx_deliver live a bs d) = dx_deliver live a (bs @ cs) d"
  by (simp add: dx_deliver_def split: option.split)

lemma dx_deliver_Nil [simp]: "dx_deliver live a [] d = d"
  by (simp add: dx_deliver_def split: option.split)

lemma dx_run_header:
  "dx_phase d = InHeader h \<Longrightarrow> length h + length bs < MuxFrameHeader_size \<Longrightarrow>
    dx_run L live bs d = d\<lparr>dx_phase := InHeader (h @ bs)\<rparr>"
proof (induction bs arbitrary: d h)
  case (Cons x bs)
  have "dx_feed L live x d = d\<lparr>dx_phase := InHeader (h @ [x])\<rparr>"
    using Cons.prems by (simp add: dx_feed_def)
  then show ?case
    using Cons.IH [of "d\<lparr>dx_phase := InHeader (h @ [x])\<rparr>" "h @ [x]"] Cons.prems by simp
qed simp

lemma dx_run_dispatch:
  assumes "dx_phase d = InHeader h" and "length h + length bs = MuxFrameHeader_size" and "bs \<noteq> []"
  shows "dx_run L live bs d = dx_dispatch L (MuxFrameHeader_of_bytes (h @ bs)) (d\<lparr>dx_phase := InHeader (h @ butlast bs)\<rparr>)"
proof -
  have bs: "bs = butlast bs @ [last bs]" using assms(3) by simp
  have len: "length h + length (butlast bs) = 19" using assms(2,3) by (cases bs rule: rev_cases) auto
  have "dx_run L live bs d = dx_feed L live (last bs) (dx_run L live (butlast bs) d)"
    by (subst bs) simp
  also have "dx_run L live (butlast bs) d = d\<lparr>dx_phase := InHeader (h @ butlast bs)\<rparr>"
    by (rule dx_run_header [OF assms(1)]) (use len in simp)
  also have "dx_feed L live (last bs) \<dots> =
      dx_dispatch L (MuxFrameHeader_of_bytes (h @ bs)) (d\<lparr>dx_phase := InHeader (h @ butlast bs)\<rparr>)"
    using len bs by (simp add: dx_feed_def)
  finally show ?thesis .
qed

lemma dx_dispatch_phase [simp]: "dx_dispatch L h (d\<lparr>dx_phase := ph\<rparr>) = dx_dispatch L h d"
  by (simp add: dx_dispatch_def Let_def split: option.split)

lemma dx_run_body:
  "dx_phase d = InBody a n \<Longrightarrow> length bs \<le> n \<Longrightarrow> bs \<noteq> [] \<Longrightarrow>
    dx_run L live bs d = (dx_deliver live a bs d)\<lparr>dx_phase :=
      (if length bs = n then InHeader [] else InBody a (n - length bs))\<rparr>"
proof (induction bs arbitrary: d n)
  case (Cons x bs)
  show ?case
  proof (cases "bs = []")
    case True
    then show ?thesis using Cons.prems by (simp add: dx_feed_def)
  next
    case False
    let ?d = "(dx_deliver live a [x] d)\<lparr>dx_phase := InBody a (n - 1)\<rparr>"
    have n: "\<not> n \<le> 1" using Cons.prems False by (cases bs) auto
    then have "dx_feed L live x d = ?d"
      using Cons.prems by (simp add: dx_feed_def)
    moreover have "dx_run L live bs ?d = (dx_deliver live a bs ?d)\<lparr>dx_phase :=
        (if length bs = n - 1 then InHeader [] else InBody a (n - 1 - length bs))\<rparr>"
      by (rule Cons.IH) (use Cons.prems False in auto)
    ultimately show ?thesis using n Cons.prems by auto
  qed
qed simp

lemma dx_run_frame:
  assumes ph: "dx_phase d = InHeader []" and p: "length p \<le> 65535"
  shows "dx_run L live (frame a p) d = dx_frame L live (a, p) d"
proof -
  let ?h = "\<lparr>socket = a, len = NetworkOrderU16_new (of_nat (length p))\<rparr>"
  have n: "unat (MuxFrameHeader_len ?h) = length p"
    using p by (simp add: MuxFrameHeader_len_def unat_of_nat)
  have "MuxFrameHeader_bytes ?h \<noteq> []"
    using length_MuxFrameHeader_bytes [of ?h] by (metis list.size(3) zero_neq_numeral)
  then have hd: "dx_run L live (MuxFrameHeader_bytes ?h) d = dx_dispatch L ?h d"
    using dx_run_dispatch [OF ph, of "MuxFrameHeader_bytes ?h"] MuxFrameHeader_of_bytes_append [of ?h "[]"]
    by simp
  show ?thesis
  proof (cases "p = []")
    case True
    then show ?thesis using hd by (simp add: frame_def dx_frame_def MuxFrameHeader_empty_def)
  next
    case False
    then have "dx_dispatch L ?h d = d\<lparr>dx_phase := InBody a (length p)\<rparr>"
      using n by (simp add: dx_dispatch_def MuxFrameHeader_addr_def)
    moreover have "dx_run L live p (d\<lparr>dx_phase := InBody a (length p)\<rparr>) = dx_deliver live a p d"
      using dx_run_body [of "d\<lparr>dx_phase := InBody a (length p)\<rparr>" a "length p" p L live] False ph by simp
    ultimately show ?thesis
      using False hd by (simp add: frame_def dx_frame_def)
  qed
qed

lemma dx_frame_phase: "dx_phase d = InHeader [] \<Longrightarrow> dx_phase (dx_frame L live f d) = InHeader []"
  by (auto simp: dx_frame_def dx_dispatch_def MuxFrameHeader_empty_def MuxFrameHeader_len_def Let_def
      split: prod.splits option.splits)

lemma dx_run_frames:
  "dx_phase d = InHeader [] \<Longrightarrow> \<forall>f \<in> set fs. length (snd f) \<le> 65535 \<Longrightarrow>
    dx_run L live (frames fs) d = fold (dx_frame L live) fs d"
proof (induction fs arbitrary: d)
  case (Cons f fs)
  then show ?case
    using dx_run_frame [of d "snd f" L live "fst f"] dx_frame_phase [of d L live f]
    by (cases f) simp
qed simp

section \<open>What a connection gets\<close>

text \<open>Connection numbers are fresh and used for one address at a time.\<close>

definition dx_wf :: "demux \<Rightarrow> bool" where
  "dx_wf d \<longleftrightarrow> (\<forall>a i. dx_open d a = Some i \<longrightarrow> i < dx_next d) \<and>
     (\<forall>a b i. dx_open d a = Some i \<longrightarrow> dx_open d b = Some i \<longrightarrow> a = b)"

lemma dx_wfD:
  assumes "dx_wf d"
  shows "dx_open d a = Some i \<Longrightarrow> i < dx_next d"
    and "dx_open d a = Some i \<Longrightarrow> dx_open d b = Some i \<Longrightarrow> a = b"
  using assms unfolding dx_wf_def by blast+

lemma dx_wf_empty_frame:
  assumes "dx_wf d"
  shows "dx_wf (dx_dispatch L (MuxFrameHeader_empty a) d)"
proof -
  have h: "MuxFrameHeader_addr (MuxFrameHeader_empty a) = a" "MuxFrameHeader_len (MuxFrameHeader_empty a) = 0"
    by (simp_all add: MuxFrameHeader_empty_def MuxFrameHeader_addr_def MuxFrameHeader_len_def)
  note wf = dx_wfD [OF assms]
  consider i where "dx_open d a = Some i" | "dx_open d a = None" "L" | "dx_open d a = None" "\<not> L"
    by blast
  then show ?thesis
  proof cases
    case 2
    have "dx_open d b \<noteq> Some (dx_next d)" for b using wf(1) [of b] by auto
    then show ?thesis
      unfolding dx_wf_def using wf 2 by (auto simp: dx_dispatch_def h less_Suc_eq)
  qed (use wf in \<open>auto simp: dx_wf_def dx_dispatch_def h\<close>)
qed

lemma dx_wf_frame: "dx_wf d \<Longrightarrow> dx_wf (dx_frame L live f d)"
  by (cases f) (auto simp: dx_frame_def dx_wf_empty_frame, simp add: dx_wf_def)

lemma dx_frame_conn:
  assumes wf: "dx_wf d" and a: "dx_open d a = Some i" and keep: "f \<noteq> (a, [])"
  shows "dx_open (dx_frame L live f d) a = Some i"
    and "dx_got (dx_frame L live f d) i = dx_got d i @ (if fst f = a \<and> live i then snd f else [])"
proof -
  obtain b p where f: "f = (b, p)" by fastforce
  have i: "i \<noteq> dx_next d" using dx_wfD(1) [OF wf a] by simp
  have other: "dx_open d b \<noteq> Some i" if "b \<noteq> a" using dx_wfD(2) [OF wf a, of b] that by auto
  show "dx_open (dx_frame L live f d) a = Some i"
    using a keep
    by (auto simp: f dx_frame_def dx_dispatch_def MuxFrameHeader_empty_def MuxFrameHeader_addr_def Let_def
        split: option.split)
  show "dx_got (dx_frame L live f d) i = dx_got d i @ (if fst f = a \<and> live i then snd f else [])"
    using a keep i other
    by (auto simp: f dx_frame_def dx_deliver_def dx_dispatch_def MuxFrameHeader_empty_def
        MuxFrameHeader_addr_def Let_def split: option.split)
qed

lemma dx_frames_conn:
  "dx_wf d \<Longrightarrow> dx_open d a = Some i \<Longrightarrow> live i \<Longrightarrow> (a, []) \<notin> set fs \<Longrightarrow>
    dx_open (fold (dx_frame L live) fs d) a = Some i \<and>
    dx_got (fold (dx_frame L live) fs d) i = dx_got d i @ concat (map snd (filter (\<lambda>f. fst f = a) fs))"
proof (induction fs arbitrary: d)
  case (Cons f fs)
  then have "f \<noteq> (a, [])" by auto
  note step = dx_frame_conn [OF Cons.prems(1,2) this, of L live]
  show ?case
    using Cons.IH [OF dx_wf_frame [OF Cons.prems(1), of L live f] step(1)] Cons.prems step(2) by auto
qed simp

text \<open>Frames of other addresses leave a connection alone, open or closed.\<close>

lemma dx_frame_open_other: "a \<noteq> fst f \<Longrightarrow> dx_open (dx_frame L live f d) a = dx_open d a"
  by (auto simp: dx_frame_def dx_deliver_def dx_dispatch_def MuxFrameHeader_empty_def MuxFrameHeader_addr_def Let_def
      split: prod.split option.split)

lemma dx_next_frame: "dx_next d \<le> dx_next (dx_frame L live f d)"
  by (auto simp: dx_frame_def dx_deliver_def dx_dispatch_def Let_def split: prod.split option.split)

lemma dx_next_feed: "dx_next d \<le> dx_next (dx_feed L alive x d)"
  by (auto simp: dx_feed_def dx_dispatch_def Let_def split: dx_phase.split option.split)

lemma dx_frame_gone:
  assumes "k < dx_next d" and "k \<notin> ran (dx_open d)"
  shows "k \<notin> ran (dx_open (dx_frame L live f d))" and "dx_got (dx_frame L live f d) k = dx_got d k"
  using assms
  by (auto simp: dx_frame_def dx_deliver_def dx_dispatch_def Let_def ran_def split: prod.split option.split)

section \<open>The frames of one address\<close>

abbreviation frames_of :: "socket_addr \<Rightarrow> (socket_addr \<times> byte list) list \<Rightarrow> (socket_addr \<times> byte list) list" where
  "frames_of a fs \<equiv> filter (\<lambda>f. fst f = a) fs"

end
