(* ===== verification/Read_Refine.thy ===== *)
theory Read_Refine
  imports Read_Model Demux
begin

text \<open>
  The shared reader implements the abstract demultiplexer: every \<open>poll_once\<close> feeds exactly the bytes
  it took from the stream to the automaton of \<open>Demux\<close>, whatever pieces the stream delivers.
\<close>

section \<open>Hypotheses and invariant\<close>

text \<open>The reader delivers the stream in order; the other operations do not touch it.\<close>

definition reader_laws ::
  "'b readbuf_api \<Rightarrow> ('w, 'b, 'f) reader_api \<Rightarrow> ('b \<Rightarrow> rb_view) \<Rightarrow> ('w \<Rightarrow> byte list) \<Rightarrow> bool" where
  "reader_laws B A view src \<longleftrightarrow> readbuf_laws B view \<and>
     fills view src None (r_poll_read A) \<and> (\<forall>n. fills view src (Some n) (r_poll_take A n)) \<and>
     (\<forall>m w. src (snd (r_send_async A m w)) = src w) \<and>
     (\<forall>f cx w. src (snd (snd (r_poll_send A f cx w))) = src w) \<and>
     (\<forall>cx w. src (snd (r_consume_budget A cx w)) = src w) \<and>
     (\<forall>n w. src (snd (r_alloc A n w)) = src w)"

lemma reader_lawsD:
  assumes "reader_laws B A view src"
  shows "readbuf_laws B view" and "fills view src None (r_poll_read A)"
    and "fills view src (Some n) (r_poll_take A n)"
    and "r_send_async A m w = (f', w') \<Longrightarrow> src w' = src w"
    and "r_poll_send A f cx w = (r, f', w') \<Longrightarrow> src w' = src w"
    and "r_consume_budget A cx w = (q, w') \<Longrightarrow> src w' = src w"
    and "r_alloc A n w = (ok, w') \<Longrightarrow> src w' = src w"
  using assms unfolding reader_laws_def by (metis snd_conv)+

definition entry_ok :: "reader_entry \<Rightarrow> bool" where
  "entry_ok e \<longleftrightarrow> rd_inv (re_buffer e) \<and> rd_capacity (re_buffer e) = DEFAULT_BUFFER_CAPACITY"

text \<open>
  The map is injective, its targets are allocated, the weak count says whether an entry is in the map,
  and every buffer is well formed.
\<close>

definition heap_inv :: "'f locked_reader \<Rightarrow> bool" where
  "heap_inv s \<longleftrightarrow>
     (\<forall>i. lr_next s \<le> i \<longrightarrow> lr_heap s i = None) \<and>
     (\<forall>a i. lr_map s a = Some i \<longrightarrow> lr_heap s i \<noteq> None) \<and>
     (\<forall>a b i. lr_map s a = Some i \<longrightarrow> lr_map s b = Some i \<longrightarrow> a = b) \<and>
     (\<forall>i arc. lr_heap s i = Some arc \<longrightarrow> entry_ok (ae_entry arc) \<and>
        ae_weak arc = (if i \<in> ran (lr_map s) then 1 else 0))"

fun state_inv :: "'f shared_reader_state \<Rightarrow> bool" where
  "state_inv (Read a n) \<longleftrightarrow> n \<noteq> 0"
| "state_inv (NextPacket h k) \<longleftrightarrow> unat k < MuxFrameHeader_size \<and> mem_read h 0 (unat k) \<noteq> None"
| "state_inv (SendSocket f) \<longleftrightarrow> True"
| "state_inv ReadError \<longleftrightarrow> True"

definition lr_inv :: "'f locked_reader \<Rightarrow> bool" where
  "lr_inv s \<longleftrightarrow> heap_inv s \<and> state_inv (lr_state s)"

lemma heap_inv_state [simp]: "heap_inv (lr_state_update f s) = heap_inv s"
  by (simp add: heap_inv_def)

lemma state_inv_next_packet [simp]: "state_inv next_packet"
  by (simp add: next_packet_def)

lemma upgrade_state [simp]: "upgrade (lr_state_update f s) = upgrade s"
  by (simp add: upgrade_def fun_eq_iff)

lemma heap_invD:
  assumes "heap_inv s"
  shows "lr_next s \<le> i \<Longrightarrow> lr_heap s i = None"
    and "lr_map s a = Some i \<Longrightarrow> \<exists>arc. lr_heap s i = Some arc"
    and "lr_map s a = Some i \<Longrightarrow> lr_map s b = Some i \<Longrightarrow> a = b"
    and "lr_heap s i = Some arc \<Longrightarrow> entry_ok (ae_entry arc)"
    and "lr_heap s i = Some arc \<Longrightarrow> ae_weak arc = (if i \<in> ran (lr_map s) then 1 else 0)"
  using assms unfolding heap_inv_def by blast+

lemma upgrade_ok: "heap_inv s \<Longrightarrow> upgrade s i = Some e \<Longrightarrow> entry_ok e"
  by (auto simp: upgrade_def dest: heap_invD(4) split: option.splits if_splits)

section \<open>The abstraction\<close>

text \<open>A connection is live until its reader has been dropped.\<close>

definition live :: "'f locked_reader \<Rightarrow> nat \<Rightarrow> bool" where
  "live s i \<longleftrightarrow> (case lr_heap s i of None \<Rightarrow> True | Some arc \<Rightarrow> 0 < ae_strong arc)"

lemma live_upgrade: "lr_heap s i = Some arc \<Longrightarrow> live s i \<longleftrightarrow> upgrade s i \<noteq> None"
  by (simp add: live_def upgrade_def)

lemma upgrade_live: "upgrade s i = Some e \<Longrightarrow> live s i"
  by (auto simp: live_def upgrade_def split: option.splits if_splits)

lemma not_live_upgrade: "\<not> live s i \<Longrightarrow> upgrade s i = None"
  by (auto simp: live_def upgrade_def split: option.splits)

definition abs_phase :: "'f shared_reader_state \<Rightarrow> dx_phase" where
  "abs_phase st =
     (case st of
        Read a n \<Rightarrow> InBody a (unat n)
      | NextPacket h k \<Rightarrow> InHeader (the (mem_read h 0 (unat k)))
      | _ \<Rightarrow> InHeader [])"

text \<open>
  What a connection has got are the bytes its reader has taken, \<open>taken i\<close>, and those still in its
  buffer; a connection whose reader is gone has nothing.
\<close>

definition abs_got :: "(nat \<Rightarrow> byte list) \<Rightarrow> 'f locked_reader \<Rightarrow> nat \<Rightarrow> byte list" where
  "abs_got taken s i = (case upgrade s i of None \<Rightarrow> [] | Some e \<Rightarrow> taken i @ rd_contents (re_buffer e))"

definition abs_reader :: "(nat \<Rightarrow> byte list) \<Rightarrow> 'f locked_reader \<Rightarrow> demux" where
  "abs_reader taken s =
     \<lparr>dx_open = lr_map s, dx_next = lr_next s, dx_phase = abs_phase (lr_state s), dx_got = abs_got taken s\<rparr>"

lemma abs_reader_simps [simp]:
  "dx_open (abs_reader taken s) = lr_map s" "dx_next (abs_reader taken s) = lr_next s"
  "dx_phase (abs_reader taken s) = abs_phase (lr_state s)" "dx_got (abs_reader taken s) = abs_got taken s"
  by (simp_all add: abs_reader_def)

lemma abs_phase_simps [simp]:
  "abs_phase (Read a n) = InBody a (unat n)"
  "abs_phase (NextPacket h k) = InHeader (the (mem_read h 0 (unat k)))"
  "abs_phase (SendSocket f) = InHeader []" "abs_phase ReadError = InHeader []"
  "abs_phase next_packet = InHeader []"
  by (simp_all add: abs_phase_def next_packet_def)

lemma abs_got_state [simp]: "abs_got taken (lr_state_update f s) = abs_got taken s"
  by (simp add: abs_got_def fun_eq_iff)

lemma live_state [simp]: "live (lr_state_update f s) = live s"
  by (simp add: live_def fun_eq_iff)

lemma abs_reader_state:
  "abs_reader taken (s\<lparr>lr_state := st\<rparr>) = (abs_reader taken s)\<lparr>dx_phase := abs_phase st\<rparr>"
  by (simp add: abs_reader_def)

text \<open>Storing an entry changes nothing but the bytes of that connection.\<close>

lemma put_entry_simps [simp]:
  "lr_map (put_entry s i e) = lr_map s" "lr_next (put_entry s i e) = lr_next s"
  "lr_state (put_entry s i e) = lr_state s"
  by (simp_all add: put_entry_def split: option.split)

lemma upgrade_put_entry:
  "upgrade (put_entry s i e) j = (if j = i then map_option (\<lambda>_. e) (upgrade s i) else upgrade s j)"
  by (auto simp: upgrade_def put_entry_def split: option.split)

lemma live_put_entry [simp]: "live (put_entry s i e) = live s"
  by (auto simp: live_def put_entry_def fun_eq_iff split: option.split)

lemma heap_inv_put_entry: "heap_inv s \<Longrightarrow> entry_ok e \<Longrightarrow> heap_inv (put_entry s i e)"
  by (auto simp: heap_inv_def put_entry_def split: option.split)

lemma abs_put_entry:
  assumes "upgrade s i = Some e" and "rd_contents (re_buffer e') = rd_contents (re_buffer e) @ bs"
  shows "abs_reader taken (put_entry s i e') =
    (abs_reader taken s)\<lparr>dx_got := (abs_got taken s)(i := abs_got taken s i @ bs)\<rparr>"
  using assms by (auto simp: abs_reader_def abs_got_def upgrade_put_entry fun_eq_iff)

lemma abs_put_entry_same:
  assumes "upgrade s i = Some e" and "rd_contents (re_buffer e') = rd_contents (re_buffer e)"
  shows "abs_reader taken (put_entry s i e') = abs_reader taken s"
  using abs_put_entry [OF assms(1), of e' "[]" taken] assms(2) by (simp add: abs_reader_def)

text \<open>Bytes for an open connection with a live reader, and bytes for nobody.\<close>

lemma dx_deliver_live:
  assumes "lr_map s a = Some i" and "upgrade s i = Some e"
    and "rd_contents (re_buffer e') = rd_contents (re_buffer e) @ bs"
  shows "dx_deliver (live s) a bs (abs_reader taken s) = abs_reader taken (put_entry s i e')"
  using assms by (simp add: dx_deliver_def upgrade_live abs_put_entry)

lemma dx_deliver_nobody:
  assumes "heap_inv s" and "\<And>i e. lr_map s a = Some i \<Longrightarrow> upgrade s i \<noteq> Some e"
  shows "dx_deliver (live s) a bs (abs_reader taken s) = abs_reader taken s"
  using assms(2) heap_invD(2) [OF assms(1)] by (fastforce simp: dx_deliver_def live_upgrade split: option.split)

section \<open>One step\<close>

text \<open>
  What a step leaves: it took \<open>bs\<close> from the stream, and unless it failed, its state is that of the
  automaton fed with \<open>bs\<close> (for the connections whose readers still live). A failed step has delivered
  nothing; it has taken bytes only when the allocation for a new connection failed. An opening frame
  is ignored only when the listener is gone.
\<close>

definition dx_restrict :: "(nat \<Rightarrow> bool) \<Rightarrow> demux \<Rightarrow> demux" where
  "dx_restrict alive d = d\<lparr>dx_got := (\<lambda>i. if alive i then dx_got d i else [])\<rparr>"

text \<open>The channel of new connections as documented, as long as its receiver exists.\<close>

definition listener_stays :: "('w, 'b, 'f) reader_api \<Rightarrow> bool" where
  "listener_stays A \<longleftrightarrow> (\<forall>w. \<not> r_is_disconnected A w) \<and> (\<forall>f cx w r. fst (r_poll_send A f cx w) \<noteq> Ready (Inl r))"

definition sending :: "'f locked_reader \<Rightarrow> bool" where
  "sending s \<longleftrightarrow> (case lr_state s of SendSocket f \<Rightarrow> True | _ \<Rightarrow> False)"

text \<open>
  No reader is dropped while the receiver exists or nothing is being sent to it, and nothing is sent
  to a receiver that does not exist.
\<close>

definition steady :: "('w, 'b, 'f) reader_api \<Rightarrow> 'f locked_reader \<Rightarrow> 'f locked_reader \<Rightarrow> bool" where
  "steady A s s' \<longleftrightarrow>
     (listener_stays A \<or> \<not> sending s \<longrightarrow> live s' = live s) \<and>
     ((\<forall>w. r_is_disconnected A w) \<and> \<not> sending s \<longrightarrow> \<not> sending s')"

lemma steadyI [simp]: "live s' = live s \<Longrightarrow> \<not> sending s' \<Longrightarrow> steady A s s'"
  by (simp add: steady_def)

lemma steady_refl [simp]: "steady A s s"
  by (simp add: steady_def)

lemma sending_put_entry [simp]: "sending (put_entry s i e) = sending s"
  by (simp add: sending_def)

lemma sending_simps [simp]:
  "sending (s\<lparr>lr_state := NextPacket h k\<rparr>) = False" "sending (s\<lparr>lr_state := Read a n\<rparr>) = False"
  "sending (s\<lparr>lr_state := next_packet\<rparr>) = False" "sending (s\<lparr>lr_state := ReadError\<rparr>) = False"
  "sending (s\<lparr>lr_state := SendSocket f\<rparr>) = True"
  by (simp_all add: sending_def next_packet_def)

lemma not_sending:
  "lr_state s = Read a n \<Longrightarrow> \<not> sending s" "lr_state s = NextPacket h k \<Longrightarrow> \<not> sending s"
  "lr_state s = ReadError \<Longrightarrow> \<not> sending s"
  by (simp_all add: sending_def)

definition once_ok ::
  "('w, 'b, 'f) reader_api \<Rightarrow> (nat \<Rightarrow> byte list) \<Rightarrow> ('w \<Rightarrow> byte list) \<Rightarrow> 'f locked_reader \<Rightarrow> 'w \<Rightarrow>
     unit io_result poll run \<times> 'f locked_reader \<times> 'w \<times> waker list \<Rightarrow> bool" where
  "once_ok A taken src s w res \<longleftrightarrow>
     (case res of (r, s', w', wk) \<Rightarrow>
        \<exists>q bs. r = Done q \<and> src w' = src w @ bs \<and> lr_inv s' \<and> steady A s s' \<and>
          (case q of
             Ready (Inl e) \<Rightarrow> lr_map s' = lr_map s \<and> lr_next s' = lr_next s \<and> abs_got taken s' = abs_got taken s \<and>
               (bs = [] \<or> kind e = OutOfMemory)
           | _ \<Rightarrow> \<exists>u. abs_reader taken s' =
               dx_restrict (live s') (dx_run (\<not> r_is_disconnected A u) (live s) bs (abs_reader taken s))))"

lemma once_okI:
  assumes "src w' = src w @ bs" and "lr_inv s'" and "q = Pending \<or> q = Ready (Inr ())"
    and "steady A s s'"
    and "abs_reader taken s' = dx_restrict (live s') (dx_run (\<not> r_is_disconnected A u) (live s) bs (abs_reader taken s))"
  shows "once_ok A taken src s w (Done q, s', w', wk)"
  using assms unfolding once_ok_def by auto

lemma once_ok_fail:
  assumes "src w' = src w" and "lr_inv s'" and "lr_map s' = lr_map s" and "lr_next s' = lr_next s"
    and "steady A s s'" and "abs_got taken s' = abs_got taken s"
  shows "once_ok A taken src s w (Done (Ready (Inl e)), s', w', wk)"
  using assms unfolding once_ok_def by simp

lemma dx_restrict_same [simp]: "dx_restrict (live s) (abs_reader taken s) = abs_reader taken s"
  by (auto simp: dx_restrict_def abs_reader_def abs_got_def fun_eq_iff dest: not_live_upgrade)

lemma dx_restrict_phase [simp]: "dx_restrict alive (d\<lparr>dx_phase := ph\<rparr>) = (dx_restrict alive d)\<lparr>dx_phase := ph\<rparr>"
  by (simp add: dx_restrict_def cong: if_cong)

lemma once_ok_error:
  assumes "src w' = src w" and "lr_inv s1" and "lr_map s1 = lr_map s" and "lr_next s1 = lr_next s"
    and "live s1 = live s" and "abs_got taken s1 = abs_got taken s"
  shows "once_ok A taken src s w (error_return s1 k msg w' wk)"
  using assms by (auto simp: error_return_def ReaderMut_error_def lr_inv_def intro!: once_ok_fail)

section \<open>The payload\<close>

lemma read_finish_ok:
  assumes n: "n \<noteq> 0" and st: "lr_state s = Read a n" and inv: "lr_inv s"
    and s1: "heap_inv s1" "live s1 = live s"
    and abs1: "abs_reader taken s1 = dx_deliver (live s) a bs (abs_reader taken s)"
    and src: "src w' = src w @ bs" and len: "length bs \<le> unat n"
  shows "once_ok A taken src s w (read_finish s1 a n (length bs) w' wk)"
proof (cases "bs = []")
  case True
  then have same: "abs_reader taken s1 = abs_reader taken s" using abs1 by simp
  then have "lr_map s1 = lr_map s" "lr_next s1 = lr_next s" "abs_got taken s1 = abs_got taken s"
    "abs_phase (lr_state s1) = abs_phase (lr_state s)"
    by (simp_all add: abs_reader_def)
  with True src s1 show ?thesis
    by (auto simp: read_finish_def error_return_def ReaderMut_error_def lr_inv_def intro!: once_ok_fail)
next
  case False
  let ?n' = "n - of_nat (length bs)"
  have lt: "length bs < 2 ^ 16" using len unat_u16_bound [of n] by simp
  then have "(of_nat (length bs) :: u16) \<le> n" and on: "unat (of_nat (length bs) :: u16) = length bs"
    using len by (simp_all add: word_le_nat_alt unat_of_nat)
  then have n': "unat ?n' = unat n - length bs" by (simp add: unat_sub)
  let ?st = "if ?n' = 0 then next_packet else Read a ?n'"
  have z: "?n' = 0 \<longleftrightarrow> length bs = unat n"
    using n' len by (metis diff_is_0_eq le_antisym unat_eq_zero order_refl)
  have "read_finish s1 a n (length bs) w' wk = (Done (Ready (Inr ())), s1\<lparr>lr_state := ?st\<rparr>, w', wk)"
    using False lt len by (simp add: read_finish_def Let_def ReaderMut_next_packet_def ReaderMut_read_def)
  moreover have "once_ok A taken src s w (Done (Ready (Inr ())), s1\<lparr>lr_state := ?st\<rparr>, w', wk)"
  proof (rule once_okI [where bs = bs and u = w])
    show "lr_inv (s1\<lparr>lr_state := ?st\<rparr>)" using s1 by (simp add: lr_inv_def)
    have run: "dx_run (\<not> r_is_disconnected A w) (live s) bs (abs_reader taken s) =
        (dx_deliver (live s) a bs (abs_reader taken s))\<lparr>dx_phase := abs_phase ?st\<rparr>"
      using dx_run_body [of "abs_reader taken s" a "unat n" bs "\<not> r_is_disconnected A w" "live s"] False len st z n' by auto
    show "abs_reader taken (s1\<lparr>lr_state := ?st\<rparr>) =
        dx_restrict (live (s1\<lparr>lr_state := ?st\<rparr>)) (dx_run (\<not> r_is_disconnected A w) (live s) bs (abs_reader taken s))"
      by (subst run [folded abs1]) (simp add: abs_reader_state)
  qed (use src s1 in auto)
  ultimately show ?thesis by simp
qed

lemma scratch_fill:
  assumes laws: "reader_laws B A view src" and p: "r_poll_take A n cx (rb_uninit B Map.empty 65535) w = (r, b', w')"
  obtains bs where "src w' = src w @ bs" and "length bs \<le> n" and "length (rb_filled B b') = length bs"
    and "r \<noteq> Ready (Inr ()) \<longrightarrow> bs = []"
proof -
  note rb = reader_lawsD(1) [OF laws]
  have "rb_ok (view (rb_uninit B Map.empty 65535))"
    by (simp add: readbuf_lawsD(1) [OF rb] rb_ok_def)
  from fillsD [OF reader_lawsD(3) [OF laws] p this] obtain bs
    where "rb_grown (view (rb_uninit B Map.empty 65535)) bs (view b')" "src w' = src w @ bs"
      "within (Some n) (length bs)" "r \<noteq> Ready (Inr ()) \<longrightarrow> bs = []" .
  then show ?thesis
    by (intro that [of bs]) (auto simp: within_def rb_grown_def readbuf_lawsD(1,5) [OF rb])
qed

lemma once_ok_still:
  assumes "src w' = src w" and "lr_inv s'" and "abs_reader taken s' = abs_reader taken s" and "live s' = live s"
    and "steady A s s'"
  shows "once_ok A taken src s w (Done Pending, s', w', wk)"
proof (rule once_okI [where bs = "[]" and u = w])
  have "dx_restrict (live s) (abs_reader taken s) = abs_reader taken s" by (rule dx_restrict_same)
  then show "abs_reader taken s' = dx_restrict (live s') (dx_run (\<not> r_is_disconnected A w) (live s) [] (abs_reader taken s))"
    using assms by simp
qed (use assms in auto)

lemma poll_read_ok:
  assumes laws: "reader_laws B A view src" and inv: "lr_inv s" and st: "lr_state s = Read a n"
  shows "once_ok A taken src s w (ReaderMut_poll_read B A s cx w)"
proof (cases "\<exists>i e. lr_map s a = Some i \<and> upgrade s i = Some e")
  case False
  then have nobody: "(case lr_map s a of None \<Rightarrow> None | Some i \<Rightarrow> map_option (Pair i) (upgrade s i)) = None"
    by (auto split: option.split)
  obtain r b' w' where p: "r_poll_take A (unat n) cx (rb_uninit B Map.empty 65535) w = (r, b', w')"
    by (metis prod_cases3)
  obtain bs where bs: "src w' = src w @ bs" "length bs \<le> unat n" "length (rb_filled B b') = length bs"
    "r \<noteq> Ready (Inr ()) \<longrightarrow> bs = []"
    by (rule scratch_fill [OF laws p])
  have deliver: "abs_reader taken s = dx_deliver (live s) a bs (abs_reader taken s)"
    by (rule dx_deliver_nobody [symmetric]) (use False inv in \<open>auto simp: lr_inv_def\<close>)
  have "once_ok A taken src s w (read_finish s a n (length bs) w' [])"
    by (rule read_finish_ok [OF _ st inv _ _ deliver]) (use inv st bs in \<open>auto simp: lr_inv_def\<close>)
  with bs inv show ?thesis
    by (cases r rule: poll.exhaust [case_names pend ready]; (cases "the (case r of Ready x \<Rightarrow> Some x | _ \<Rightarrow> None)")?)
      (auto simp: ReaderMut_poll_read_def st nobody p intro!: once_ok_still once_ok_fail)
next
  case True
  then obtain i e where i: "lr_map s a = Some i" and e: "upgrade s i = Some e" by blast
  have eok: "rd_inv (re_buffer e)" "rd_capacity (re_buffer e) = DEFAULT_BUFFER_CAPACITY"
    using upgrade_ok [OF _ e] inv by (simp_all add: lr_inv_def entry_ok_def)
  obtain r q w' bs where f: "ReadBuffer_fill_buffer B (re_buffer e) cx (r_poll_take A (unat n)) w = (Done r, q, w')"
    and q: "rd_inv q" "rd_contents q = rd_contents (re_buffer e) @ bs" "rd_capacity q = rd_capacity (re_buffer e)"
    and src: "src w' = src w @ bs" and len: "within (Some (unat n)) (length bs)"
    and r: "case r of
           Ready (Inr (Some n)) \<Rightarrow> n = length bs
         | Ready (Inr None) \<Rightarrow> bs = [] \<and> q = re_buffer e \<and> w' = w \<and> rd_filled (re_buffer e) = rd_capacity (re_buffer e)
         | _ \<Rightarrow> bs = []"
    by (rule fill_buffer_spec [OF reader_lawsD(1) [OF laws] eok(1) reader_lawsD(3) [OF laws]])
  let ?e' = "e\<lparr>re_buffer := q\<rparr>"
  let ?s' = "put_entry s i ?e'"
  have ok': "entry_ok ?e'" using q eok by (simp add: entry_ok_def)
  have h': "heap_inv ?s'" using inv by (intro heap_inv_put_entry ok') (simp add: lr_inv_def)
  have inv': "lr_inv ?s'" using h' inv by (simp add: lr_inv_def)
  have abs': "abs_reader taken ?s' = dx_deliver (live s) a bs (abs_reader taken s)"
    by (rule dx_deliver_live [OF i e, symmetric]) (simp add: q)
  have fin: "once_ok A taken src s w (read_finish ?s' a n (length bs) w' wk)" for wk
    by (rule read_finish_ok [OF _ st inv h' _ abs']) (use src inv st len in \<open>auto simp: lr_inv_def within_def\<close>)
  have entry: "(case lr_map s a of None \<Rightarrow> None | Some i \<Rightarrow> map_option (Pair i) (upgrade s i)) = Some (i, e)"
    using i e by simp
  note poll = ReaderMut_poll_read_def st entry f not_sending(1) [OF st]
  consider (pend) "r = Pending" | (err) x where "r = Ready (Inl x)" | (full) "r = Ready (Inr None)"
    | (some_amt) amt where "r = Ready (Inr (Some amt))"
    by (metis poll.exhaust sum.exhaust option.exhaust)
  then show ?thesis
  proof cases
    case pend
    then show ?thesis using r src inv' abs' by (simp add: poll once_ok_still)
  next
    case err
    then have "abs_reader taken ?s' = abs_reader taken s" using r abs' by simp
    then have "abs_got taken ?s' = abs_got taken s" by (simp add: abs_reader_def)
    then show ?thesis using err r src inv' by (simp add: poll once_ok_fail)
  next
    case full
    let ?e2 = "?e'\<lparr>waiting_waker := cx\<rparr>"
    have "upgrade ?s' i = Some ?e'" using e by (simp add: upgrade_put_entry)
    then have "abs_reader taken (put_entry ?s' i ?e2) = abs_reader taken ?s'"
      by (rule abs_put_entry_same) simp
    moreover have "lr_inv (put_entry ?s' i ?e2)"
      using inv' heap_inv_put_entry [OF h', of ?e2 i] ok' by (simp add: lr_inv_def entry_ok_def)
    ultimately show ?thesis
      using full r src abs' by (simp add: poll once_ok_still)
  next
    case some_amt
    then show ?thesis using r fin by (simp add: poll)
  qed
qed

section \<open>Opening and closing connections\<close>

lemma drop_weak_simps [simp]:
  "lr_map (drop_weak s i) = lr_map s" "lr_next (drop_weak s i) = lr_next s"
  "lr_state (drop_weak s i) = lr_state s" "upgrade (drop_weak s i) = upgrade s"
  by (auto simp: drop_weak_def upgrade_def fun_eq_iff split: option.split)

lemma remove_ok:
  assumes inv: "heap_inv s" and i: "lr_map s a = Some i"
  obtains s' wk where "ReaderMut_remove s a = (Done (), s', wk)"
    and "heap_inv s'" and "lr_map s' = (lr_map s)(a := None)" and "lr_next s' = lr_next s"
    and "lr_state s' = lr_state s" and "upgrade s' = upgrade s" and "live s' = live s"
    and "wk = (case upgrade s i of None \<Rightarrow> [] | Some e \<Rightarrow> [reader_pipe_waker e])"
proof -
  let ?s1 = "s\<lparr>lr_map := (lr_map s)(a := None)\<rparr>"
  let ?s' = "drop_weak ?s1 i"
  from heap_invD(2) [OF inv i] obtain arc where arc: "lr_heap s i = Some arc" by blast
  have "i \<in> ran (lr_map s)" using i by (rule ranI)
  then have weak: "ae_weak arc = 1" using heap_invD(5) [OF inv arc] by simp
  have up: "upgrade ?s1 = upgrade s" by (simp add: upgrade_def fun_eq_iff)
  have ran: "j \<in> ran ((lr_map s)(a := None)) \<longleftrightarrow> j \<in> ran (lr_map s) \<and> j \<noteq> i" for j
  proof -
    have "j \<in> ran ((lr_map s)(a := None)) \<longleftrightarrow> (\<exists>b. b \<noteq> a \<and> lr_map s b = Some j)"
      by (auto simp: ran_def)
    also have "\<dots> \<longleftrightarrow> j \<in> ran (lr_map s) \<and> j \<noteq> i"
      unfolding ran_def mem_Collect_eq by (metis heap_invD(3) [OF inv i] i option.inject)
    finally show ?thesis .
  qed
  have h: "lr_heap ?s' = (lr_heap s)(i \<mapsto> arc\<lparr>ae_weak := 0\<rparr>)"
    using arc weak by (simp add: drop_weak_def)
  have "heap_inv ?s'"
    unfolding heap_inv_def h drop_weak_simps
    using heap_invD [OF inv] arc by (auto simp: ran split: if_splits)
  moreover have "ReaderMut_remove s a =
      (Done (), ?s', case upgrade s i of None \<Rightarrow> [] | Some e \<Rightarrow> [reader_pipe_waker e])"
    using i by (simp add: ReaderMut_remove_def up weak_count_def h split: option.split)
  ultimately show ?thesis
    using h arc by (intro that [of ?s']) (simp_all add: up live_def fun_eq_iff)
qed

lemma insert_ok:
  assumes laws: "reader_laws B A view src" and inv: "heap_inv s" and free: "lr_map s a = None"
    and eq: "ReaderMut_insert A s a cx w = (r, s', w')"
  shows "src w' = src w"
    and "r = Inl e \<Longrightarrow> s' = s \<and> kind e = OutOfMemory"
    and "r = Inr ri \<Longrightarrow> heap_inv s' \<and> ri_entry ri = lr_next s \<and> lr_state s' = lr_state s \<and>
      lr_map s' = (lr_map s)(a \<mapsto> lr_next s) \<and> lr_next s' = lr_next s + 1 \<and> live s' = live s \<and>
      (\<exists>x. upgrade s' = (upgrade s)(lr_next s \<mapsto> x) \<and> rd_contents (re_buffer x) = [] \<and> waiting_waker x = cx)"
proof -
  obtain r1 w1 where n: "ReadBuffer_new (r_alloc A) DEFAULT_BUFFER_CAPACITY w = (r1, w1)" by fastforce
  have s1: "src w1 = src w"
    using n reader_lawsD(7) [OF laws]
    by (auto simp: ReadBuffer_new_def split: if_splits prod.splits bool.splits)
  then show "src w' = src w"
    using eq free n by (auto simp: ReaderMut_insert_def Let_def split: sum.splits)
  show "s' = s \<and> kind e = OutOfMemory" if "r = Inl e"
    using that eq free n
    by (auto simp: ReaderMut_insert_def Let_def ReadBuffer_new_def split: sum.splits if_splits prod.splits bool.splits)
  show "heap_inv s' \<and> ri_entry ri = lr_next s \<and> lr_state s' = lr_state s \<and>
      lr_map s' = (lr_map s)(a \<mapsto> lr_next s) \<and> lr_next s' = lr_next s + 1 \<and> live s' = live s \<and>
      (\<exists>x. upgrade s' = (upgrade s)(lr_next s \<mapsto> x) \<and> rd_contents (re_buffer x) = [] \<and> waiting_waker x = cx)"
    if "r = Inr ri"
  proof -
    from that eq free n obtain b where b: "r1 = Inr b"
      by (auto simp: ReaderMut_insert_def split: sum.splits)
    let ?e = "\<lparr>reader_pipe_waker = Noop, waiting_waker = cx, re_buffer = b\<rparr>"
    have s': "s' = s\<lparr>lr_heap := (lr_heap s)(lr_next s \<mapsto> \<lparr>ae_strong = 1, ae_weak = 1, ae_entry = ?e\<rparr>),
        lr_next := lr_next s + 1, lr_map := (lr_map s)(a \<mapsto> lr_next s)\<rparr>" and ri: "ri_entry ri = lr_next s"
      using that eq free n b by (auto simp: ReaderMut_insert_def Let_def)
    note new = ReadBuffer_new_ok [OF n [unfolded b]]
    have e: "entry_ok ?e" using new by (simp add: entry_ok_def)
    have fresh: "lr_heap s (lr_next s) = None" using heap_invD(1) [OF inv] by simp
    then have unused: "lr_map s c \<noteq> Some (lr_next s)" for c
      using heap_invD(2) [OF inv, of c "lr_next s"] by auto
    have ran: "ran ((lr_map s)(a \<mapsto> lr_next s)) = insert (lr_next s) (ran (lr_map s))"
      using free by (rule ran_map_upd)
    have "lr_next s \<notin> ran (lr_map s)" using unused by (auto simp: ran_def)
    then have "heap_inv s'"
      unfolding heap_inv_def s' using heap_invD [OF inv] e unused
      by (auto simp: ran split: if_splits)
    moreover have "upgrade s' = (upgrade s)(lr_next s \<mapsto> ?e)"
      by (auto simp: s' upgrade_def fun_eq_iff)
    moreover have "live s' = live s"
      using fresh by (auto simp: s' live_def fun_eq_iff)
    ultimately show ?thesis
      using ri new s' by auto
  qed
qed

section \<open>The header\<close>

text \<open>\<open>taken\<close> speaks of connections that exist.\<close>

definition taken_ok :: "(nat \<Rightarrow> byte list) \<Rightarrow> 'f locked_reader \<Rightarrow> bool" where
  "taken_ok taken s \<longleftrightarrow> (\<forall>i. lr_next s \<le> i \<longrightarrow> taken i = [])"

definition header_ok ::
  "('w, 'b, 'f) reader_api \<Rightarrow> (nat \<Rightarrow> byte list) \<Rightarrow> ('w \<Rightarrow> byte list) \<Rightarrow> mux_frame_header \<Rightarrow> 'f locked_reader \<Rightarrow> 'w \<Rightarrow>
     unit io_result poll run \<times> 'f locked_reader \<times> 'w \<times> waker list \<Rightarrow> bool" where
  "header_ok A taken src hdr s w res \<longleftrightarrow>
     (case res of (r, s', w', wk) \<Rightarrow> src w' = src w \<and> lr_inv s' \<and> live s' = live s \<and>
        (sending s' \<longrightarrow> sending s \<or> (\<exists>u. \<not> r_is_disconnected A u)) \<and>
        (r = Done (Ready (Inr ())) \<and> (\<exists>u.
           abs_reader taken s' = dx_restrict (live s') (dx_dispatch (\<not> r_is_disconnected A u) hdr (abs_reader taken s))) \<or>
         (\<exists>e. r = Done (Ready (Inl e)) \<and> s' = s \<and> kind e = OutOfMemory)))"

lemma header_okI:
  assumes "src w' = src w" and "heap_inv s'" and "state_inv (lr_state s')" and "live s' = live s"
    and "sending s' \<longrightarrow> sending s \<or> (\<exists>u. \<not> r_is_disconnected A u)"
    and "abs_reader taken s' = dx_restrict (live s') (dx_dispatch (\<not> r_is_disconnected A u) hdr (abs_reader taken s))"
  shows "header_ok A taken src hdr s w (Done (Ready (Inr ())), s', w', wk)"
  using assms unfolding header_ok_def lr_inv_def by auto

lemma abs_insert:
  assumes "upgrade s' = (upgrade s)(lr_next s \<mapsto> x)" and "rd_contents (re_buffer x) = []"
    and "lr_map s' = (lr_map s)(a \<mapsto> lr_next s)" and "lr_next s' = lr_next s + 1"
    and "taken_ok taken s"
  shows "abs_reader taken (s'\<lparr>lr_state := st\<rparr>) =
    dx_restrict (live s') ((abs_reader taken s)\<lparr>dx_open := (lr_map s)(a \<mapsto> lr_next s), dx_next := lr_next s + 1,
      dx_phase := abs_phase st, dx_got := (abs_got taken s)(lr_next s := [])\<rparr>)"
proof -
  have "abs_reader taken (s'\<lparr>lr_state := st\<rparr>) =
    (abs_reader taken s)\<lparr>dx_open := (lr_map s)(a \<mapsto> lr_next s), dx_next := lr_next s + 1,
      dx_phase := abs_phase st, dx_got := (abs_got taken s)(lr_next s := [])\<rparr>"
    using assms by (auto simp: abs_reader_def abs_got_def taken_ok_def fun_eq_iff)
  then show ?thesis using dx_restrict_same [of "s'\<lparr>lr_state := st\<rparr>" taken] by simp
qed

lemma packet_header_ok:
  assumes laws: "reader_laws B A view src" and inv: "lr_inv s" and taken: "taken_ok taken s"
  shows "header_ok A taken src hdr s w (packet_header A s hdr cx w)"
proof -
  let ?a = "MuxFrameHeader_addr hdr" and ?n = "MuxFrameHeader_len hdr"
  have h: "heap_inv s" using inv by (simp add: lr_inv_def)
  note disp = dx_dispatch_def Let_def unat_eq_zero
  consider (data) "?n \<noteq> 0" | (close) i where "?n = 0" "lr_map s ?a = Some i"
    | (ignore) "?n = 0" "lr_map s ?a = None" "r_is_disconnected A w"
    | (opens) "?n = 0" "lr_map s ?a = None" "\<not> r_is_disconnected A w"
    by blast
  then show ?thesis
  proof cases
    case data
    then have "packet_header A s hdr cx w = (Done (Ready (Inr ())), s\<lparr>lr_state := Read ?a ?n\<rparr>, w, [])"
      by (simp add: packet_header_def Let_def ReaderMut_read_def)
    moreover have "header_ok A taken src hdr s w (Done (Ready (Inr ())), s\<lparr>lr_state := Read ?a ?n\<rparr>, w, [])"
      by (rule header_okI [where u = w]) (use data h in \<open>simp_all add: disp abs_reader_state\<close>)
    ultimately show ?thesis by simp
  next
    case close
    obtain s1 wk where s1: "ReaderMut_remove s ?a = (Done (), s1, wk)" "heap_inv s1"
      "lr_map s1 = (lr_map s)(?a := None)" "lr_next s1 = lr_next s" "upgrade s1 = upgrade s" "live s1 = live s"
      by (rule remove_ok [OF h close(2)])
    let ?s' = "s1\<lparr>lr_state := next_packet\<rparr>"
    have got: "abs_got taken s1 = abs_got taken s"
      using s1(5) by (simp add: abs_got_def fun_eq_iff)
    have "abs_reader taken ?s' = dx_dispatch (\<not> r_is_disconnected A w) hdr (abs_reader taken s)"
      using close s1 got by (simp add: disp abs_reader_def)
    then have "abs_reader taken ?s' = dx_restrict (live ?s') (dx_dispatch (\<not> r_is_disconnected A w) hdr (abs_reader taken s))"
      using dx_restrict_same [of ?s' taken] by simp
    then have "header_ok A taken src hdr s w (Done (Ready (Inr ())), ?s', w, wk)"
      by (intro header_okI [where u = w]) (use s1 in simp_all)
    then show ?thesis
      using close s1(1) by (simp add: packet_header_def Let_def ReaderMut_next_packet_def)
  next
    case ignore
    have "header_ok A taken src hdr s w (Done (Ready (Inr ())), s\<lparr>lr_state := next_packet\<rparr>, w, [])"
      by (rule header_okI [where u = w]) (use ignore h in \<open>simp_all add: disp abs_reader_state\<close>)
    then show ?thesis
      using ignore by (simp add: packet_header_def Let_def ReaderMut_next_packet_def)
  next
    case opens
    obtain r s1 w1 where ins: "ReaderMut_insert A s ?a cx w = (r, s1, w1)" by (metis prod_cases3)
    note i = insert_ok [OF laws h opens(2) ins]
    show ?thesis
    proof (cases r)
      case (Inl e)
      with i(1,2) ins opens inv show ?thesis
        by (auto simp: packet_header_def Let_def header_ok_def)
    next
      case (Inr ri)
      obtain f w2 where sent: "r_send_async A (?a, ri) w1 = (f, w2)" by fastforce
      have src: "src w2 = src w" using i(1) reader_lawsD(4) [OF laws sent] by simp
      from i(3) [OF Inr] obtain x where s1: "heap_inv s1" "lr_map s1 = (lr_map s)(?a \<mapsto> lr_next s)"
        "lr_next s1 = lr_next s + 1" "live s1 = live s" "upgrade s1 = (upgrade s)(lr_next s \<mapsto> x)" "rd_contents (re_buffer x) = []"
        by blast
      have "\<exists>u. \<not> r_is_disconnected A u" using opens(3) by blast
      then have "header_ok A taken src hdr s w (Done (Ready (Inr ())), s1\<lparr>lr_state := SendSocket f\<rparr>, w2, [])"
        by (intro header_okI [where u = w])
          (use src s1 opens abs_insert [OF s1(5,6,2,3) taken, of "SendSocket f"] in \<open>simp_all add: disp\<close>)
      then show ?thesis
        using opens ins Inr sent by (simp add: packet_header_def Let_def)
    qed
  qed
qed

text \<open>The header memory after a read behind its first \<open>k\<close> bytes.\<close>

lemma overlay_read:
  assumes "mem_read h 0 k = Some xs" and "mem_read m 0 n = Some ys"
  shows "mem_read (\<lambda>i. if i < k then h i else m (i - k)) 0 (k + n) = Some (xs @ ys)"
  using assms by (auto simp: mem_read_Some_iff nth_append)

lemma overlay_prefix:
  "mem_read h 0 k = Some xs \<Longrightarrow> mem_read (\<lambda>i. if i < k then h i else m (i - k)) 0 k = Some xs"
  using overlay_read [of h k xs m 0 "[]"] by simp

lemma header_fill:
  assumes laws: "reader_laws B A view src" and k: "k \<le> MuxFrameHeader_size"
    and p: "r_poll_read A cx (rb_uninit B m (MuxFrameHeader_size - k)) w = (r, b', w')"
  obtains bs where "src w' = src w @ bs" and "k + length bs \<le> MuxFrameHeader_size"
    and "length (rb_filled B b') = length bs" and "mem_read (rb_mem B b') 0 (length bs) = Some bs"
    and "r \<noteq> Ready (Inr ()) \<longrightarrow> bs = []"
proof -
  note rb = reader_lawsD(1) [OF laws]
  let ?b = "rb_uninit B m (MuxFrameHeader_size - k)"
  have v: "view ?b = \<lparr>v_mem = m, v_cap = MuxFrameHeader_size - k, v_filled = 0, v_init = 0\<rparr>"
    by (rule readbuf_lawsD(1) [OF rb])
  then have "rb_ok (view ?b)" by (simp add: rb_ok_def)
  from fillsD [OF reader_lawsD(2) [OF laws] p this] obtain bs
    where g: "rb_grown (view ?b) bs (view b')" and bs: "src w' = src w @ bs" "r \<noteq> Ready (Inr ()) \<longrightarrow> bs = []"
    by metis
  have b': "rb_ok (view b')" "v_filled (view b') = length bs" "rb_contents (view b') = bs"
    "v_cap (view b') = MuxFrameHeader_size - k"
    using g by (auto simp: rb_grown_def v rb_contents_def)
  have "mem_read (v_mem (view b')) 0 (length bs) = Some bs"
    using rb_ok_read [OF b'(1)] b' by simp
  moreover have "length bs \<le> MuxFrameHeader_size - k"
    using b' by (simp add: rb_ok_def)
  ultimately show ?thesis
    using bs b' k by (intro that [of bs]) (simp_all add: readbuf_lawsD(5,10) [OF rb])
qed

lemma header_once_ok:
  assumes "header_ok A taken src (MuxFrameHeader_of_bytes (xs @ bs)) s1 w1 res"
    and s1: "abs_reader taken s1 = abs_reader taken s" "live s1 = live s"
    and "dx_phase (abs_reader taken s) = InHeader xs" and "length xs + length bs = MuxFrameHeader_size" and "bs \<noteq> []"
    and "src w1 = src w @ bs" and "\<not> sending s1"
  shows "once_ok A taken src s w res"
proof -
  have run: "dx_run L (live s) bs (abs_reader taken s) =
      dx_dispatch L (MuxFrameHeader_of_bytes (xs @ bs)) (abs_reader taken s)" for L
    using dx_run_dispatch [OF assms(4-6)] by simp
  obtain r s' w' wk where res: "res = (r, s', w', wk)" by (metis prod_cases4)
  have same: "lr_map s1 = lr_map s" "lr_next s1 = lr_next s" "abs_got taken s1 = abs_got taken s"
    using s1(1) by (simp_all add: abs_reader_def)
  have "src w' = src w @ bs" and "lr_inv s'" and "steady A s s'"
    using assms(1,7) res s1(2) assms(8) by (auto simp: header_ok_def steady_def)
  moreover have "r = Done (Ready (Inr ())) \<and> (\<exists>u.
        abs_reader taken s' = dx_restrict (live s') (dx_dispatch (\<not> r_is_disconnected A u) (MuxFrameHeader_of_bytes (xs @ bs)) (abs_reader taken s))) \<or>
      (\<exists>e. r = Done (Ready (Inl e)) \<and> s' = s1 \<and> kind e = OutOfMemory)"
    using assms(1) unfolding res header_ok_def s1(1) prod.case by blast
  ultimately show ?thesis
    unfolding once_ok_def res using run same by auto
qed

lemma poll_next_packet_ok:
  assumes laws: "reader_laws B A view src" and inv: "lr_inv s" and taken: "taken_ok taken s"
    and st: "lr_state s = NextPacket h k"
  shows "once_ok A taken src s w (ReaderMut_poll_next_packet B A s cx w)"
proof -
  let ?k = "unat k"
  from inv st obtain xs where k: "?k < MuxFrameHeader_size" and xs: "mem_read h 0 ?k = Some xs" and heap: "heap_inv s"
    by (auto simp: lr_inv_def)
  have len: "length xs = ?k" using xs by auto
  let ?b = "rb_uninit B (\<lambda>i. h (?k + i)) (MuxFrameHeader_size - ?k)"
  obtain r b' w' where p: "r_poll_read A cx ?b w = (r, b', w')" by (metis prod_cases3)
  obtain bs where bs: "src w' = src w @ bs" "?k + length bs \<le> MuxFrameHeader_size"
    "length (rb_filled B b') = length bs" "mem_read (rb_mem B b') 0 (length bs) = Some bs"
    "r \<noteq> Ready (Inr ()) \<longrightarrow> bs = []"
    by (rule header_fill [OF laws less_imp_le [OF k] p])
  define h' where "h' = (\<lambda>i. if i < ?k then h i else rb_mem B b' (i - ?k))"
  have read': "mem_read h' 0 ?k = Some xs" "mem_read h' 0 (?k + length bs) = Some (xs @ bs)"
    unfolding h'_def by (rule overlay_prefix [OF xs], rule overlay_read [OF xs bs(4)])
  let ?s1 = "s\<lparr>lr_state := NextPacket h' k\<rparr>"
  have inv1: "lr_inv ?s1" using heap k read' by (simp add: lr_inv_def)
  have abs1: "abs_reader taken ?s1 = abs_reader taken s"
    using read' xs st by (simp add: abs_reader_def)
  have empty: "rb_filled B b' = [] \<longleftrightarrow> bs = []" using bs(3) by (metis length_0_conv)
  note poll = ReaderMut_poll_next_packet_def st p h'_def [symmetric] bs(3) empty Let_def
  consider (pend) "r = Pending" | (err) e where "r = Ready (Inl e)" | (eof) "r = Ready (Inr ())" "bs = []"
    | (some_bytes) "r = Ready (Inr ())" "bs \<noteq> []"
    by (metis poll.exhaust sum.exhaust unit.exhaust)
  then show ?thesis
  proof cases
    case pend
    then show ?thesis using k bs inv1 abs1 by (simp add: poll once_ok_still)
  next
    case err
    then show ?thesis using k bs inv1 by (simp add: poll once_ok_fail)
  next
    case eof
    then show ?thesis using k bs inv1 by (simp add: poll once_ok_error)
  next
    case some_bytes
    let ?x = "of_nat (length bs) :: u8"
    have x: "unat ?x = length bs" using bs(2) by (simp add: unat_of_nat)
    have sum: "unat (k + ?x) = ?k + length bs" using bs(2) x by (simp add: unat_word_ariths)
    show ?thesis
    proof (cases "?k + length bs = MuxFrameHeader_size")
      case True
      then have c: "cmp_word (k + ?x) 20 = Equal" using sum by (simp add: word_unat_eq_iff)
      have "ReaderMut_poll_next_packet B A s cx w = packet_header A ?s1 (MuxFrameHeader_of_bytes (xs @ bs)) cx w'"
        using some_bytes k x read' True c by (simp add: poll)
      moreover have "header_ok A taken src (MuxFrameHeader_of_bytes (xs @ bs)) ?s1 w'
          (packet_header A ?s1 (MuxFrameHeader_of_bytes (xs @ bs)) cx w')"
        by (rule packet_header_ok [OF laws inv1]) (use taken in \<open>simp add: taken_ok_def\<close>)
      then have "once_ok A taken src s w (packet_header A ?s1 (MuxFrameHeader_of_bytes (xs @ bs)) cx w')"
        by (rule header_once_ok) (use abs1 xs st True len some_bytes bs in simp_all)
      ultimately show ?thesis by simp
    next
      case False
      with bs(2) have lt: "?k + length bs < MuxFrameHeader_size" by simp
      then have c: "cmp_word (k + ?x) 20 = Less" using sum by (simp add: word_less_nat_alt)
      let ?s2 = "s\<lparr>lr_state := NextPacket h' (k + ?x)\<rparr>"
      have "ReaderMut_poll_next_packet B A s cx w = (Done Pending, ?s2, w', [])"
        using some_bytes k x lt c by (simp add: poll cmp_word_def)
      moreover have "once_ok A taken src s w (Done Pending, ?s2, w', [])"
      proof (rule once_okI [where bs = bs and u = w])
        show "lr_inv ?s2" using heap lt sum read' by (simp add: lr_inv_def)
        have "dx_run (\<not> r_is_disconnected A w) (live s) bs (abs_reader taken s) = (abs_reader taken s)\<lparr>dx_phase := InHeader (xs @ bs)\<rparr>"
          by (rule dx_run_header) (use st xs lt len in simp_all)
        then show "abs_reader taken ?s2 = dx_restrict (live ?s2) (dx_run (\<not> r_is_disconnected A w) (live s) bs (abs_reader taken s))"
          using sum read' by (simp add: abs_reader_state)
      qed (use bs in simp_all)
      ultimately show ?thesis by simp
    qed
  qed
qed

section \<open>Polling\<close>

lemma ReaderInner_drop_ok:
  assumes "heap_inv s"
  shows "heap_inv (ReaderInner_drop s ri)"
    and "abs_reader taken (ReaderInner_drop s ri) = dx_restrict (live (ReaderInner_drop s ri)) (abs_reader taken s)"
proof -
  show "heap_inv (ReaderInner_drop s ri)"
    using assms unfolding ReaderInner_drop_def
    by (cases "lr_heap s (ri_entry ri)") (auto simp: heap_inv_def)
  have "abs_got taken (ReaderInner_drop s ri) =
      (\<lambda>i. if live (ReaderInner_drop s ri) i then abs_got taken s i else [])"
    by (auto simp: abs_got_def live_def ReaderInner_drop_def upgrade_def fun_eq_iff split: option.splits)
  then show "abs_reader taken (ReaderInner_drop s ri) = dx_restrict (live (ReaderInner_drop s ri)) (abs_reader taken s)"
    by (simp add: abs_reader_def dx_restrict_def ReaderInner_drop_def cong: if_cong split: option.split)
qed

lemma poll_once_ok:
  assumes laws: "reader_laws B A view src" and inv: "lr_inv s" and taken: "taken_ok taken s"
  shows "once_ok A taken src s w (ReaderMut_poll_once B A s cx w)"
proof (cases "lr_state s")
  case (Read a n)
  then show ?thesis using poll_read_ok [OF laws inv] by (simp add: ReaderMut_poll_once_def)
next
  case (NextPacket h k)
  then show ?thesis using poll_next_packet_ok [OF laws inv taken] by (simp add: ReaderMut_poll_once_def)
next
  case ReadError
  then show ?thesis using inv by (simp add: ReaderMut_poll_once_def once_ok_fail)
next
  case (SendSocket f)
  have heap: "heap_inv s" using inv by (simp add: lr_inv_def)
  obtain r f' w' where p: "r_poll_send A f cx w = (r, f', w')" by (metis prod_cases3)
  have src: "src w' = src w" by (rule reader_lawsD(5) [OF laws p])
  have phase: "abs_phase (lr_state s) = InHeader []" using SendSocket by simp
  consider (pend) "r = Pending" | (gone) ri where "r = Ready (Inl ri)" | (sent) "r = Ready (Inr ())"
  proof (cases r)
    case (Ready x)
    then show thesis using that by (cases x) simp_all
  qed (rule that)
  then show ?thesis
  proof cases
    case pend
    then have "ReaderMut_poll_once B A s cx w = (Done Pending, s\<lparr>lr_state := SendSocket f'\<rparr>, w', [])"
      by (simp add: ReaderMut_poll_once_def SendSocket p)
    then show ?thesis
      using src heap phase SendSocket
      by (simp add: once_ok_still lr_inv_def abs_reader_def steady_def sending_def)
  next
    case gone
    let ?s' = "(ReaderInner_drop s ri)\<lparr>lr_state := next_packet\<rparr>"
    have "fst (r_poll_send A f cx w) = Ready (Inl ri)" using p gone by simp
    then have "\<not> listener_stays A" unfolding listener_stays_def by blast
    moreover have "sending s" using SendSocket by (simp add: sending_def)
    ultimately have gone': "steady A s ?s'" by (simp add: steady_def)
    have st: "lr_state (ReaderInner_drop s ri) = lr_state s" by (simp add: ReaderInner_drop_def split: option.split)
    have "once_ok A taken src s w (Done (Ready (Inr ())), ?s', w', [])"
    proof (rule once_okI [where bs = "[]" and u = w])
      have "abs_reader taken ?s' = abs_reader taken (ReaderInner_drop s ri)"
        using st phase by (simp add: abs_reader_def)
      then show "abs_reader taken ?s' = dx_restrict (live ?s') (dx_run (\<not> r_is_disconnected A w) (live s) [] (abs_reader taken s))"
        using ReaderInner_drop_ok(2) [OF heap] by simp
    qed (use src gone' ReaderInner_drop_ok(1) [OF heap] in \<open>simp_all add: lr_inv_def\<close>)
    then show ?thesis
      using gone by (simp add: ReaderMut_poll_once_def SendSocket p ReaderMut_next_packet_def)
  next
    case sent
    let ?s' = "s\<lparr>lr_state := next_packet\<rparr>"
    have "abs_reader taken ?s' = abs_reader taken s" using phase by (simp add: abs_reader_def)
    then have "once_ok A taken src s w (Done (Ready (Inr ())), ?s', w', [])"
      by (intro once_okI [where bs = "[]" and u = w]) (use src heap in \<open>simp_all add: lr_inv_def\<close>)
    then show ?thesis
      using sent by (simp add: ReaderMut_poll_once_def SendSocket p ReaderMut_next_packet_def)
  qed
qed

end
