(* ===== verification/Read_Poll.thy ===== *)
theory Read_Poll
  imports Read_Refine
begin

text \<open>
  The loop that drives the shared reader, and the read of one connection. The loop returns because
  the cooperative budget of the runtime runs out; over the whole loop the reader is still the
  automaton of \<open>Demux\<close>.
\<close>

section \<open>Steps with and without a listener\<close>

text \<open>A stream whose listener stays (\<open>True\<close>), and one that never had one (\<open>False\<close>, a \<open>MuxPipe\<close>).\<close>

definition listening :: "('w, 'b, 'f) reader_api \<Rightarrow> bool \<Rightarrow> 'f locked_reader \<Rightarrow> bool" where
  "listening A L s \<longleftrightarrow>
     (if L then listener_stays A else (\<forall>w. r_is_disconnected A w) \<and> \<not> sending s)"

lemma dx_restrict_iff: "dx_restrict alive d = d \<longleftrightarrow> (\<forall>i. \<not> alive i \<longrightarrow> dx_got d i = [])"
  by (cases d) (auto simp: dx_restrict_def fun_eq_iff)

lemma dx_restrict_feed:
  "dx_restrict alive d = d \<Longrightarrow> dx_restrict alive (dx_feed L alive x d) = dx_feed L alive x d"
  unfolding dx_restrict_iff
  by (auto simp: dx_feed_def dx_deliver_def dx_dispatch_def Let_def split: dx_phase.split option.split)

lemma dx_restrict_run:
  "dx_restrict alive d = d \<Longrightarrow> dx_restrict alive (dx_run L alive bs d) = dx_run L alive bs d"
  by (induction bs arbitrary: d) (simp_all add: dx_restrict_feed)

lemma dx_next_run: "dx_next d \<le> dx_next (dx_run L alive bs d)"
proof (induction bs arbitrary: d)
  case (Cons x bs)
  show ?case using dx_next_feed [of d L alive x] Cons.IH [of "dx_feed L alive x d"] by simp
qed simp

lemma poll_once_step:
  assumes laws: "reader_laws B A view src" and inv: "lr_inv s" and taken: "taken_ok taken s"
    and L: "listening A L s"
  obtains q s' w' wk bs where "ReaderMut_poll_once B A s cx w = (Done q, s', w', wk)"
    and "src w' = src w @ bs" and "lr_inv s'" and "live s' = live s" and "listening A L s'" and "taken_ok taken s'"
    and "case q of
           Ready (Inl e) \<Rightarrow> lr_map s' = lr_map s \<and> lr_next s' = lr_next s \<and> abs_got taken s' = abs_got taken s \<and>
             (bs = [] \<or> kind e = OutOfMemory)
         | _ \<Rightarrow> abs_reader taken s' = dx_run L (live s) bs (abs_reader taken s)"
proof -
  obtain q s' w' wk bs where once: "ReaderMut_poll_once B A s cx w = (Done q, s', w', wk)"
    "src w' = src w @ bs" "lr_inv s'" "steady A s s'"
    and post: "case q of
           Ready (Inl e) \<Rightarrow> lr_map s' = lr_map s \<and> lr_next s' = lr_next s \<and> abs_got taken s' = abs_got taken s \<and>
             (bs = [] \<or> kind e = OutOfMemory)
         | _ \<Rightarrow> \<exists>u. abs_reader taken s' =
             dx_restrict (live s') (dx_run (\<not> r_is_disconnected A u) (live s) bs (abs_reader taken s))"
    using poll_once_ok [OF laws inv taken, of w cx]
    by (cases "ReaderMut_poll_once B A s cx w") (auto simp: once_ok_def)
  have lv: "live s' = live s"
    using L once(4) by (auto simp: listening_def steady_def split: if_splits)
  have disc: "(\<not> r_is_disconnected A u) = L" for u
    using L by (auto simp: listening_def listener_stays_def split: if_splits)
  have run: "abs_reader taken s' = dx_run L (live s) bs (abs_reader taken s)" if "\<nexists>e. q = Ready (Inl e)"
    using that post lv by (auto simp: disc dx_restrict_run split: poll.splits sum.splits)
  have "lr_next s \<le> lr_next s'"
  proof (cases "\<exists>e. q = Ready (Inl e)")
    case True
    with post show ?thesis by auto
  next
    case False
    then show ?thesis
      using arg_cong [OF run, of dx_next] dx_next_run [of "abs_reader taken s" L "live s" bs] by simp
  qed
  then have "taken_ok taken s'" using taken by (auto simp: taken_ok_def)
  moreover have "listening A L s'"
    using L once(4) by (auto simp: listening_def steady_def split: if_splits)
  ultimately show ?thesis
    using once lv post run by (intro that [of q s' w' wk bs]) (auto split: poll.split sum.split)
qed

section \<open>The loop\<close>

text \<open>
  The budget of the runtime: \<open>consume_budget\<close> is ready only while some is left, and nothing within a
  poll gives any back.
\<close>

definition budget_laws :: "('w, 'b, 'f) reader_api \<Rightarrow> ('w \<Rightarrow> nat) \<Rightarrow> bool" where
  "budget_laws A fuel \<longleftrightarrow>
     (\<forall>cx w w'. r_consume_budget A cx w = (Ready (), w') \<longrightarrow> fuel w' < fuel w) \<and>
     (\<forall>cx b w. fuel (snd (snd (r_poll_read A cx b w))) \<le> fuel w) \<and>
     (\<forall>n cx b w. fuel (snd (snd (r_poll_take A n cx b w))) \<le> fuel w) \<and>
     (\<forall>m w. fuel (snd (r_send_async A m w)) \<le> fuel w) \<and>
     (\<forall>f cx w. fuel (snd (snd (r_poll_send A f cx w))) \<le> fuel w) \<and>
     (\<forall>n w. fuel (snd (r_alloc A n w)) \<le> fuel w)"

lemma budget_lawsD:
  assumes "budget_laws A fuel"
  shows "r_consume_budget A cx w = (Ready (), w') \<Longrightarrow> fuel w' < fuel w"
    and "r_poll_read A cx b w = (r, b', w') \<Longrightarrow> fuel w' \<le> fuel w"
    and "r_poll_take A n cx b w = (r, b', w') \<Longrightarrow> fuel w' \<le> fuel w"
    and "r_send_async A m w = (f', w') \<Longrightarrow> fuel w' \<le> fuel w"
    and "r_poll_send A f cx w = (q, f', w') \<Longrightarrow> fuel w' \<le> fuel w"
    and "r_alloc A n w = (ok, w') \<Longrightarrow> fuel w' \<le> fuel w"
  using assms unfolding budget_laws_def by (metis snd_conv)+

text \<open>The world a step leaves.\<close>

abbreviation world :: "'r \<times> 's \<times> 'w \<times> 'v \<Rightarrow> 'w" where
  "world res \<equiv> fst (snd (snd res))"

lemma fill_buffer_fuel:
  assumes "\<And>b. fuel (snd (snd (reader cx b w))) \<le> fuel w"
  shows "fuel (snd (snd (ReadBuffer_fill_buffer B q cx reader w))) \<le> (fuel w :: nat)"
proof (cases "ReadBuffer_readbuf B q")
  case (Done b)
  obtain r b' w' where p: "reader cx b w = (r, b', w')" by (metis prod_cases3)
  then have "fuel w' \<le> fuel w" using assms [of b] by simp
  then show ?thesis
    by (simp add: ReadBuffer_fill_buffer_def Done p Let_def split: poll.split sum.split)
qed (simp_all add: ReadBuffer_fill_buffer_def)

lemma error_return_world [simp]: "world (error_return s k msg w wk) = w"
  by (simp add: error_return_def ReaderMut_error_def)

lemma read_finish_world [simp]: "world (read_finish s a n k w wk) = w"
  by (simp add: read_finish_def Let_def)

lemma insert_fuel:
  assumes "budget_laws A fuel"
  shows "fuel (snd (snd (ReaderMut_insert A s a cx w))) \<le> fuel w"
proof -
  obtain r w1 where n: "ReadBuffer_new (r_alloc A) DEFAULT_BUFFER_CAPACITY w = (r, w1)" by fastforce
  then have "fuel w1 \<le> fuel w"
    using budget_lawsD(6) [OF assms]
    by (auto simp: ReadBuffer_new_def split: prod.splits bool.splits if_splits)
  then show ?thesis
    by (simp add: ReaderMut_insert_def n Let_def split: option.split sum.split)
qed

lemma packet_header_fuel:
  assumes "budget_laws A fuel"
  shows "fuel (world (packet_header A s hdr cx w)) \<le> fuel w"
proof -
  let ?a = "MuxFrameHeader_addr hdr"
  obtain r s1 w1 where i: "ReaderMut_insert A s ?a cx w = (r, s1, w1)" by (metis prod_cases3)
  then have w1: "fuel w1 \<le> fuel w" using insert_fuel [OF assms, of s ?a cx w] by simp
  have "fuel w2 \<le> fuel w" if "r_send_async A m w1 = (f, w2)" for m f w2
    using budget_lawsD(4) [OF assms that] w1 by simp
  with w1 i show ?thesis
    by (auto simp: packet_header_def Let_def split: prod.split run.split sum.split)
qed

lemma poll_once_fuel:
  assumes laws: "budget_laws A fuel"
  shows "fuel (world (ReaderMut_poll_once B A s cx w)) \<le> fuel w"
proof (cases "lr_state s")
  case (Read a n)
  let ?entry = "case lr_map s a of None \<Rightarrow> None | Some i \<Rightarrow> map_option (Pair i) (upgrade s i)"
  have take: "fuel (snd (snd (r_poll_take A (unat n) cx b w))) \<le> fuel w" for b
    using laws by (simp add: budget_laws_def)
  show ?thesis
  proof (cases ?entry)
    case None
    obtain x b' w1 where p: "r_poll_take A (unat n) cx (rb_uninit B Map.empty 65535) w = (x, b', w1)"
      by (metis prod_cases3)
    then have "fuel w1 \<le> fuel w" using take [of "rb_uninit B Map.empty 65535"] by simp
    then show ?thesis
      by (simp add: ReaderMut_poll_once_def ReaderMut_poll_read_def Read None p Let_def split: poll.split sum.split)
  next
    case (Some ie)
    obtain i e where ie: "ie = (i, e)" by fastforce
    obtain x b' w1 where p: "ReadBuffer_fill_buffer B (re_buffer e) cx (r_poll_take A (unat n)) w = (x, b', w1)"
      by (metis prod_cases3)
    then have "fuel w1 \<le> fuel w"
      using fill_buffer_fuel [of fuel "r_poll_take A (unat n)" cx w B "re_buffer e", OF take] by simp
    then show ?thesis
      by (simp add: ReaderMut_poll_once_def ReaderMut_poll_read_def Read Some ie p Let_def
          split: poll.split sum.split run.split option.split)
  qed
next
  case (NextPacket h k)
  obtain x b' w1 where p: "r_poll_read A cx (rb_uninit B (\<lambda>i. h (unat k + i)) (20 - unat k)) w = (x, b', w1)"
    by (metis prod_cases3)
  have w1: "fuel w1 \<le> fuel w" by (rule budget_lawsD(2) [OF laws p])
  have "fuel (world (packet_header A s1 hdr cx w1)) \<le> fuel w" for s1 hdr
    using packet_header_fuel [OF laws, of s1 hdr cx w1] w1 by simp
  with w1 show ?thesis
    by (simp add: ReaderMut_poll_once_def ReaderMut_poll_next_packet_def NextPacket p Let_def
        split: poll.split sum.split ordering.split option.split)
next
  case (SendSocket f)
  obtain x f' w1 where p: "r_poll_send A f cx w = (x, f', w1)" by (metis prod_cases3)
  then show ?thesis
    using budget_lawsD(5) [OF laws p]
    by (simp add: ReaderMut_poll_once_def SendSocket split: poll.split sum.split)
next
  case ReadError
  then show ?thesis by (simp add: ReaderMut_poll_once_def)
qed

text \<open>How the loop goes on and ends.\<close>

lemma reader_poll_continue:
  "ReaderMut_poll_once B A s cx w = (Done (Ready (Inr ())), s1, w1, wk) \<Longrightarrow>
   r_consume_budget A cx w1 = (Ready (), w2) \<Longrightarrow>
   ReaderMut_poll B A s cx w woken = ReaderMut_poll B A s1 cx w2 (woken @ wk)"
  by (subst ReaderMut_poll.simps) simp

lemma reader_poll_stop:
  "ReaderMut_poll_once B A s cx w = (Done Pending, s1, w1, wk) \<Longrightarrow>
   ReaderMut_poll B A s cx w woken = Some (Done Pending, s1, w1, woken @ wk)"
  "ReaderMut_poll_once B A s cx w = (Done (Ready (Inl e)), s1, w1, wk) \<Longrightarrow>
   ReaderMut_poll B A s cx w woken = Some (Done (Ready e), s1, w1, woken @ wk)"
  by (subst ReaderMut_poll.simps, simp)+

text \<open>
  Every poll of the shared reader returns, without panic or undefined behaviour, and leaves the
  automaton fed with exactly the bytes that were taken.
\<close>

definition poll_outcome ::
  "(nat \<Rightarrow> byte list) \<Rightarrow> bool \<Rightarrow> 'f locked_reader \<Rightarrow> byte list \<Rightarrow> io_error poll \<Rightarrow> 'f locked_reader \<Rightarrow> bool" where
  "poll_outcome taken L s bs r s' \<longleftrightarrow>
     (let d = dx_run L (live s) bs (abs_reader taken s)
      in case r of
           Pending \<Rightarrow> abs_reader taken s' = d
         | Ready e \<Rightarrow> kind e = OutOfMemory \<or>
             lr_map s' = dx_open d \<and> lr_next s' = dx_next d \<and> abs_got taken s' = dx_got d)"

lemma reader_poll_ok:
  assumes laws: "reader_laws B A view src" and budget: "budget_laws A fuel"
  shows "lr_inv s \<Longrightarrow> taken_ok taken s \<Longrightarrow> listening A L s \<Longrightarrow>
    \<exists>r s' w' wk bs. ReaderMut_poll B A s cx w woken = Some (Done r, s', w', wk) \<and> src w' = src w @ bs \<and>
      lr_inv s' \<and> live s' = live s \<and> listening A L s' \<and> taken_ok taken s' \<and> poll_outcome taken L s bs r s'"
proof (induction "fuel w" arbitrary: s w woken rule: less_induct)
  case less
  obtain q s1 w1 wk1 bs1 where once: "ReaderMut_poll_once B A s cx w = (Done q, s1, w1, wk1)"
    and src1: "src w1 = src w @ bs1" and s1: "lr_inv s1" "live s1 = live s" "listening A L s1" "taken_ok taken s1"
    and post: "case q of
           Ready (Inl e) \<Rightarrow> lr_map s1 = lr_map s \<and> lr_next s1 = lr_next s \<and> abs_got taken s1 = abs_got taken s \<and>
             (bs1 = [] \<or> kind e = OutOfMemory)
         | _ \<Rightarrow> abs_reader taken s1 = dx_run L (live s) bs1 (abs_reader taken s)"
    by (rule poll_once_step [OF laws less.prems])
  have fuel1: "fuel w1 \<le> fuel w" using poll_once_fuel [OF budget, of B s cx w] once by simp
  consider (pend) "q = Pending" | (err) e where "q = Ready (Inl e)" | (ok) "q = Ready (Inr ())"
    by (metis poll.exhaust sum.exhaust unit.exhaust)
  then show ?case
  proof cases
    case pend
    then have "ReaderMut_poll B A s cx w woken = Some (Done Pending, s1, w1, woken @ wk1)"
      using reader_poll_stop(1) [of B A s cx w s1 w1 wk1 woken] once by simp
    with pend post src1 s1 show ?thesis by (auto simp: poll_outcome_def)
  next
    case err
    then have "ReaderMut_poll B A s cx w woken = Some (Done (Ready e), s1, w1, woken @ wk1)"
      using reader_poll_stop(2) [of B A s cx w e s1 w1 wk1 woken] once by simp
    moreover have "poll_outcome taken L s bs1 (Ready e) s1"
      using post err by (auto simp: poll_outcome_def)
    ultimately show ?thesis using src1 s1 by blast
  next
    case ok
    obtain c w2 where c: "r_consume_budget A cx w1 = (c, w2)" by fastforce
    have src2: "src w2 = src w1" by (rule reader_lawsD(6) [OF laws c])
    have abs1: "abs_reader taken s1 = dx_run L (live s) bs1 (abs_reader taken s)" using post ok by simp
    show ?thesis
    proof (cases c)
      case Pending
      then have "ReaderMut_poll B A s cx w woken = Some (Done Pending, s1, w2, woken @ wk1)"
        using ok by (subst ReaderMut_poll.simps) (simp add: once c)
      with abs1 src1 src2 s1 show ?thesis by (auto simp: poll_outcome_def)
    next
      case (Ready u)
      have eq: "ReaderMut_poll B A s cx w woken = ReaderMut_poll B A s1 cx w2 (woken @ wk1)"
        using ok Ready once c by (intro reader_poll_continue [of _ _ _ _ _ _ w1]) simp_all
      have "fuel w2 < fuel w" using budget_lawsD(1) [OF budget, of cx w1 w2] c Ready fuel1 by simp
      from less.hyps [OF this s1(1,4,3), of "woken @ wk1"] obtain r s' w' wk bs where
        rec: "ReaderMut_poll B A s1 cx w2 (woken @ wk1) = Some (Done r, s', w', wk)" "src w' = src w2 @ bs"
          "lr_inv s'" "live s' = live s1" "listening A L s'" "taken_ok taken s'" "poll_outcome taken L s1 bs r s'"
        by blast
      have "poll_outcome taken L s (bs1 @ bs) r s'"
        using rec(7) by (simp add: poll_outcome_def s1(2) abs1)
      moreover have "src w' = src w @ (bs1 @ bs)" using rec(2) src1 src2 by simp
      ultimately show ?thesis using eq rec s1(2) by auto
    qed
  qed
qed

section \<open>Reading from a connection\<close>

lemma dx_wf_abs: "lr_inv s \<Longrightarrow> dx_wf (abs_reader taken s)"
  unfolding dx_wf_def lr_inv_def using heap_invD(1,2,3) [of s] by simp (metis not_le option.discI)

text \<open>What a reader takes moves from the buffer to \<open>taken\<close>.\<close>

lemma abs_take:
  assumes e: "upgrade s i = Some e" and c: "rd_contents (re_buffer e) = bs @ rd_contents (re_buffer e')"
  shows "abs_reader (taken(i := taken i @ bs)) (put_entry s i e') = abs_reader taken s"
  using assms by (auto simp: abs_reader_def abs_got_def upgrade_put_entry fun_eq_iff split: option.split)

lemma poll_outcome_cong:
  "live s = live t \<Longrightarrow> abs_reader taken s = abs_reader taken t \<Longrightarrow> poll_outcome taken L s bs r s' = poll_outcome taken L t bs r s'"
  by (simp add: poll_outcome_def)

text \<open>
  What a read does: it hands out buffered bytes, or sees the end, or registers its task with the entry and polls the shared
  reader, whose answer it returns.
\<close>

definition drives ::
  "'b readbuf_api \<Rightarrow> ('w, 'b, 'f) reader_api \<Rightarrow> nat \<Rightarrow> reader_entry \<Rightarrow> 'f locked_reader \<Rightarrow> waker \<Rightarrow> 'w \<Rightarrow>
     unit io_result poll \<Rightarrow> 'f locked_reader \<Rightarrow> 'w \<Rightarrow> waker list \<Rightarrow> bool" where
  "drives B A i e s cx w r s' w' wk \<longleftrightarrow>
     (\<exists>b q. rd_inv b \<and> rd_contents b = [] \<and>
        SharedReader_poll B A (put_entry s i (e\<lparr>re_buffer := b, reader_pipe_waker := cx\<rparr>)) cx w = Some (Done q, s', w', wk) \<and>
        r = (case q of Pending \<Rightarrow> Pending | Ready x \<Rightarrow> Ready (Inl x)))"

definition read_outcome ::
  "'b readbuf_api \<Rightarrow> ('w, 'b, 'f) reader_api \<Rightarrow> (nat \<Rightarrow> byte list) \<Rightarrow> bool \<Rightarrow> ('w \<Rightarrow> byte list) \<Rightarrow> nat \<Rightarrow> reader_entry \<Rightarrow> nat \<Rightarrow>
     'f locked_reader \<Rightarrow> waker \<Rightarrow> 'w \<Rightarrow> unit io_result poll \<Rightarrow> 'f locked_reader \<Rightarrow> 'w \<Rightarrow> waker list \<Rightarrow> bool" where
  "read_outcome B A taken L src i e k s cx w r s' w' wk \<longleftrightarrow>
     (let c = rd_contents (re_buffer e)
      in if c \<noteq> [] then r = Ready (Inr ()) \<and> w' = w \<and> wk = [waiting_waker e] \<and>
           abs_reader (taken(i := taken i @ take k c)) s' = abs_reader taken s
         else if i \<notin> ran (lr_map s) then r = Ready (Inr ()) \<and> w' = w \<and> wk = [] \<and> abs_reader taken s' = abs_reader taken s
         else drives B A i e s cx w r s' w' wk \<and> (\<exists>bs. src w' = src w @ bs \<and>
           (case r of
              Pending \<Rightarrow> poll_outcome taken L s bs Pending s'
            | Ready (Inl x) \<Rightarrow> poll_outcome taken L s bs (Ready x) s'
            | Ready (Inr u) \<Rightarrow> False)))"

lemma conn_poll_read_ok:
  assumes laws: "reader_laws B A view src" and budget: "budget_laws A fuel"
    and inv: "lr_inv s" and taken: "taken_ok taken s" and L: "listening A L s"
    and arc: "lr_heap s (ri_entry this) = Some arc" and strong: "0 < ae_strong arc"
    and buf: "rb_ok (view buf)" "v_filled (view buf) < v_cap (view buf)"
  defines "k \<equiv> min (v_cap (view buf) - v_filled (view buf)) (length (rd_contents (re_buffer (ae_entry arc))))"
  shows "\<exists>r s' buf' w' wk. ReaderInner_poll_read B A this s cx buf w = Some (Done r, s', buf', w', wk) \<and>
    lr_inv s' \<and> live s' = live s \<and> listening A L s' \<and>
    taken_ok (taken(ri_entry this := taken (ri_entry this) @ take k (rd_contents (re_buffer (ae_entry arc))))) s' \<and>
    rb_grown (view buf) (take k (rd_contents (re_buffer (ae_entry arc)))) (view buf') \<and>
    read_outcome B A taken L src (ri_entry this) (ae_entry arc) k s cx w r s' w' wk"
proof -
  let ?i = "ri_entry this" and ?e = "ae_entry arc"
  let ?c = "rd_contents (re_buffer ?e)"
  note rb = reader_lawsD(1) [OF laws]
  have heap: "heap_inv s" using inv by (simp add: lr_inv_def)
  have e: "upgrade s ?i = Some ?e" using arc strong by (simp add: upgrade_def)
  have eok: "entry_ok ?e" by (rule heap_invD(4) [OF heap arc])
  then have rd: "rd_inv (re_buffer ?e)" by (simp add: entry_ok_def)
  obtain q' buf' where read: "ReadBuffer_read B (re_buffer ?e) buf = Done (q', buf')" and q': "rd_inv q'"
    "rd_contents q' = drop k ?c" "rd_capacity q' = rd_capacity (re_buffer ?e)"
    and grown: "rb_grown (view buf) (take k ?c) (view buf')"
    unfolding k_def by (rule read_spec [OF rb rd buf(1)])
  let ?e1 = "?e\<lparr>re_buffer := q'\<rparr>"
  let ?s1 = "put_entry s ?i ?e1"
  have e1: "entry_ok ?e1" using eok q' by (simp add: entry_ok_def)
  have heap1: "heap_inv ?s1" by (rule heap_inv_put_entry [OF heap e1])
  have inv1: "lr_inv ?s1" using heap1 inv by (simp add: lr_inv_def)
  have rem: "rb_remaining B buf \<noteq> 0" using buf(2) by (simp add: readbuf_lawsD(4) [OF rb])
  have moved: "rb_remaining B buf \<noteq> rb_remaining B buf' \<longleftrightarrow> ?c \<noteq> []"
  proof -
    have "v_filled (view buf') = v_filled (view buf) + k" "v_cap (view buf') = v_cap (view buf)"
      using grown by (simp_all add: rb_grown_def k_def)
    moreover have "k = 0 \<longleftrightarrow> ?c = []" "k \<le> v_cap (view buf) - v_filled (view buf)"
      using buf(2) by (auto simp: k_def min_def)
    ultimately show ?thesis using buf(2) by (auto simp: readbuf_lawsD(4) [OF rb])
  qed
  have weak: "weak_count ?s1 ?i = 0 \<longleftrightarrow> ?i \<notin> ran (lr_map s)"
    using heap_invD(5) [OF heap arc] arc by (simp add: weak_count_def put_entry_def)
  note poll = ReaderInner_poll_read_def arc read rem Let_def
  have "\<not> lr_next s \<le> ?i" using heap_invD(1) [OF heap, of ?i] arc by auto
  then have taken1: "taken_ok (taken(?i := taken ?i @ take k ?c)) ?s1" using taken by (auto simp: taken_ok_def)
  have L1: "listening A L ?s1" using L by (simp add: listening_def)
  have same: "?c = [] \<Longrightarrow> taken(?i := taken ?i @ take k ?c) = taken" by simp
  consider (data) "?c \<noteq> []" | (eof) "?c = []" "?i \<notin> ran (lr_map s)" | (wait) "?c = []" "?i \<in> ran (lr_map s)"
    by blast
  then show ?thesis
  proof cases
    case data
    have "abs_reader (taken(?i := taken ?i @ take k ?c)) ?s1 = abs_reader taken s"
      by (rule abs_take [OF e]) (simp add: q')
    moreover have "ReaderInner_poll_read B A this s cx buf w = Some (Done (Ready (Inr ())), ?s1, buf', w, [waiting_waker ?e])"
      using moved data by (simp add: poll)
    ultimately show ?thesis using data inv1 grown L1 taken1 by (auto simp: read_outcome_def)
  next
    case eof
    have "abs_reader taken ?s1 = abs_reader taken s"
      by (rule abs_put_entry_same [OF e]) (use q' eof in simp)
    moreover have "ReaderInner_poll_read B A this s cx buf w = Some (Done (Ready (Inr ())), ?s1, buf', w, [])"
      using moved weak eof rem by (simp add: poll)
    ultimately show ?thesis using eof inv1 grown L1 taken1 by (auto simp: read_outcome_def)
  next
    case wait
    let ?e2 = "?e1\<lparr>reader_pipe_waker := cx\<rparr>"
    let ?s2 = "put_entry ?s1 ?i ?e2"
    have up1: "upgrade ?s1 ?i = Some ?e1" using e by (simp add: upgrade_put_entry)
    have "abs_reader taken ?s2 = abs_reader taken ?s1" by (rule abs_put_entry_same [OF up1]) simp
    also have "\<dots> = abs_reader taken s" by (rule abs_put_entry_same [OF e]) (use q' wait in simp)
    finally have abs2: "abs_reader taken ?s2 = abs_reader taken s" .
    have "entry_ok ?e2" using e1 by (simp add: entry_ok_def)
    then have inv2: "lr_inv ?s2" using heap_inv_put_entry [OF heap1] inv by (simp add: lr_inv_def)
    have "taken_ok taken ?s2" and "listening A L ?s2"
      using taken L by (simp_all add: taken_ok_def listening_def)
    from reader_poll_ok [OF laws budget inv2 this, of cx w "[]"] obtain r s' w' wk bs
      where p: "SharedReader_poll B A ?s2 cx w = Some (Done r, s', w', wk)" and s': "src w' = src w @ bs"
        "lr_inv s'" "live s' = live s" "poll_outcome taken L ?s2 bs r s'" "listening A L s'" "taken_ok taken s'"
      by (auto simp: SharedReader_poll_def)
    have "?s2 = put_entry s ?i (?e\<lparr>re_buffer := q', reader_pipe_waker := cx\<rparr>)" by (auto simp: put_entry_def split: option.split)
    moreover have "rd_contents q' = []" using q'(2) wait by simp
    ultimately have drives: "drives B A ?i ?e s cx w (case r of Pending \<Rightarrow> Pending | Ready x \<Rightarrow> Ready (Inl x)) s' w' wk"
      using p q'(1) unfolding drives_def by auto
    have out: "poll_outcome taken L s bs r s'"
      using s'(4) poll_outcome_cong [of ?s2 s taken L bs r s'] abs2 by simp
    show ?thesis
    proof (cases r)
      case Pending
      then have "ReaderInner_poll_read B A this s cx buf w = Some (Done Pending, s', buf', w', wk)"
        using moved weak wait p rem by (simp add: poll)
      with Pending wait s' grown out same drives show ?thesis by (auto simp: read_outcome_def)
    next
      case (Ready x)
      then have "ReaderInner_poll_read B A this s cx buf w = Some (Done (Ready (Inl x)), s', buf', w', wk)"
        using moved weak wait p rem by (simp add: poll)
      with Ready wait s' grown out same drives show ?thesis by (auto simp: read_outcome_def)
    qed
  qed
qed

end
