(* ===== verification/Conn_View.thy ===== *)
theory Conn_View
  imports Demux
begin

text \<open>
  What one address sees of the abstract demultiplexer. The frames of other addresses, the connections opened
  and the readers dropped beside it do not matter to it: its view is an automaton of its own, fed with
  the same bytes, and the demultiplexer follows it.
\<close>

section \<open>The frames in a stream\<close>

text \<open>One byte of the stream: the next phase, and the empty frame or the byte of payload it completes.\<close>

fun px_feed :: "byte \<Rightarrow> dx_phase \<Rightarrow> dx_phase \<times> (socket_addr \<times> byte list) list" where
  "px_feed x (InHeader h) =
     (if length h + 1 < MuxFrameHeader_size then (InHeader (h @ [x]), [])
      else let hdr = MuxFrameHeader_of_bytes (h @ [x]); a = MuxFrameHeader_addr hdr; n = unat (MuxFrameHeader_len hdr)
           in if n \<noteq> 0 then (InBody a n, []) else (InHeader [], [(a, [])]))"
| "px_feed x (InBody a n) = (if n \<le> 1 then InHeader [] else InBody a (n - 1), [(a, [x])])"

text \<open>The demultiplexer does with every piece what it does with a frame.\<close>

lemma MuxFrameHeader_empty_fields [simp]:
  "MuxFrameHeader_addr (MuxFrameHeader_empty a) = a" "MuxFrameHeader_len (MuxFrameHeader_empty a) = 0"
  by (simp_all add: MuxFrameHeader_empty_def MuxFrameHeader_addr_def MuxFrameHeader_len_def)

lemma dx_dispatch_empty:
  "unat (MuxFrameHeader_len h) = 0 \<Longrightarrow> dx_dispatch L h d = dx_dispatch L (MuxFrameHeader_empty (MuxFrameHeader_addr h)) d"
  by (simp add: dx_dispatch_def)

lemma dx_dispatch_empty_phase: "dx_phase (dx_dispatch L (MuxFrameHeader_empty a) d) = InHeader []"
  by (simp add: dx_dispatch_def split: option.split)

lemma dx_feed_pieces:
  "dx_feed L live x d =
     (fold (dx_frame L live) (snd (px_feed x (dx_phase d))) d)\<lparr>dx_phase := fst (px_feed x (dx_phase d))\<rparr>"
proof (cases "dx_phase d")
  case (InHeader h)
  let ?hdr = "MuxFrameHeader_of_bytes (h @ [x])"
  have "dx_dispatch L ?hdr d = d\<lparr>dx_phase := InBody (MuxFrameHeader_addr ?hdr) (unat (MuxFrameHeader_len ?hdr))\<rparr>"
    if "unat (MuxFrameHeader_len ?hdr) \<noteq> 0"
    using that by (simp add: dx_dispatch_def)
  moreover have "dx_dispatch L ?hdr d = (dx_dispatch L (MuxFrameHeader_empty (MuxFrameHeader_addr ?hdr)) d)\<lparr>dx_phase := InHeader []\<rparr>"
    if "unat (MuxFrameHeader_len ?hdr) = 0"
    using dx_dispatch_empty [OF that, of L d] dx_dispatch_empty_phase [of L "MuxFrameHeader_addr ?hdr" d] by simp
  ultimately show ?thesis
    using InHeader by (auto simp: dx_feed_def dx_frame_def Let_def)
qed (simp add: dx_feed_def dx_frame_def)

section \<open>The view of one address\<close>

text \<open>Not opened yet, open or closed with the bytes it got, or opened a second time.\<close>

datatype conn_status = Unborn | Opened "byte list" | Ended "byte list" | Reopened

fun cv_empty :: "bool \<Rightarrow> conn_status \<Rightarrow> conn_status" where
  "cv_empty L Unborn = (if L then Opened [] else Unborn)"
| "cv_empty L (Opened g) = Ended g"
| "cv_empty L (Ended g) = (if L then Reopened else Ended g)"
| "cv_empty L Reopened = Reopened"

fun cv_data :: "byte list \<Rightarrow> conn_status \<Rightarrow> conn_status" where
  "cv_data bs (Opened g) = Opened (g @ bs)"
| "cv_data bs st = st"

definition cv_frame :: "bool \<Rightarrow> socket_addr \<Rightarrow> socket_addr \<times> byte list \<Rightarrow> conn_status \<Rightarrow> conn_status" where
  "cv_frame L a f st =
     (if fst f \<noteq> a then st else if snd f = [] then cv_empty L st else cv_data (snd f) st)"

definition cv_feed :: "bool \<Rightarrow> socket_addr \<Rightarrow> byte \<Rightarrow> dx_phase \<times> conn_status \<Rightarrow> dx_phase \<times> conn_status" where
  "cv_feed L a x cv =
     (fst (px_feed x (fst cv)), fold (cv_frame L a) (snd (px_feed x (fst cv))) (snd cv))"

abbreviation cv_run :: "bool \<Rightarrow> socket_addr \<Rightarrow> byte list \<Rightarrow> dx_phase \<times> conn_status \<Rightarrow> dx_phase \<times> conn_status" where
  "cv_run L a bs cv \<equiv> fold (cv_feed L a) bs cv"

section \<open>Whole frames\<close>

lemma cv_data_append: "cv_data (bs @ cs) st = cv_data cs (cv_data bs st)"
  by (cases st) simp_all

lemma cv_run_header:
  "length h + length bs < MuxFrameHeader_size \<Longrightarrow> cv_run L a bs (InHeader h, st) = (InHeader (h @ bs), st)"
  by (induction bs arbitrary: h) (simp_all add: cv_feed_def)

lemma cv_run_body:
  "bs \<noteq> [] \<Longrightarrow> cv_run L a bs (InBody b (length bs), st) = (InHeader [], if b = a then cv_data bs st else st)"
proof (induction bs arbitrary: st)
  case (Cons x bs)
  show ?case
  proof (cases "bs = []")
    case False
    then have "length (x # bs) - 1 = length bs" "\<not> length (x # bs) \<le> 1" by (cases bs; simp)+
    with Cons.IH [OF False] show ?thesis
      using cv_data_append [of "[x]" bs st] by (simp add: cv_feed_def cv_frame_def)
  qed (simp add: cv_feed_def cv_frame_def)
qed simp

lemma cv_run_frame:
  assumes p: "length p \<le> 65535"
  shows "cv_run L a (frame b p) (InHeader [], st) = (InHeader [], cv_frame L a (b, p) st)"
proof -
  let ?h = "\<lparr>socket = b, len = NetworkOrderU16_new (of_nat (length p))\<rparr>"
  let ?bs = "MuxFrameHeader_bytes ?h"
  have n: "unat (MuxFrameHeader_len ?h) = length p" using p by (simp add: MuxFrameHeader_len_def unat_of_nat)
  have "?bs \<noteq> []" using length_MuxFrameHeader_bytes [of ?h] by (metis list.size(3) zero_neq_numeral)
  then have bs: "?bs = butlast ?bs @ [last ?bs]" by simp
  have len: "length (butlast ?bs) = 19" by simp
  have hdr: "MuxFrameHeader_of_bytes (butlast ?bs @ [last ?bs]) = ?h"
    using bs MuxFrameHeader_of_bytes_append [of ?h "[]"] by simp
  have "cv_run L a (butlast ?bs) (InHeader [], st) = (InHeader (butlast ?bs), st)"
    using cv_run_header [of "[]" "butlast ?bs" L a st] len by simp
  then have "cv_run L a ?bs (InHeader [], st) = cv_feed L a (last ?bs) (InHeader (butlast ?bs), st)"
    by (subst bs) simp
  also have "\<dots> = (if p = [] then (InHeader [], cv_frame L a (b, p) st) else (InBody b (length p), st))"
    using len hdr n by (simp add: cv_feed_def Let_def MuxFrameHeader_addr_def)
  finally show ?thesis
    using cv_run_body [of p L a b st] by (auto simp: frame_def cv_frame_def)
qed

lemma cv_run_frames:
  "\<forall>f \<in> set fs. length (snd f) \<le> 65535 \<Longrightarrow>
    cv_run L a (frames fs) (InHeader [], st) = (InHeader [], fold (cv_frame L a) fs st)"
proof (induction fs arbitrary: st)
  case (Cons f fs)
  then show ?case using cv_run_frame [of "snd f" L a "fst f" st] by (cases f) simp
qed simp

lemma cv_run_phase: "fst (cv_run L a bs (ph, st)) = fst (cv_run L a bs (ph, st'))"
proof (induction bs arbitrary: ph st st')
  case (Cons x bs)
  have step: "cv_feed L a x (ph, s) = (fst (px_feed x ph), fold (cv_frame L a) (snd (px_feed x ph)) s)" for s by (simp add: cv_feed_def)
  show ?case unfolding fold_Cons o_apply step by (rule Cons.IH)
qed simp

lemma cv_frames_of: "fold (cv_frame L a) fs st = fold (cv_frame L a) (frames_of a fs) st"
  by (induction fs arbitrary: st) (simp_all add: cv_frame_def)

lemma cv_data_frames:
  "\<forall>p \<in> set ps. p \<noteq> [] \<Longrightarrow> fold (cv_frame L a) (map (Pair a) ps) (Opened g) = Opened (g @ concat ps)"
  by (induction ps arbitrary: g) (simp_all add: cv_frame_def)

section \<open>Its bytes only grow\<close>

fun cv_extends :: "conn_status \<Rightarrow> conn_status \<Rightarrow> bool" where
  "cv_extends Unborn st \<longleftrightarrow> True"
| "cv_extends (Opened g) st \<longleftrightarrow> st = Reopened \<or> (\<exists>g'. st = Opened (g @ g') \<or> st = Ended (g @ g'))"
| "cv_extends (Ended g) st \<longleftrightarrow> st = Reopened \<or> st = Ended g"
| "cv_extends Reopened st \<longleftrightarrow> st = Reopened"

lemma cv_extends_refl: "cv_extends st st"
  by (cases st) simp_all

lemma cv_extends_trans: "cv_extends st st' \<Longrightarrow> cv_extends st' st'' \<Longrightarrow> cv_extends st st''"
  by (cases st; cases st') auto

lemma cv_extends_frame: "cv_extends st (cv_frame L a f st)"
  by (cases st) (auto simp: cv_frame_def)

lemma cv_extends_frames: "cv_extends st (fold (cv_frame L a) fs st)"
proof (induction fs arbitrary: st)
  case (Cons f fs)
  show ?case using cv_extends_trans [OF cv_extends_frame Cons.IH] by simp
qed (simp add: cv_extends_refl)

lemma cv_extends_run: "cv_extends (snd cv) (snd (cv_run L a bs cv))"
proof (induction bs arbitrary: cv)
  case (Cons x bs)
  have "cv_extends (snd cv) (snd (cv_feed L a x cv))" by (simp add: cv_feed_def cv_extends_frames)
  with Cons.IH [of "cv_feed L a x cv"] show ?case using cv_extends_trans by simp
qed (simp add: cv_extends_refl)

section \<open>The demultiplexer follows\<close>

text \<open>
  The state of the demultiplexer and the view of address \<open>a\<close>, whose connection has number \<open>k\<close> once it is born.
  A connection whose reader is gone is followed without its bytes.
\<close>

definition follows :: "(nat \<Rightarrow> bool) \<Rightarrow> socket_addr \<Rightarrow> nat \<Rightarrow> demux \<Rightarrow> conn_status \<Rightarrow> bool" where
  "follows live a k d st \<longleftrightarrow> dx_wf d \<and>
     (case st of
        Unborn \<Rightarrow> dx_open d a = None
      | Opened g \<Rightarrow> dx_open d a = Some k \<and> (live k \<longrightarrow> dx_got d k = g)
      | Ended g \<Rightarrow> dx_open d a = None \<and> k < dx_next d \<and> k \<notin> ran (dx_open d) \<and> (live k \<longrightarrow> dx_got d k = g)
      | Reopened \<Rightarrow> True)"

lemma follows_phase [simp]: "follows live a k (d\<lparr>dx_phase := ph\<rparr>) st = follows live a k d st"
  by (simp add: follows_def dx_wf_def cong: conn_status.case_cong)

text \<open>A frame of its own, of another address, and the opening frame.\<close>

lemma follows_frame:
  assumes f: "follows live a k d st"
  shows "\<exists>k'. follows live a k' (dx_frame L live f d) (cv_frame L a f st) \<and> (if st = Unborn then dx_next d \<le> k' else k' = k)"
proof (cases st)
  case Unborn
  then have d: "dx_wf d" "dx_open d a = None" using f by (simp_all add: follows_def)
  show ?thesis
  proof (cases "f = (a, []) \<and> L")
    case True
    then have "dx_open (dx_frame L live f d) a = Some (dx_next d)" "dx_got (dx_frame L live f d) (dx_next d) = []"
      using d(2) by (simp_all add: dx_frame_def dx_dispatch_def)
    with True dx_wf_frame [OF d(1)] Unborn show ?thesis by (auto simp: follows_def cv_frame_def)
  next
    case False
    have "dx_open (dx_frame L live f d) a = None"
    proof (cases "fst f = a")
      case True
      with False d(2) show ?thesis by (cases f) (auto simp: dx_frame_def dx_dispatch_def dx_deliver_def)
    qed (use d(2) in \<open>simp add: dx_frame_open_other\<close>)
    moreover have "cv_frame L a f Unborn = Unborn" using False by (cases f) (auto simp: cv_frame_def)
    ultimately show ?thesis using dx_wf_frame [OF d(1)] Unborn by (auto simp: follows_def)
  qed
next
  case (Opened g)
  then have d: "dx_wf d" "dx_open d a = Some k" "live k \<longrightarrow> dx_got d k = g" using f by (simp_all add: follows_def)
  show ?thesis
  proof (cases "f = (a, [])")
    case True
    then have e: "dx_open (dx_frame L live f d) = (dx_open d)(a := None)" "dx_got (dx_frame L live f d) = dx_got d"
      "dx_next (dx_frame L live f d) = dx_next d"
      using d(2) by (simp_all add: dx_frame_def dx_dispatch_def)
    have "k < dx_next d" "k \<notin> ran ((dx_open d)(a := None))" using dx_wfD [OF d(1)] d(2) by (auto simp: ran_def)
    with e d(3) True Opened dx_wf_frame [OF d(1)] show ?thesis by (auto simp: follows_def cv_frame_def)
  next
    case False
    with dx_frame_conn [OF d(1,2) False, of L live] d(3) Opened dx_wf_frame [OF d(1)] show ?thesis
      by (cases f) (auto simp: follows_def cv_frame_def)
  qed
next
  case (Ended g)
  then have d: "dx_wf d" "dx_open d a = None" "k < dx_next d" "k \<notin> ran (dx_open d)" "live k \<longrightarrow> dx_got d k = g"
    using f by (simp_all add: follows_def)
  have "k < dx_next (dx_frame L live f d)" using d(3) dx_next_frame [of d L live f] by simp
  moreover have "dx_open (dx_frame L live f d) a = None" if "\<not> (f = (a, []) \<and> L)"
  proof (cases "fst f = a")
    case True
    with that d(2) show ?thesis by (cases f) (auto simp: dx_frame_def dx_dispatch_def dx_deliver_def)
  qed (use d(2) in \<open>simp add: dx_frame_open_other\<close>)
  ultimately show ?thesis
    using dx_frame_gone [OF d(3,4), of L live f] d(5) Ended dx_wf_frame [OF d(1), of L live f]
    by (cases f) (auto simp: follows_def cv_frame_def)
next
  case Reopened
  with f show ?thesis by (auto simp: follows_def cv_frame_def dx_wf_frame)
qed

lemma follows_frames:
  "follows live a k d st \<Longrightarrow>
    \<exists>k'. follows live a k' (fold (dx_frame L live) fs d) (fold (cv_frame L a) fs st) \<and> (if st = Unborn then dx_next d \<le> k' else k' = k)"
proof (induction fs arbitrary: k d st)
  case (Cons f fs)
  from follows_frame [OF Cons.prems, of L f] obtain k1
    where k1: "follows live a k1 (dx_frame L live f d) (cv_frame L a f st)" "if st = Unborn then dx_next d \<le> k1 else k1 = k" by blast
  have "st \<noteq> Unborn \<longrightarrow> cv_frame L a f st \<noteq> Unborn" using cv_extends_frame [of st L a f] by (cases st) auto
  with Cons.IH [OF k1(1)] k1(2) dx_next_frame [of d L live f] show ?case by (auto split: if_splits)
next
  case Nil
  then show ?case by (cases st) (auto simp: follows_def)
qed

lemma follows_run:
  "follows live a k d st \<Longrightarrow> dx_phase d = ph \<Longrightarrow>
    dx_phase (dx_run L live bs d) = fst (cv_run L a bs (ph, st)) \<and>
    (\<exists>k'. follows live a k' (dx_run L live bs d) (snd (cv_run L a bs (ph, st))) \<and> (if st = Unborn then dx_next d \<le> k' else k' = k))"
proof (induction bs arbitrary: k d st ph)
  case (Cons x bs)
  let ?p = "px_feed x ph"
  from follows_frames [OF Cons.prems(1), of L "snd ?p"] obtain k1 where
    k1: "follows live a k1 (dx_feed L live x d) (fold (cv_frame L a) (snd ?p) st)" "if st = Unborn then dx_next d \<le> k1 else k1 = k"
    using Cons.prems(2) by (auto simp: dx_feed_pieces)
  have "dx_phase (dx_feed L live x d) = fst ?p" using Cons.prems(2) by (simp add: dx_feed_pieces)
  from Cons.IH [OF k1(1) this] show ?case
    using k1(2) dx_next_feed [of d L live x] cv_extends_frames [of st L a "snd ?p"]
    by (cases st) (auto simp: cv_feed_def split: if_splits)
next
  case Nil
  then show ?case by (cases st) (auto simp: follows_def)
qed

text \<open>Connections opened and readers dropped at this end.\<close>

definition dx_add :: "socket_addr \<Rightarrow> demux \<Rightarrow> demux" where
  "dx_add b d = d\<lparr>dx_open := (dx_open d)(b \<mapsto> dx_next d), dx_next := dx_next d + 1, dx_got := (dx_got d)(dx_next d := [])\<rparr>"

lemma dx_add_phase [simp]: "dx_phase (dx_add b d) = dx_phase d"
  by (simp add: dx_add_def)

lemma dx_wf_add:
  assumes "dx_wf d"
  shows "dx_wf (dx_add b d)"
proof -
  have "dx_open d c \<noteq> Some (dx_next d)" for c using dx_wfD(1) [OF assms, of c] by auto
  then show ?thesis unfolding dx_wf_def dx_add_def using dx_wfD [OF assms] by (auto simp: less_Suc_eq)
qed

lemma follows_add:
  assumes f: "follows live a k d st" and b: "b \<noteq> a"
  shows "follows live a k (dx_add b d) st"
proof -
  have wf: "dx_wf d" using f by (simp add: follows_def)
  have "k \<in> ran ((dx_open d)(b \<mapsto> dx_next d)) \<Longrightarrow> k = dx_next d \<or> k \<in> ran (dx_open d)"
    by (auto simp: ran_def split: if_splits)
  moreover have "dx_open d a = Some k \<Longrightarrow> k \<noteq> dx_next d" using dx_wfD(1) [OF wf] by auto
  ultimately show ?thesis
    using f b dx_wf_add [OF wf, of b] by (auto simp: follows_def dx_add_def split: conn_status.split)
qed

lemma follows_own_add: "follows live a k d st \<Longrightarrow> follows live a (dx_next d) (dx_add a d) (Opened [])"
  using dx_wf_add [of d a] by (simp add: follows_def) (simp add: dx_add_def)

lemma follows_fewer:
  assumes "follows live a k d st" and "\<And>i. live' i \<Longrightarrow> live i"
    and "dx_open d' = dx_open d" "dx_next d' = dx_next d" "\<And>i. live' i \<Longrightarrow> dx_got d' i = dx_got d i"
  shows "follows live' a k d' st"
  using assms by (auto simp: follows_def dx_wf_def split: conn_status.splits)

end
