(* ===== verification/Read_System.thy ===== *)
theory Read_System
  imports Read_Poll Conn_View
begin

text \<open>
  The reading side of one stream over time: the shared reader is polled, connections are read, opened and
  dropped, by any tasks and in any order, without an I/O error. Every poll and read is a run of the abstract
  demultiplexer on the bytes that were taken from the stream, and over the whole run the connection of
  one address follows its view of these bytes.
\<close>

section \<open>Runs\<close>

record ('f, 'w) read_sys =
  rs_reader :: "'f locked_reader"
  rs_world :: 'w
  rs_taken :: "nat \<Rightarrow> byte list"

text \<open>
  \<open>add_conn\<close> is the reader's part of \<open>MuxPipe::add_connection\<close>, for the addresses \<open>mine\<close> that this end opens;
  \<open>drop_conn\<close> that of dropping a connection.
\<close>

inductive read_step ::
  "'b readbuf_api \<Rightarrow> ('w, 'b, 'f) reader_api \<Rightarrow> ('b \<Rightarrow> rb_view) \<Rightarrow> socket_addr set \<Rightarrow> ('f, 'w) read_sys \<Rightarrow> ('f, 'w) read_sys \<Rightarrow> bool"
  for B A view mine where
  poll_shared: "SharedReader_poll B A (rs_reader R) cx (rs_world R) = Some (Done Pending, s', w', wk) \<Longrightarrow>
    read_step B A view mine R (R\<lparr>rs_reader := s', rs_world := w'\<rparr>)"
| read_conn: "lr_heap (rs_reader R) (ri_entry this) = Some arc \<Longrightarrow> 0 < ae_strong arc \<Longrightarrow>
    rb_ok (view buf) \<Longrightarrow> v_filled (view buf) < v_cap (view buf) \<Longrightarrow>
    ReaderInner_poll_read B A this (rs_reader R) cx buf (rs_world R) = Some (Done r, s', buf', w', wk) \<Longrightarrow>
    \<forall>e. r \<noteq> Ready (Inl e) \<Longrightarrow> rb_contents (view buf') = rb_contents (view buf) @ bs \<Longrightarrow>
    read_step B A view mine R (R\<lparr>rs_reader := s', rs_world := w',
      rs_taken := (rs_taken R)(ri_entry this := rs_taken R (ri_entry this) @ bs)\<rparr>)"
| add_conn: "b \<in> mine \<Longrightarrow> SharedReader_add_connection A (rs_reader R) b (rs_world R) = (res, s', w') \<Longrightarrow>
    read_step B A view mine R (R\<lparr>rs_reader := s', rs_world := w'\<rparr>)"
| drop_conn: "lr_heap (rs_reader R) (ri_entry this) = Some arc \<Longrightarrow> 0 < ae_strong arc \<Longrightarrow>
    read_step B A view mine R (R\<lparr>rs_reader := ReaderInner_drop (rs_reader R) this\<rparr>)"

definition abs_sys :: "('f, 'w) read_sys \<Rightarrow> demux" where
  "abs_sys R = abs_reader (rs_taken R) (rs_reader R)"

definition rs_inv :: "('w, 'b, 'f) reader_api \<Rightarrow> bool \<Rightarrow> ('f, 'w) read_sys \<Rightarrow> bool" where
  "rs_inv A L R \<longleftrightarrow> lr_inv (rs_reader R) \<and> taken_ok (rs_taken R) (rs_reader R) \<and> listening A L (rs_reader R)"

section \<open>Simulation\<close>

text \<open>One step feeds the automaton the bytes it took.\<close>

definition simulates ::
  "('w, 'b, 'f) reader_api \<Rightarrow> bool \<Rightarrow> ('w \<Rightarrow> byte list) \<Rightarrow> ('f, 'w) read_sys \<Rightarrow> ('f, 'w) read_sys \<Rightarrow> bool" where
  "simulates A L src R R' \<longleftrightarrow> rs_inv A L R' \<and> live (rs_reader R') = live (rs_reader R) \<and>
     (\<exists>bs. src (rs_world R') = src (rs_world R) @ bs \<and> abs_sys R' = dx_run L (live (rs_reader R)) bs (abs_sys R))"

lemma poll_shared_simulates:
  assumes laws: "reader_laws B A view src" and budget: "budget_laws A fuel" and inv: "rs_inv A L R"
    and eq: "SharedReader_poll B A (rs_reader R) cx (rs_world R) = Some (Done Pending, s', w', wk)"
  shows "simulates A L src R (R\<lparr>rs_reader := s', rs_world := w'\<rparr>)"
proof -
  have "lr_inv (rs_reader R)" "taken_ok (rs_taken R) (rs_reader R)" "listening A L (rs_reader R)"
    using inv by (simp_all add: rs_inv_def)
  from reader_poll_ok [OF laws budget this, of cx "rs_world R" "[]"] eq show ?thesis
    by (auto simp: SharedReader_poll_def simulates_def rs_inv_def abs_sys_def poll_outcome_def)
qed

lemma read_conn_simulates:
  assumes laws: "reader_laws B A view src" and budget: "budget_laws A fuel" and inv: "rs_inv A L R"
    and arc: "lr_heap (rs_reader R) (ri_entry this) = Some arc" "0 < ae_strong arc"
    and buf: "rb_ok (view buf)" "v_filled (view buf) < v_cap (view buf)"
    and eq: "ReaderInner_poll_read B A this (rs_reader R) cx buf (rs_world R) = Some (Done r, s', buf', w', wk)"
    and r: "\<forall>e. r \<noteq> Ready (Inl e)" and bs: "rb_contents (view buf') = rb_contents (view buf) @ bs"
  shows "simulates A L src R (R\<lparr>rs_reader := s', rs_world := w',
    rs_taken := (rs_taken R)(ri_entry this := rs_taken R (ri_entry this) @ bs)\<rparr>)"
proof -
  let ?s = "rs_reader R" and ?w = "rs_world R" and ?i = "ri_entry this" and ?c = "rd_contents (re_buffer (ae_entry arc))"
  let ?k = "min (v_cap (view buf) - v_filled (view buf)) (length ?c)"
  let ?t = "(rs_taken R)(?i := rs_taken R ?i @ take ?k ?c)"
  have pre: "lr_inv ?s" "taken_ok (rs_taken R) ?s" "listening A L ?s" using inv by (simp_all add: rs_inv_def)
  from conn_poll_read_ok [OF laws budget pre arc buf, of cx ?w] eq
  have out: "lr_inv s'" "live s' = live ?s" "listening A L s'" "taken_ok ?t s'" "rb_grown (view buf) (take ?k ?c) (view buf')"
    "read_outcome B A (rs_taken R) L src ?i (ae_entry arc) ?k ?s cx ?w r s' w' wk"
    by auto
  have "bs = take ?k ?c" using out(5) bs by (simp add: rb_grown_def)
  moreover have "\<exists>cs. src w' = src ?w @ cs \<and> abs_reader ?t s' = dx_run L (live ?s) cs (abs_reader (rs_taken R) ?s)"
  proof (cases "?c \<noteq> [] \<or> ?i \<notin> ran (lr_map ?s)")
    case True
    then show ?thesis using out(6) by (auto simp: read_outcome_def Let_def intro!: exI [of _ "[]"] split: if_splits)
  next
    case False
    from r consider "r = Pending" | "r = Ready (Inr ())" by (metis poll.exhaust sum.exhaust unit.exhaust)
    then have "\<exists>cs. src w' = src ?w @ cs \<and> poll_outcome (rs_taken R) L ?s cs Pending s'"
      by cases (use out(6) False in \<open>auto simp: read_outcome_def\<close>)
    with False show ?thesis by (auto simp: poll_outcome_def)
  qed
  ultimately show ?thesis using out by (simp add: simulates_def rs_inv_def abs_sys_def)
qed

text \<open>A read with room that brings nothing is the end of the stream: the connection is closed and has been read to its end.\<close>

lemma read_eof:
  assumes laws: "reader_laws B A view src" "budget_laws A fuel" and inv: "rs_inv A L R"
    and arc: "lr_heap (rs_reader R) (ri_entry this) = Some arc" "0 < ae_strong arc"
    and buf: "rb_ok (view buf)" "v_filled (view buf) < v_cap (view buf)"
    and eq: "ReaderInner_poll_read B A this (rs_reader R) cx buf (rs_world R) = Some (Done (Ready (Inr ())), s', buf', w', wk)"
    and same: "rb_contents (view buf') = rb_contents (view buf)"
  shows "ri_entry this \<notin> ran (lr_map (rs_reader R))"
    and "abs_got (rs_taken R) (rs_reader R) (ri_entry this) = rs_taken R (ri_entry this)" and "live (rs_reader R) (ri_entry this)"
proof -
  let ?s = "rs_reader R" and ?i = "ri_entry this" and ?c = "rd_contents (re_buffer (ae_entry arc))"
  let ?k = "min (v_cap (view buf) - v_filled (view buf)) (length ?c)"
  have pre: "lr_inv ?s" "taken_ok (rs_taken R) ?s" "listening A L ?s" using inv by (simp_all add: rs_inv_def)
  from conn_poll_read_ok [OF laws pre arc buf, of cx "rs_world R"] eq
  have out: "rb_grown (view buf) (take ?k ?c) (view buf')"
    "read_outcome B A (rs_taken R) L src ?i (ae_entry arc) ?k ?s cx (rs_world R) (Ready (Inr ())) s' w' wk"
    by auto
  have "take ?k ?c = []" using out(1) same by (auto simp: rb_grown_def)
  then have "length ?c = 0" using buf(2) by (simp add: min_def split: if_splits)
  then have c: "?c = []" by simp
  show "?i \<notin> ran (lr_map ?s)" using out(2) c by (auto simp: read_outcome_def)
  show "abs_got (rs_taken R) ?s ?i = rs_taken R ?i" and "live ?s ?i"
    using c arc by (simp_all add: abs_got_def upgrade_def live_def)
qed

section \<open>The view of one address\<close>

definition rs_view :: "('w, 'b, 'f) reader_api \<Rightarrow> bool \<Rightarrow> socket_addr \<Rightarrow> nat \<Rightarrow> ('f, 'w) read_sys \<Rightarrow> dx_phase \<times> conn_status \<Rightarrow> bool" where
  "rs_view A L a k R cv \<longleftrightarrow> rs_inv A L R \<and> dx_phase (abs_sys R) = fst cv \<and>
     follows (live (rs_reader R)) a k (abs_sys R) (snd cv)"

lemma simulates_view:
  assumes "simulates A L src R R'" and "rs_view A L a k R cv"
  shows "\<exists>bs k'. src (rs_world R') = src (rs_world R) @ bs \<and> rs_view A L a k' R' (cv_run L a bs cv) \<and>
    (snd cv \<noteq> Unborn \<longrightarrow> k' = k)"
proof -
  from assms(1) obtain bs where bs: "src (rs_world R') = src (rs_world R) @ bs" "rs_inv A L R'"
    "live (rs_reader R') = live (rs_reader R)" "abs_sys R' = dx_run L (live (rs_reader R)) bs (abs_sys R)"
    by (auto simp: simulates_def)
  from assms(2) have f: "follows (live (rs_reader R)) a k (abs_sys R) (snd cv)" "dx_phase (abs_sys R) = fst cv"
    by (simp_all add: rs_view_def)
  from follows_run [OF f, of L bs] bs show ?thesis by (auto simp: rs_view_def)
qed

text \<open>What \<open>add_connection\<close> does to the abstract reader.\<close>

lemma add_conn_ok:
  assumes laws: "reader_laws B A view src" and inv: "rs_inv A L R"
    and eq: "SharedReader_add_connection A (rs_reader R) b (rs_world R) = (res, s', w')"
  defines "R' \<equiv> R\<lparr>rs_reader := s', rs_world := w'\<rparr>"
  shows "src w' = src (rs_world R)" and "rs_inv A L R'"
    and "(\<exists>e. res = Inl e) \<and> s' = rs_reader R \<or>
      res = Inr \<lparr>ri_entry = lr_next (rs_reader R)\<rparr> \<and> abs_sys R' = dx_add b (abs_sys R) \<and> live s' = live (rs_reader R) \<and>
      lr_map (rs_reader R) b = None"
proof -
  let ?s = "rs_reader R"
  have pre: "lr_inv ?s" "taken_ok (rs_taken R) ?s" "listening A L ?s" using inv by (simp_all add: rs_inv_def)
  have ins: "ReaderMut_insert A ?s b Noop (rs_world R) = (res, s', w')" using eq by (simp add: SharedReader_add_connection_def)
  have all: "src w' = src (rs_world R) \<and> rs_inv A L R' \<and> ((\<exists>e. res = Inl e) \<and> s' = ?s \<or>
      res = Inr \<lparr>ri_entry = lr_next ?s\<rparr> \<and> abs_sys R' = dx_add b (abs_sys R) \<and> live s' = live ?s \<and> lr_map ?s b = None)"
  proof (cases "lr_map ?s b")
    case (Some i)
    then have "s' = ?s" "w' = rs_world R" "\<exists>e. res = Inl e" using ins by (auto simp: ReaderMut_insert_def)
    then show ?thesis using inv by (simp add: R'_def)
  next
    case None
    have h: "heap_inv ?s" using pre(1) by (simp add: lr_inv_def)
    note ok = insert_ok [OF laws h None ins]
    show ?thesis
    proof (cases res)
      case (Inl e)
      with ok(1,2) inv show ?thesis by (auto simp: R'_def rs_inv_def)
    next
      case (Inr ri)
      obtain x where s': "heap_inv s'" "ri_entry ri = lr_next ?s" "lr_state s' = lr_state ?s"
        "lr_map s' = (lr_map ?s)(b \<mapsto> lr_next ?s)" "lr_next s' = lr_next ?s + 1" "live s' = live ?s"
        "upgrade s' = (upgrade ?s)(lr_next ?s \<mapsto> x)" "rd_contents (re_buffer x) = []"
        using ok(3) [OF Inr] by blast
      have "abs_reader (rs_taken R) s' = dx_add b (abs_reader (rs_taken R) ?s)"
        using s' pre(2) by (auto simp: abs_reader_def dx_add_def abs_got_def taken_ok_def fun_eq_iff)
      moreover have "rs_inv A L R'"
        using pre s' by (auto simp: rs_inv_def R'_def lr_inv_def taken_ok_def listening_def sending_def)
      moreover have "ri = \<lparr>ri_entry = lr_next ?s\<rparr>" using s'(2) by (cases ri) simp
      ultimately show ?thesis using ok(1) Inr s'(6) None by (simp add: R'_def abs_sys_def)
    qed
  qed
  show "src w' = src (rs_world R)" "rs_inv A L R'" using all by blast+
  show "(\<exists>e. res = Inl e) \<and> s' = ?s \<or>
      res = Inr \<lparr>ri_entry = lr_next ?s\<rparr> \<and> abs_sys R' = dx_add b (abs_sys R) \<and> live s' = live ?s \<and> lr_map ?s b = None"
    using all by blast
qed

lemma drop_conn_ok:
  fixes ri :: reader_inner
  assumes "rs_inv A L R"
  defines "R' \<equiv> R\<lparr>rs_reader := ReaderInner_drop (rs_reader R) ri\<rparr>"
  shows "rs_inv A L R'" and "abs_sys R' = dx_restrict (live (rs_reader R')) (abs_sys R)"
    and "live (rs_reader R') i \<Longrightarrow> live (rs_reader R) i"
proof -
  let ?s = "rs_reader R" and ?s' = "ReaderInner_drop (rs_reader R) ri"
  have h: "heap_inv ?s" using assms(1) by (simp add: rs_inv_def lr_inv_def)
  have same: "lr_state ?s' = lr_state ?s" "lr_next ?s' = lr_next ?s" by (simp_all add: ReaderInner_drop_def split: option.split)
  then have "sending ?s' = sending ?s" by (simp add: sending_def)
  then show "rs_inv A L R'"
    using assms(1) same ReaderInner_drop_ok(1) [OF h] by (cases L) (auto simp: rs_inv_def R'_def lr_inv_def taken_ok_def listening_def)
  show "abs_sys R' = dx_restrict (live (rs_reader R')) (abs_sys R)"
    using ReaderInner_drop_ok(2) [OF h] by (simp add: abs_sys_def R'_def)
  show "live (rs_reader R') i \<Longrightarrow> live ?s i"
    by (auto simp: R'_def live_def ReaderInner_drop_def split: option.splits if_splits)
qed

lemma read_step_view:
  assumes laws: "reader_laws B A view src" "budget_laws A fuel" and step: "read_step B A view mine R R'" and a: "a \<notin> mine"
    and v: "rs_view A L a k R cv"
  shows "\<exists>bs k'. src (rs_world R') = src (rs_world R) @ bs \<and> rs_view A L a k' R' (cv_run L a bs cv) \<and>
    (snd cv \<noteq> Unborn \<longrightarrow> k' = k)"
proof -
  have inv: "rs_inv A L R" using v by (simp add: rs_view_def)
  have still: ?thesis if "src (rs_world R') = src (rs_world R)" "rs_view A L a k R' cv"
    using that by (intro exI [of _ "[]"]) auto
  from step show ?thesis
  proof (cases rule: read_step.cases)
    case (poll_shared cx s' w' wk)
    then show ?thesis using simulates_view [OF poll_shared_simulates [OF laws inv] v] by simp
  next
    case (read_conn this arc buf cx r s' buf' w' wk bs)
    then show ?thesis using simulates_view [OF read_conn_simulates [OF laws inv] v] by simp
  next
    case (add_conn b res s' w')
    note ok = add_conn_ok [OF laws(1) inv add_conn(3)]
    have b: "b \<noteq> a" using a add_conn(2) by blast
    have f: "follows (live (rs_reader R)) a k (abs_sys R) (snd cv)" "dx_phase (abs_sys R) = fst cv"
      using v by (simp_all add: rs_view_def)
    have "rs_view A L a k R' cv"
      using ok(3)
    proof (elim disjE conjE)
      assume "s' = rs_reader R"
      then have "abs_sys R' = abs_sys R" by (simp add: add_conn(1) abs_sys_def)
      with f ok(2) \<open>s' = rs_reader R\<close> show ?thesis by (simp add: rs_view_def add_conn(1))
    next
      assume "abs_sys (R\<lparr>rs_reader := s', rs_world := w'\<rparr>) = dx_add b (abs_sys R)" "live s' = live (rs_reader R)"
      with f(2) follows_add [OF f(1) b] ok(2) show ?thesis by (simp add: rs_view_def add_conn(1))
    qed
    then show ?thesis using ok(1) add_conn(1) by (intro still) simp_all
  next
    case (drop_conn this arc)
    note ok = drop_conn_ok [OF inv, of this]
    have f: "follows (live (rs_reader R)) a k (abs_sys R) (snd cv)" "dx_phase (abs_sys R) = fst cv"
      using v by (simp_all add: rs_view_def)
    have R': "dx_open (abs_sys R') = dx_open (abs_sys R)" "dx_next (abs_sys R') = dx_next (abs_sys R)"
      "dx_phase (abs_sys R') = dx_phase (abs_sys R)" "\<And>i. live (rs_reader R') i \<Longrightarrow> dx_got (abs_sys R') i = dx_got (abs_sys R) i"
      unfolding drop_conn(1) by (subst ok(2), simp add: dx_restrict_def)+
    have fewer: "\<And>i. live (rs_reader R') i \<Longrightarrow> live (rs_reader R) i" using ok(3) drop_conn(1) by simp
    have "follows (live (rs_reader R')) a k (abs_sys R') (snd cv)" by (rule follows_fewer [OF f(1) fewer R'(1,2,4)])
    with f(2) R'(3) ok(1) have "rs_view A L a k R' cv" by (simp add: rs_view_def drop_conn(1))
    then show ?thesis by (intro still) (simp add: drop_conn(1))
  qed
qed

lemma read_run_view:
  assumes laws: "reader_laws B A view src" "budget_laws A fuel" and run: "(read_step B A view mine)\<^sup>*\<^sup>* R R'" and a: "a \<notin> mine"
    and v: "rs_view A L a k R cv"
  shows "\<exists>bs k'. src (rs_world R') = src (rs_world R) @ bs \<and> rs_view A L a k' R' (cv_run L a bs cv) \<and>
    (snd cv \<noteq> Unborn \<longrightarrow> k' = k)"
  using run
proof (induction rule: rtranclp_induct)
  case base
  show ?case using v by (intro exI [of _ "[]"]) auto
next
  case (step R1 R2)
  then obtain bs k1 where 1: "src (rs_world R1) = src (rs_world R) @ bs" "rs_view A L a k1 R1 (cv_run L a bs cv)"
    "snd cv \<noteq> Unborn \<longrightarrow> k1 = k" by blast
  from read_step_view [OF laws step.hyps(2) a 1(2)] obtain cs k2 where
    2: "src (rs_world R2) = src (rs_world R1) @ cs" "rs_view A L a k2 R2 (cv_run L a cs (cv_run L a bs cv))"
    "snd (cv_run L a bs cv) \<noteq> Unborn \<longrightarrow> k2 = k1" by blast
  have "snd cv \<noteq> Unborn \<longrightarrow> snd (cv_run L a bs cv) \<noteq> Unborn"
    using cv_extends_run [of cv L a bs] by (cases "snd cv") auto
  with 1 2 show ?case by (intro exI [of _ "bs @ cs"] exI [of _ k2]) auto
qed

section \<open>A fresh stream\<close>

definition read_start :: "'w \<Rightarrow> ('f, 'w) read_sys" where
  "read_start w = \<lparr>rs_reader = SharedReader_new, rs_world = w, rs_taken = (\<lambda>i. [])\<rparr>"

lemma read_start_view:
  assumes "listening A L (SharedReader_new :: 'f locked_reader)"
  shows "rs_view A L a k (read_start w :: ('f, 'w) read_sys) (InHeader [], Unborn)"
  using assms
  by (auto simp: rs_view_def follows_def read_start_def rs_inv_def lr_inv_def heap_inv_def SharedReader_new_def next_packet_def
      taken_ok_def abs_sys_def dx_wf_def)

end
