(* ===== verification/Mux_Conn.thy ===== *)
theory Mux_Conn
  imports Mux_Model Write_System Read_System
begin

text \<open>
  Opening connections: how a poll of \<open>add_connection\<close> and of \<open>accept\<close> puts the two halves together, what
  becomes of a future that is dropped, and the start of a stream.
\<close>

section \<open>Opening\<close>

text \<open>The allocator has nothing to do with the stream and its lock.\<close>

definition alloc_quiet :: "('w, 'b, 'l) reader_api \<Rightarrow> ('w \<Rightarrow> byte list) \<Rightarrow> ('w \<Rightarrow> 'g option) \<Rightarrow> bool" where
  "alloc_quiet A wire holder \<longleftrightarrow> (\<forall>n w. quiet wire holder w (snd (r_alloc A n w)))"

lemma insert_quiet:
  assumes "alloc_quiet A wire holder" and "ReaderMut_insert A s a cx w = (r, s', w')"
  shows "quiet wire holder w w'"
proof -
  obtain ok w1 where al: "r_alloc A DEFAULT_BUFFER_CAPACITY w = (ok, w1)" by fastforce
  with assms(1) have "quiet wire holder w w1" unfolding alloc_quiet_def by (metis snd_conv)
  with assms(2) al show ?thesis
    by (auto simp: ReaderMut_insert_def ReadBuffer_new_def Let_def split: option.splits if_splits bool.splits)
qed

text \<open>A future that opens a connection with address \<open>a\<close>, what it has left to send, and its lock.\<close>

fun add_ok :: "nat \<Rightarrow> ('w \<Rightarrow> 'g option) \<Rightarrow> socket_addr \<Rightarrow> ('g, 'f, 'a) add_connection_fut \<Rightarrow> 'w \<Rightarrow> bool" where
  "add_ok m holder a (AddStart b) w \<longleftrightarrow> b = a"
| "add_ok m holder a (AddHandshake wr rd h) w \<longleftrightarrow>
     WriteInner_addr wr = a \<and> wi_inv holder m wr w \<and> wi_state wr = Writing Noop Buffering \<and> wi_payload wr = [] \<and>
     h \<noteq> HandshakeDone \<and> (handshake_guard h = None \<or> holder w = handshake_guard h)"
| "add_ok m holder a AddDone w \<longleftrightarrow> False"

fun add_rest :: "('a \<Rightarrow> byte list) \<Rightarrow> ('g, 'f, 'a) add_connection_fut \<Rightarrow> byte list" where
  "add_rest rest (AddStart a) = frame a []"
| "add_rest rest (AddHandshake wr rd h) = handshake_rest rest (WriteInner_addr wr) h"
| "add_rest rest AddDone = []"

fun add_guard :: "('g, 'f, 'a) add_connection_fut \<Rightarrow> 'g option" where
  "add_guard (AddHandshake wr rd h) = handshake_guard h"
| "add_guard _ = None"

text \<open>
  What a poll leaves when \<open>todo\<close> was left to send: \<open>bs\<close> of it is out. The reader \<open>rd\<close> that was registered for the address stays in the
  future until it becomes the reading half of the connection. A failed handshake drops both halves but leaves the address in the map.
\<close>

definition add_outcome ::
  "nat \<Rightarrow> ('w \<Rightarrow> byte list) \<Rightarrow> ('w \<Rightarrow> 'g option) \<Rightarrow> ('a \<Rightarrow> byte list) \<Rightarrow> socket_addr \<Rightarrow> reader_inner \<Rightarrow>
     byte list \<Rightarrow> 'g option \<Rightarrow> 'l locked_reader \<Rightarrow> 'w \<Rightarrow> ('g, 'f) mux_connection io_result poll \<Rightarrow> ('g, 'f, 'a) add_connection_fut \<Rightarrow>
     'l locked_reader \<Rightarrow> 'w \<Rightarrow> ('g, 'f, 'a) drop_task option \<Rightarrow> bool" where
  "add_outcome m wire holder rest a rd todo o1 s w r fut' s' w' t \<longleftrightarrow>
     lr_inv s' \<and> lr_map s' = lr_map s \<and> lock_view wire holder o1 w (add_guard fut') w' \<and>
     (\<exists>bs. wire w' = wire w @ bs \<and> prefix bs todo \<and>
        (case r of
           Pending \<Rightarrow> (\<exists>wr h. fut' = AddHandshake wr rd h) \<and> add_ok m holder a fut' w' \<and> todo = bs @ add_rest rest fut' \<and> t = None \<and> s' = s
         | Ready (Inr conn) \<Rightarrow> bs = todo \<and> fut' = AddDone \<and> t = None \<and> s' = s \<and> MuxConnection_addr conn = a \<and> mc_read conn = rd \<and>
             wi_inv holder m (mc_write conn) w' \<and> wi_state (mc_write conn) = Writing Noop Buffering \<and>
             wi_payload (mc_write conn) = []
         | Ready (Inl e) \<Rightarrow> fut' = AddDone \<and> s' = ReaderInner_drop s rd \<and> (\<exists>task. t = Some task \<and> task_rest rest task = frame a [])))"

lemma ReaderInner_drop_map [simp]: "lr_map (ReaderInner_drop s rd) = lr_map s" "lr_state (ReaderInner_drop s rd) = lr_state s"
  by (simp_all add: ReaderInner_drop_def split: option.split)

text \<open>Dropping an open writer with nothing to send spawns the task that sends the empty frame.\<close>

lemma drop_idle_writer:
  assumes locks: "lock_laws W m wire holder" and wr: "wi_state wr = Writing wk Buffering"
  obtains t w' where "drop_halves W wr rd s w = (Done (Some t), ReaderInner_drop s rd, w')"
    and "quiet wire holder w w'" and "task_rest rest t = frame (WriteInner_addr wr) []" and "task_guard t = None"
  using wr that by (simp add: drop_halves_def WriteInner_drop_def PollMutex_take_token_def drop_fut_opt_def WriteInner_addr_def Let_def)

lemma add_handshake_outcome:
  assumes locks: "lock_laws W m wire holder" and laws: "write_laws W wire holder rest"
    and ok: "add_ok m holder a (AddHandshake wr rd h) w" and s: "lr_inv s"
  shows "\<exists>r fut' s' w' t. add_handshake W wr rd h s cx w = (Done r, fut', s', w', t) \<and>
    add_outcome m wire holder rest a rd (handshake_rest rest a h) (handshake_guard h) s w r fut' s' w' t"
proof -
  from ok have wr: "WriteInner_addr wr = a" "wi_inv holder m wr w" "wi_state wr = Writing Noop Buffering" "wi_payload wr = []"
    "h \<noteq> HandshakeDone" "handshake_guard h = None \<or> holder w = handshake_guard h"
    by simp_all
  obtain q h' w1 where p: "WriteInner_handshake_poll W wr h cx w = (q, h', w1)" by (metis prod_cases3)
  from handshake_poll_step [OF locks laws wr(2,4-6), of cx] p wr(1) obtain r bs
    where x: "q = Done r" "wire w1 = wire w @ bs" "prefix bs (handshake_rest rest a h)"
      "lock_view wire holder (handshake_guard h) w (handshake_guard h') w1"
      "handshake_guard h' = None \<or> holder w1 = handshake_guard h'"
      "r = Pending \<longrightarrow> h' \<noteq> HandshakeDone \<and> handshake_rest rest a h = bs @ handshake_rest rest a h'"
      "r \<noteq> Pending \<longrightarrow> h' = HandshakeDone" "r = Ready (Inr ()) \<longrightarrow> bs = handshake_rest rest a h"
    by (auto simp: handshake_step_def)
  have inv1: "wi_inv holder m wr w1" by (rule wi_inv_unlocked(2) [OF wr(2)]) (simp add: wr(3))
  note def = add_handshake_def p x(1) add_outcome_def
  consider (pend) "r = Pending" | (err) e where "r = Ready (Inl e)" | (ok) "r = Ready (Inr ())"
    by (metis poll.exhaust sum.exhaust unit.exhaust)
  then show ?thesis
  proof cases
    case pend
    with x wr inv1 s show ?thesis by (auto simp: def)
  next
    case ok
    with x wr inv1 s show ?thesis by (auto simp: def MuxConnection_new_def MuxConnection_addr_def)
  next
    case err
    obtain t w2 where d: "drop_halves W wr rd s w1 = (Done (Some t), ReaderInner_drop s rd, w2)" "quiet wire holder w1 w2"
      "task_rest rest t = frame a []"
      using drop_idle_writer [OF locks wr(3), where w = w1 and s = s and rd = rd and rest = rest] wr(1) by blast
    have "lr_inv (ReaderInner_drop s rd)" using s ReaderInner_drop_ok(1) by (auto simp: lr_inv_def)
    with err x d show ?thesis by (auto simp: def add_unwind_def quiet_def lock_view_def)
  qed
qed

lemma fresh_pipe_writer:
  "wi_inv holder (mp_write pipe) (MuxPipe_make_writer u pipe a) w" "wi_state (MuxPipe_make_writer u pipe a) = Writing Noop Buffering"
  "wi_payload (MuxPipe_make_writer u pipe a) = []" "WriteInner_addr (MuxPipe_make_writer u pipe a) = a"
  by (simp_all add: MuxPipe_make_writer_def fresh_writer)

text \<open>The handshake of a fresh writer starts without panic.\<close>

lemma fresh_handshake:
  assumes "lock_laws W (mp_write pipe) wire holder"
  obtains h wr w' where "WriteInner_handshake W (MuxPipe_make_writer u pipe a) w = Done (h, wr, w')"
    and "quiet wire holder w w'" and "\<And>rd. add_ok (mp_write pipe) holder a (AddHandshake wr rd h) w'"
    and "handshake_rest rest a h = frame a []" and "handshake_guard h = None"
proof -
  let ?wr = "MuxPipe_make_writer u pipe a"
  have m: "pm_mutex (wi_write_lock ?wr) = mp_write pipe" using fresh_pipe_writer(1) [of holder pipe u a w] by (simp add: wi_inv_def)
  have e: "PacketBuffer_is_empty (wi_buffer ?wr)"
    using fresh_pipe_writer(1) [of holder pipe u a w] fresh_pipe_writer(2,3) [of u pipe a] by (simp add: wi_inv_def wi_payload_def is_empty_payload)
  obtain f lk w' where l: "PollMutex_lock W (wi_write_lock ?wr) w = (f, lk, w')" by (metis prod_cases3)
  note q = lock_start_quiet [OF assms m l]
  have "WriteInner_handshake W ?wr w = Done (HandshakeLock f, ?wr\<lparr>wi_write_lock := lk\<rparr>, w')"
    using e l by (simp add: WriteInner_handshake_def fresh_pipe_writer(2))
  then show ?thesis
    by (rule that) (use q fresh_pipe_writer(1) [of holder pipe u a w'] fresh_pipe_writer(2-4) [of u pipe a] in
        \<open>auto simp: wi_inv_def wi_payload_def WriteInner_addr_def\<close>)
qed

lemma add_outcome_quiet:
  assumes "quiet wire holder w w1" and "add_outcome m wire holder rest a rd todo None s w1 r fut' s' w' t"
  shows "add_outcome m wire holder rest a rd todo None s w r fut' s' w' t"
  using assms by (simp add: add_outcome_def quiet_def lock_view_def)

lemma add_start_outcome:
  assumes locks: "lock_laws W (mp_write pipe) wire holder" and laws: "write_laws W wire holder rest"
    and A: "reader_laws B A view src" "alloc_quiet A wire holder" and s: "lr_inv s" and free: "lr_map s a = None"
  shows "\<exists>r fut' s' w' t. MuxPipe_add_connection W A u pipe (AddStart a) s cx w = (Done r, fut', s', w', t) \<and>
    ((\<exists>e. r = Ready (Inl e) \<and> kind e = OutOfMemory \<and> s' = s \<and> wire w' = wire w \<and> t = None) \<or>
     (\<exists>s1 e. lr_map s1 = (lr_map s)(a \<mapsto> lr_next s) \<and> upgrade s1 = (upgrade s)(lr_next s \<mapsto> e) \<and> rd_contents (re_buffer e) = [] \<and>
        add_outcome (mp_write pipe) wire holder rest a \<lparr>ri_entry = lr_next s\<rparr> (frame a []) None s1 w r fut' s' w' t))"
proof -
  obtain q s1 w1 where i: "ReaderMut_insert A s a Noop w = (q, s1, w1)" by (metis prod_cases3)
  have heap: "heap_inv s" using s by (simp add: lr_inv_def)
  note ins = insert_ok [OF A(1) heap free i]
  note q1 = insert_quiet [OF A(2) i]
  show ?thesis
  proof (cases q)
    case (Inl e)
    with i ins(2) q1 show ?thesis by (auto simp: SharedReader_add_connection_def quiet_def)
  next
    case (Inr rd)
    from ins(3) [OF Inr] s have s1: "lr_inv s1" "lr_map s1 = (lr_map s)(a \<mapsto> lr_next s)"
      "\<exists>e. upgrade s1 = (upgrade s)(lr_next s \<mapsto> e) \<and> rd_contents (re_buffer e) = []"
      by (auto simp: lr_inv_def)
    have rd: "rd = \<lparr>ri_entry = lr_next s\<rparr>" using ins(3) [OF Inr] by (cases rd) simp
    obtain h wr w2 where h: "WriteInner_handshake W (MuxPipe_make_writer u pipe a) w1 = Done (h, wr, w2)"
      "quiet wire holder w1 w2" "\<And>rd. add_ok (mp_write pipe) holder a (AddHandshake wr rd h) w2"
      "handshake_rest rest a h = frame a []" "handshake_guard h = None"
      by (rule fresh_handshake [OF locks, where u = u and a = a and w = w1 and rest = rest]) blast
    from add_handshake_outcome [OF locks laws h(3) s1(1), of rd cx] obtain r fut' s' w' t
      where p: "add_handshake W wr rd h s1 cx w2 = (Done r, fut', s', w', t)"
        "add_outcome (mp_write pipe) wire holder rest a rd (frame a []) None s1 w2 r fut' s' w' t"
      using h(4,5) by auto
    have "MuxPipe_add_connection W A u pipe (AddStart a) s cx w = (Done r, fut', s', w', t)"
      using i Inr h(1) p(1) by (simp add: SharedReader_add_connection_def)
    moreover have "add_outcome (mp_write pipe) wire holder rest a rd (frame a []) None s1 w r fut' s' w' t"
      by (rule add_outcome_quiet [OF quiet_trans [OF q1 h(2)] p(2)])
    ultimately show ?thesis using s1 rd by blast
  qed
qed

section \<open>Accepting\<close>

text \<open>
  The receiving end of the channel does not touch the stream, and it is not closed as long as the
  shared reader has the sender.
\<close>

definition recv_laws :: "('w, 'r) channel_api \<Rightarrow> ('w \<Rightarrow> byte list) \<Rightarrow> bool" where
  "recv_laws X src \<longleftrightarrow>
     (\<forall>w. src (snd (ch_recv_async X w)) = src w) \<and> (\<forall>f w. src (ch_drop_recv X f w) = src w) \<and>
     (\<forall>f cx w. src (snd (snd (ch_poll_recv X f cx w))) = src w \<and> fst (ch_poll_recv X f cx w) \<noteq> Ready (Inl ()))"

lemma recv_lawsD:
  assumes "recv_laws X src"
  shows "ch_recv_async X w = (f, w') \<Longrightarrow> src w' = src w" and "src (ch_drop_recv X f w) = src w"
    and "ch_poll_recv X f cx w = (r, f', w') \<Longrightarrow> src w' = src w"
    and "ch_poll_recv X f cx w = (r, f', w') \<Longrightarrow> r \<noteq> Ready (Inl ())"
  using assms unfolding recv_laws_def by (metis fst_conv snd_conv)+

text \<open>
  Documented behaviour of \<open>recv_async\<close>: \<open>queue\<close> are the connections that wait in the channel. A poll takes the first of them,
  and is pending only if there is none; making and dropping the future takes nothing.
\<close>

definition queue_laws :: "('w, 'r) channel_api \<Rightarrow> ('w \<Rightarrow> (socket_addr \<times> reader_inner) list) \<Rightarrow> bool" where
  "queue_laws X queue \<longleftrightarrow>
     (\<forall>w. queue (snd (ch_recv_async X w)) = queue w) \<and> (\<forall>f w. queue (ch_drop_recv X f w) = queue w) \<and>
     (\<forall>f cx w r f' w'. ch_poll_recv X f cx w = (r, f', w') \<longrightarrow>
        (case queue w of [] \<Rightarrow> r = Pending \<and> queue w' = [] | m # ms \<Rightarrow> r = Ready (Inr m) \<and> queue w' = ms))"

lemma queue_lawsD:
  assumes "queue_laws X queue"
  shows "ch_recv_async X w = (f, w') \<Longrightarrow> queue w' = queue w" and "queue (ch_drop_recv X f w) = queue w"
    and "ch_poll_recv X f cx w = (r, f', w') \<Longrightarrow> queue w = [] \<Longrightarrow> r = Pending \<and> queue w' = []"
    and "ch_poll_recv X f cx w = (r, f', w') \<Longrightarrow> queue w = m # ms \<Longrightarrow> r = Ready (Inr m) \<and> queue w' = ms"
  using assms unfolding queue_laws_def by (metis snd_conv, blast, fastforce+)

text \<open>The answer of the channel to a future of \<open>accept\<close>, which makes its receiving future when it is first polled.\<close>

fun accept_recv :: "('w, 'r) channel_api \<Rightarrow> 'r accept_fut \<Rightarrow> waker \<Rightarrow> 'w \<Rightarrow> ((unit + socket_addr \<times> reader_inner) poll \<times> 'r \<times> 'w) option" where
  "accept_recv X AcceptStart cx w = (case ch_recv_async X w of (f, w') \<Rightarrow> Some (ch_poll_recv X f cx w'))"
| "accept_recv X (AcceptWait f) cx w = Some (ch_poll_recv X f cx w)"
| "accept_recv X AcceptDone cx w = None"

text \<open>
  A connection that waits is taken out of the channel and returned, and nothing is read; otherwise the shared reader is polled, and its
  answer is that of \<open>accept\<close>.
\<close>

definition accept_outcome ::
  "'b readbuf_api \<Rightarrow> ('w, 'b, 'l) reader_api \<Rightarrow> ('w, 'r) channel_api \<Rightarrow> ('w \<Rightarrow> (socket_addr \<times> reader_inner) list) \<Rightarrow> (nat \<Rightarrow> byte list) \<Rightarrow> bool \<Rightarrow>
     ('w \<Rightarrow> byte list) \<Rightarrow> ('g, 'f) write_inner \<Rightarrow> mux_listener \<Rightarrow> 'r accept_fut \<Rightarrow> 'l locked_reader \<Rightarrow> waker \<Rightarrow> 'w \<Rightarrow>
     ('g, 'f) mux_connection io_result poll \<Rightarrow> 'r accept_fut \<Rightarrow> 'l locked_reader \<Rightarrow> 'w \<Rightarrow> waker list \<Rightarrow> bool" where
  "accept_outcome B A X queue taken L src u l fut s cx w r fut' s' w' wk \<longleftrightarrow>
     (case queue w of
        (b, rd) # ms \<Rightarrow> r = Ready (Inr \<lparr>mc_write = MuxPipe_make_writer u (ml_pipe l) b, mc_read = rd\<rparr>) \<and> fut' = AcceptDone \<and>
          s' = s \<and> src w' = src w \<and> queue w' = ms \<and> wk = []
      | [] \<Rightarrow> (\<exists>f1 w1 q w2 bs. accept_recv X fut cx w = Some (Pending, f1, w1) \<and>
          SharedReader_poll B A s cx w1 = Some (Done q, s', w2, wk) \<and> src w2 = src w @ bs \<and> poll_outcome taken L s bs q s' \<and>
          (case q of
             Pending \<Rightarrow> r = Pending \<and> fut' = AcceptWait f1 \<and> w' = w2
           | Ready e \<Rightarrow> r = Ready (Inl e) \<and> fut' = AcceptDone \<and> w' = ch_drop_recv X f1 w2)))"

lemma accept_wait_outcome:
  assumes X: "recv_laws X src" "queue_laws X queue" and laws: "reader_laws B A view src" and budget: "budget_laws A fuel"
    and s: "lr_inv s" "taken_ok taken s" "listening A L s"
  shows "\<exists>r fut' s' w' wk. accept_wait B A X u l fut s cx w = Some (Done r, fut', s', w', wk) \<and>
    lr_inv s' \<and> listening A L s' \<and> taken_ok taken s' \<and>
    accept_outcome B A X queue taken L src u l (AcceptWait fut) s cx w r fut' s' w' wk"
proof -
  obtain q f' w1 where p: "ch_poll_recv X fut cx w = (q, f', w1)" by (metis prod_cases3)
  note src1 = recv_lawsD(3) [OF X(1) p]
  show ?thesis
  proof (cases "queue w")
    case (Cons m ms)
    obtain b rd where m: "m = (b, rd)" by fastforce
    with queue_lawsD(4) [OF X(2) p Cons] have q: "q = Ready (Inr (b, rd))" "queue w1 = ms" by simp_all
    let ?c = "\<lparr>mc_write = MuxPipe_make_writer u (ml_pipe l) b, mc_read = rd\<rparr>"
    have "accept_wait B A X u l fut s cx w = Some (Done (Ready (Inr ?c)), AcceptDone, s, ch_drop_recv X f' w1, [])"
      using p q(1) by (simp add: accept_wait_def MuxConnection_new_def)
    then show ?thesis
      using s src1 q(2) recv_lawsD(2) [OF X(1)] queue_lawsD(2) [OF X(2)] Cons m by (simp add: accept_outcome_def)
  next
    case Nil
    with queue_lawsD(3) [OF X(2) p] have q: "q = Pending" by simp
    from reader_poll_ok [OF laws budget s, of cx w1 "[]"] obtain r s' w' wk bs
      where r: "SharedReader_poll B A s cx w1 = Some (Done r, s', w', wk)" "src w' = src w1 @ bs" "lr_inv s'"
        "listening A L s'" "taken_ok taken s'" "poll_outcome taken L s bs r s'"
      by (auto simp: SharedReader_poll_def)
    then show ?thesis
      using p q src1 Nil by (cases r) (auto simp: accept_wait_def accept_outcome_def)
  qed
qed

end
