(* ===== verification/Mux_Demux.thy ===== *)
theory Mux_Demux
  imports Write_System Read_System "HOL-Library.Sublist"
begin

text \<open>
  The two sides together: what a connection of the writing end has sent over a stream, in part or
  completely, and what the connection of the same address at the reading end makes of it.
\<close>

section \<open>What the writers have sent\<close>

text \<open>Whether a writer shook hands.\<close>

fun actor_shook :: "('g, 'f, 'a) actor \<Rightarrow> bool option" where
  "actor_shook (ActConn f c) = Some f"
| "actor_shook (ActTask f a t) = Some f"
| "actor_shook (ActGone f a) = Some f"
| "actor_shook c = None"

text \<open>Whether it was dropped before it was shut down and has left a task.\<close>

fun actor_dropped :: "('g, 'f, 'a) actor \<Rightarrow> bool" where
  "actor_dropped (ActTask f a t) \<longleftrightarrow> True"
| "actor_dropped c \<longleftrightarrow> False"

text \<open>
  A writer that has sent the frames \<open>ps\<close>, the last of them perhaps in part, will end up with the session
  \<open>ps @ qs\<close>, and its bytes are accepted ones in their order. Only a connection that was dropped can lose bytes
  and close; one that has been shut down has sent all it accepted.
\<close>

definition actor_sent :: "('g, 'f, 'a) actor \<Rightarrow> offer list \<Rightarrow> byte list list \<Rightarrow> bool" where
  "actor_sent c es ps \<longleftrightarrow> (\<forall>f. actor_shook c = Some f \<longrightarrow>
     (\<exists>qs lost. accepted es (concat (ps @ qs) @ lost) \<and>
        (session f (ps @ qs) \<or> ended_session f (ps @ qs) \<and> (\<not> actor_dropped c \<longrightarrow> lost = []))))"

lemma conn_in_flight:
  assumes "wi_inv holder m c w" and "wi_in_flight c \<noteq> []"
  shows "\<exists>Y. wi_in_flight c @ Y = frame (WriteInner_addr c) (wi_payload c)" and "wi_state c \<noteq> Shutdown ShutDone"
proof -
  have "\<exists>n. wi_in_flight c = take n (frame (WriteInner_addr c) (wi_payload c))"
    using assms
    by (auto simp: wi_inv_def wi_in_flight_def wi_payload_def WriteInner_addr_def PacketBuffer_addr_def sh_inv_def in_flight_def
        sh_in_flight_def split: write_pipe_state.splits write_state.splits shutdown_state.splits)
  then show "\<exists>Y. wi_in_flight c @ Y = frame (WriteInner_addr c) (wi_payload c)" by (metis append_take_drop_id)
  show "wi_state c \<noteq> Shutdown ShutDone" using assms(2) by (auto simp: wi_in_flight_def)
qed

text \<open>The part a writer has on the wire can be completed to frames of its session.\<close>

lemma actor_completes:
  assumes ok: "actor_ok m holder rest c w bs fs es"
  shows "\<exists>Y ps. bs @ Y = frames (tagged (actor_addr c) ps) \<and> (\<forall>p \<in> set ps. length p \<le> 65535) \<and> (bs = [] \<longrightarrow> Y = [] \<and> ps = []) \<and>
    actor_sent c es (fs @ ps)"
proof (cases c)
  case (ActConn f d)
  then have d: "wi_inv holder m d w" "bs = wi_in_flight d" "accepted es (concat fs @ wi_payload d)"
    "if wi_state d = Shutdown ShutDone then ended_session f fs else session f fs"
    using ok by simp_all
  show ?thesis
  proof (cases "bs = []")
    case True
    have "wi_payload d = []" if "wi_state d = Shutdown ShutDone"
      using d(1) that by (simp add: wi_inv_def sh_inv_def wi_payload_def)
    then have "actor_sent c es fs"
      using d(3,4) ActConn unfolding actor_sent_def
      by (auto intro!: exI [of _ "[]"] exI [of _ "wi_payload d"] split: if_splits)
    with True show ?thesis by (intro exI [of _ "[]"]) simp
  next
    case False
    then obtain Y where Y: "bs @ Y = frame (WriteInner_addr d) (wi_payload d)" and open1: "session f fs"
      using conn_in_flight [OF d(1)] d(2,4) by auto
    note len = wi_inv_payload [OF d(1)]
    have "session f (fs @ [wi_payload d]) \<or> ended_session f (fs @ [wi_payload d])"
      using open1 len session_append [OF open1, of "[wi_payload d]"] by (cases "wi_payload d = []") (auto simp: ended_session_def)
    then have "actor_sent c es (fs @ [wi_payload d])"
      using d(3) ActConn unfolding actor_sent_def by (auto intro!: exI [of _ "[]"])
    with False Y len ActConn show ?thesis by (intro exI [of _ Y] exI [of _ "[wi_payload d]"]) simp
  qed
next
  case (ActTask f a t)
  with ok obtain ps lost where t: "bs @ task_rest rest t = frames (tagged a ps)" "accepted es (concat fs @ concat ps @ lost)"
    "\<forall>p \<in> set ps. length p \<le> 65535" "ended_session f (fs @ ps)"
    by auto
  show ?thesis
  proof (cases "bs = []")
    case True
    have "actor_sent c es fs" using t ActTask by (auto simp: actor_sent_def)
    with True show ?thesis by (intro exI [of _ "[]"]) simp
  next
    case False
    have "actor_sent c es (fs @ ps)"
      using t(2,4) ActTask by (auto simp: actor_sent_def intro!: exI [of _ "[]"] exI [of _ lost])
    with False t(1,3) ActTask show ?thesis by (intro exI [of _ "task_rest rest t"] exI [of _ ps]) simp
  qed
next
  case (ActShake d h)
  with ok have "bs @ handshake_rest rest (WriteInner_addr d) h = frame (WriteInner_addr d) []" by simp
  moreover have "actor_sent c es ps" for ps using ActShake by (simp add: actor_sent_def)
  ultimately show ?thesis
    using ActShake
    by (intro exI [of _ "if bs = [] then [] else handshake_rest rest (WriteInner_addr d) h"] exI [of _ "if bs = [] then [] else [[]]"])
      simp
next
  case (ActGone f a)
  with ok obtain lost where "accepted es (concat fs @ lost)" "session f fs \<or> ended_session f fs \<and> lost = []" and bs: "bs = []"
    by auto
  then have "actor_sent c es fs" using ActGone by (auto simp: actor_sent_def intro!: exI [of _ "[]"] exI [of _ lost])
  with bs show ?thesis by (intro exI [of _ "[]"]) simp
qed (use ok in \<open>auto simp: actor_sent_def\<close>)

lemma log_completes:
  assumes fr: "wire_system.framed wire holder m rest F bs S"
  obtains G Y where "wire (sy_world S) @ Y = log_bytes actor_addr (sy_actors S) (F @ G)"
    and "\<forall>f \<in> set (F @ G). fst f \<in> dom (sy_actors S) \<and> length (snd f) \<le> 65535"
    and "\<forall>i c. sy_actors S i = Some c \<longrightarrow> actor_sent c (sy_events S i) (share i (F @ G))"
    and "holder (sy_world S) = None \<longrightarrow> G = [] \<and> Y = []"
proof (cases "holder (sy_world S)")
  case None
  note F = wire_system.framedD [OF fr]
  have "actor_sent c (sy_events S i) (share i F)" if "sy_actors S i = Some c" for i c
    using actor_completes [OF F(3) [OF that]] F(5) None by auto
  with F(1,2,5) None show ?thesis by (intro that [of "[]" "[]"]) auto
next
  case (Some g)
  note F = wire_system.framedD [OF fr]
  from F(6) Some obtain j d where j: "sy_actors S j = Some d" "actor_guard d = Some g" by auto
  have okd: "actor_ok m holder rest d (sy_world S) bs (share j F) (sy_events S j)" using F(3) [OF j(1)] j(2) by simp
  from actor_completes [OF okd] obtain Y ps where ps: "bs @ Y = frames (tagged (actor_addr d) ps)" "\<forall>p \<in> set ps. length p \<le> 65535"
    "actor_sent d (sy_events S j) (share j F @ ps)"
    by blast
  have others: "actor_sent c (sy_events S i) (share i F)" if c: "sy_actors S i = Some c" "i \<noteq> j" for i c
  proof -
    have "actor_guard c = None" using F(4) [OF c(1) j(1)] c(2) j(2) by (cases "actor_guard c") auto
    with F(3) [OF c(1)] have "actor_ok m holder rest c (sy_world S) [] (share i F) (sy_events S i)" by simp
    from actor_completes [OF this] show ?thesis by auto
  qed
  show ?thesis
  proof (rule that [of Y "map (Pair j) ps"])
    show "wire (sy_world S) @ Y = log_bytes actor_addr (sy_actors S) (F @ map (Pair j) ps)"
      using F(1) ps(1) log_bytes_one [where cs = "sy_actors S" and addr = actor_addr and fs = ps, OF j(1)] by simp
    show "\<forall>f \<in> set (F @ map (Pair j) ps). fst f \<in> dom (sy_actors S) \<and> length (snd f) \<le> 65535"
      using F(2) j(1) ps(2) by auto
    show "\<forall>i c. sy_actors S i = Some c \<longrightarrow> actor_sent c (sy_events S i) (share i (F @ map (Pair j) ps))"
    proof (intro allI impI)
      fix i c assume "sy_actors S i = Some c"
      then show "actor_sent c (sy_events S i) (share i (F @ map (Pair j) ps))"
        using others [of i c] ps(3) j(1) by (cases "i = j") simp_all
    qed
  qed (use Some in simp)
qed

text \<open>The frames of the only writer with address \<open>a\<close> are its share of the log.\<close>

lemma log_frames_of:
  assumes "\<forall>f \<in> set F. fst f \<in> dom cs" and "cs i = Some c" and "addr c = a"
    and "\<forall>j d. cs j = Some d \<longrightarrow> addr d = a \<longrightarrow> j = i"
  shows "frames_of a (map (\<lambda>(j, p). (addr (the (cs j)), p)) F) = map (Pair a) (share i F)"
  using assms(1)
proof (induction F)
  case (Cons f F)
  obtain j p where f: "f = (j, p)" by fastforce
  with Cons.prems obtain d where d: "cs j = Some d" by auto
  have "addr d = a \<longleftrightarrow> j = i" using d assms(2-4) by (metis option.inject)
  moreover have "frames_of a (map (\<lambda>(j, p). (addr (the (cs j)), p)) F) = map (Pair a) (share i F)"
    by (rule Cons.IH) (use Cons.prems in simp)
  ultimately show ?case using d by (simp add: f share_def)
qed simp

lemma log_no_frames_of:
  assumes "\<forall>f \<in> set F. fst f \<in> dom cs" and "\<forall>j d. cs j = Some d \<longrightarrow> addr d \<noteq> a"
  shows "frames_of a (map (\<lambda>(j, p). (addr (the (cs j)), p)) F) = []"
  using assms by (fastforce simp: filter_empty_conv)

section \<open>From writer to reader\<close>

text \<open>What a session, complete or not, is to the reading end.\<close>

lemma session_view:
  assumes "session f ps" and "f \<longrightarrow> L"
  shows "fold (cv_frame L a) (map (Pair a) ps) (if f then Unborn else Opened []) = Opened (concat ps)"
proof -
  from assms(1) obtain ds where ds: "ps = (if f then [[]] else []) @ ds" "proper_frames ds" by (auto simp: session_def)
  then have "\<forall>p \<in> set ds. p \<noteq> []" by (simp add: proper_frames_def)
  from cv_data_frames [OF this, of L a "[]"] ds(1) assms(2) show ?thesis by (cases f) (simp_all add: cv_frame_def)
qed

lemma ended_session_view:
  assumes "ended_session f ps" and "f \<longrightarrow> L"
  shows "fold (cv_frame L a) (map (Pair a) ps) (if f then Unborn else Opened []) = Ended (concat ps)"
proof -
  from assms(1) obtain ds where ds: "ps = ds @ [[]]" "session f ds" by (auto simp: ended_session_def)
  with session_view [OF ds(2) assms(2), of a] show ?thesis by (simp add: cv_frame_def)
qed

text \<open>Whatever part of the wire the reading end has seen, its view can still become the session.\<close>

lemma lagging_view:
  assumes G: "xs @ Z = frames G" "\<forall>f \<in> set G. length (snd f) \<le> 65535" "frames_of a G = map (Pair a) ps"
  shows "cv_extends (snd (cv_run L a xs (InHeader [], st))) (fold (cv_frame L a) (map (Pair a) (ps @ qs)) st)"
proof -
  let ?cv = "cv_run L a xs (InHeader [], st)"
  have "cv_run L a Z ?cv = cv_run L a (frames G) (InHeader [], st)" using G(1) by (metis fold_append o_apply)
  also have "\<dots> = (InHeader [], fold (cv_frame L a) (map (Pair a) ps) st)"
    using cv_run_frames [OF G(2), of L a st] cv_frames_of [of L a G st] G(3) by simp
  finally have "cv_extends (snd ?cv) (fold (cv_frame L a) (map (Pair a) ps) st)"
    using cv_extends_run [of ?cv L a Z] by simp
  moreover have "cv_extends (fold (cv_frame L a) (map (Pair a) ps) st) (fold (cv_frame L a) (map (Pair a) (ps @ qs)) st)"
    using cv_extends_frames by simp
  ultimately show ?thesis by (rule cv_extends_trans)
qed

text \<open>The only writer of an address, and a reader that has seen the part \<open>xs\<close> of the wire.\<close>

lemma sent_view:
  assumes fr: "wire_system.framed wire holder m rest F bs S" and c: "sy_actors S i = Some c" "actor_addr c = a" "actor_shook c = Some f"
    and only: "\<forall>j d. sy_actors S j = Some d \<longrightarrow> actor_addr d = a \<longrightarrow> j = i" and L: "f \<longrightarrow> L"
    and lag: "xs @ Z = wire (sy_world S)"
  shows "\<exists>g lost. accepted (sy_events S i) (g @ lost) \<and>
    (case snd (cv_run L a xs (InHeader [], if f then Unborn else Opened [])) of
       Unborn \<Rightarrow> True | Opened g' \<Rightarrow> g' = g | Ended g' \<Rightarrow> g' = g \<and> (\<not> actor_dropped c \<longrightarrow> lost = []) | Reopened \<Rightarrow> False)"
proof -
  obtain G Y where G: "wire (sy_world S) @ Y = log_bytes actor_addr (sy_actors S) (F @ G)"
    "\<forall>f \<in> set (F @ G). fst f \<in> dom (sy_actors S) \<and> length (snd f) \<le> 65535"
    "\<forall>i c. sy_actors S i = Some c \<longrightarrow> actor_sent c (sy_events S i) (share i (F @ G))"
    by (rule log_completes [OF fr]) blast
  let ?fs = "map (\<lambda>(j, p). (actor_addr (the (sy_actors S j)), p)) (F @ G)" and ?ps = "share i (F @ G)"
  let ?born = "if f then Unborn else Opened []"
  let ?st = "snd (cv_run L a xs (InHeader [], ?born))"
  have fs: "xs @ Z @ Y = frames ?fs" using G(1) lag by (simp add: log_bytes_def flip: append.assoc)
  have len: "\<forall>f \<in> set ?fs. length (snd f) \<le> 65535" using G(2) by (simp only: set_map ball_simps) (simp add: case_prod_beta)
  have of_a: "frames_of a ?fs = map (Pair a) ?ps"
    by (rule log_frames_of [OF _ c(1,2) only]) (use G(2) in blast)
  from G(3) [rule_format, OF c(1)] c(3) obtain qs lost where q: "accepted (sy_events S i) (concat (?ps @ qs) @ lost)"
    "session f (?ps @ qs) \<or> ended_session f (?ps @ qs) \<and> (\<not> actor_dropped c \<longrightarrow> lost = [])"
    unfolding actor_sent_def by blast
  define rs where "rs = ?ps @ qs"
  define fin where "fin = fold (cv_frame L a) (map (Pair a) rs) ?born"
  have ext: "cv_extends ?st fin" using lagging_view [OF fs len of_a] unfolding fin_def rs_def .
  have final: "fin = Opened (concat rs) \<or> fin = Ended (concat rs) \<and> (\<not> actor_dropped c \<longrightarrow> lost = [])"
    using q(2) session_view [OF _ L, of rs] ended_session_view [OF _ L, of rs] unfolding fin_def rs_def by blast
  note acc = q(1) [folded rs_def]
  show ?thesis
  proof (cases ?st)
    case (Opened g)
    with ext final obtain h where "concat rs = g @ h" by auto
    with acc Opened show ?thesis by (intro exI [of _ g] exI [of _ "h @ lost"]) simp
  next
    case (Ended g)
    with ext final have "concat rs = g" "\<not> actor_dropped c \<longrightarrow> lost = []" by auto
    with acc Ended show ?thesis by (intro exI [of _ g] exI [of _ lost]) simp
  next
    case Unborn
    with acc show ?thesis by (intro exI [of _ "concat rs"] exI [of _ lost]) simp
  qed (use ext final in auto)
qed

text \<open>
  A connection that the reading end has seen open is followed from then on: what its reader gets is what the
  writer accepted, in order, and when it is closed the writer has closed it.
\<close>

definition got_part :: "('g, 'f, 'a) actor \<Rightarrow> offer list \<Rightarrow> socket_addr \<Rightarrow> ('l, 'v) read_sys \<Rightarrow> nat \<Rightarrow> bool" where
  "got_part c es a R k \<longleftrightarrow>
     (\<exists>rest. accepted es (abs_got (rs_taken R) (rs_reader R) k @ rest) \<and>
        (lr_map (rs_reader R) a = Some k \<or> lr_map (rs_reader R) a = None \<and> k \<notin> ran (lr_map (rs_reader R)) \<and>
           (\<not> actor_dropped c \<longrightarrow> rest = [])))"

lemma followed_part:
  fixes R :: "('l, 'v) read_sys"
  assumes fr: "wire_system.framed wire holder m rest F bs S" and c: "sy_actors S i = Some c" "actor_addr c = a" "actor_shook c = Some f"
    and only: "\<forall>j d. sy_actors S j = Some d \<longrightarrow> actor_addr d = a \<longrightarrow> j = i" and L: "f \<longrightarrow> L"
    and lag: "prefix (src (rs_world R)) (wire (sy_world S))"
    and v: "rs_view A L a k R (cv_run L a (src (rs_world R)) (InHeader [], if f then Unborn else Opened []))"
    and born: "snd (cv_run L a (src (rs_world R)) (InHeader [], if f then Unborn else Opened [])) \<noteq> Unborn"
    and live: "live (rs_reader R) k"
  shows "got_part c (sy_events S i) a R k"
proof -
  let ?st = "snd (cv_run L a (src (rs_world R)) (InHeader [], if f then Unborn else Opened []))"
  from lag obtain Z where Z: "src (rs_world R) @ Z = wire (sy_world S)" by (auto simp: prefix_def)
  from sent_view [OF fr c only L Z] obtain g lost where g: "accepted (sy_events S i) (g @ lost)"
    "case ?st of Unborn \<Rightarrow> True | Opened g' \<Rightarrow> g' = g | Ended g' \<Rightarrow> g' = g \<and> (\<not> actor_dropped c \<longrightarrow> lost = []) | Reopened \<Rightarrow> False"
    by blast
  have f: "follows (live (rs_reader R)) a k (abs_sys R) ?st" using v by (simp add: rs_view_def)
  show ?thesis
    using g f born live by (cases ?st) (auto simp: got_part_def follows_def abs_sys_def intro!: exI [of _ lost])
qed

text \<open>A connection that the reading end opened itself, before the writer of its address was there.\<close>

lemma opened_here:
  fixes R1 :: "('l, 'v) read_sys"
  assumes fr: "wire_system.framed wire holder m rest F bs S" and none: "\<forall>j d. sy_actors S j = Some d \<longrightarrow> actor_addr d \<noteq> a"
    and R: "reader_laws B A view src" "budget_laws A fuel" "listening A L (SharedReader_new :: 'l locked_reader)" "a \<notin> mine" "src v = []"
    and run: "(read_step B A view mine)\<^sup>*\<^sup>* (read_start v) R1" and lag: "prefix (src (rs_world R1)) (wire (sy_world S))"
    and add: "SharedReader_add_connection A (rs_reader R1) a (rs_world R1) = (Inr ri, s', w')"
  defines "R2 \<equiv> R1\<lparr>rs_reader := s', rs_world := w'\<rparr>"
  shows "rs_view A L a (ri_entry ri) R2 (cv_run L a (src (rs_world R2)) (InHeader [], Opened []))"
proof -
  let ?xs = "src (rs_world R1)"
  from read_run_view [OF R(1,2) run R(4) read_start_view [OF R(3)]] obtain k1
    where k1: "rs_view A L a k1 R1 (cv_run L a ?xs (InHeader [], Unborn))"
    using R(5) by (auto simp: read_start_def)
  then have inv: "rs_inv A L R1" and f: "follows (live (rs_reader R1)) a k1 (abs_sys R1) (snd (cv_run L a ?xs (InHeader [], Unborn)))"
    and ph: "dx_phase (abs_sys R1) = fst (cv_run L a ?xs (InHeader [], Unborn))"
    by (simp_all add: rs_view_def)
  note ok = add_conn_ok [OF R(1) inv add]
  have ri: "ri_entry ri = dx_next (abs_sys R1)" and abs: "abs_sys R2 = dx_add a (abs_sys R1)" and lv: "live s' = live (rs_reader R1)"
    using ok(3) by (auto simp: R2_def abs_sys_def)
  obtain G Y where G: "wire (sy_world S) @ Y = log_bytes actor_addr (sy_actors S) (F @ G)"
    "\<forall>f \<in> set (F @ G). fst f \<in> dom (sy_actors S) \<and> length (snd f) \<le> 65535"
    by (rule log_completes [OF fr]) blast
  let ?fs = "map (\<lambda>(j, p). (actor_addr (the (sy_actors S j)), p)) (F @ G)" and ?st = "snd (cv_run L a ?xs (InHeader [], Opened []))"
  from lag obtain Z where "?xs @ Z = wire (sy_world S)" by (auto simp: prefix_def)
  then have fs: "?xs @ Z @ Y = frames ?fs" using G(1) by (simp add: log_bytes_def flip: append.assoc)
  have len: "\<forall>f \<in> set ?fs. length (snd f) \<le> 65535" using G(2) by (simp only: set_map ball_simps) (simp add: case_prod_beta)
  have "frames_of a ?fs = map (Pair a) []" using log_no_frames_of [OF _ none] G(2) by simp
  from lagging_view [OF fs len this, of L "Opened []" "[]"] have "cv_extends ?st (Opened [])" by simp
  moreover have "cv_extends (Opened []) ?st" using cv_extends_run [of "(InHeader [], Opened [])" L a ?xs] by simp
  ultimately have "?st = Opened []" by (cases ?st) auto
  moreover have "fst (cv_run L a ?xs (InHeader [], Opened [])) = dx_phase (abs_sys R2)"
    using ph abs cv_run_phase [of L a ?xs "InHeader []" "Opened []" Unborn] by simp
  ultimately show ?thesis
    using ok(1,2) ri abs lv follows_own_add [OF f] by (simp add: rs_view_def R2_def)
qed

end
