(* ===== verification/Accepting.thy ===== *)
theory Accepting
  imports Mux_Conn Mux_Demux
begin

text \<open>
  The listening end of a stream as its user sees it: connections come out of \<open>accept\<close>. The shared reader puts
  each connection that the other end opens into the channel to the listener exactly once, together with its
  reader, so that what \<open>accept\<close> returns is the connection of that address, and what is read from it is what
  its writer accepted.
\<close>

section \<open>The channel\<close>

text \<open>
  Documented behaviour of \<open>flume\<close>: the receiver gets the messages in the order in which they were handed to the
  sender, each of them once. \<open>sent\<close> are the messages so far, \<open>handed\<close> the number of those that were received. Nothing else
  touches the channel.
\<close>

abbreviation (input) same_channel :: "('w \<Rightarrow> 'm list) \<Rightarrow> ('w \<Rightarrow> nat) \<Rightarrow> 'w \<Rightarrow> 'w \<Rightarrow> bool" where
  "same_channel sent handed w w' \<equiv> sent w' = sent w \<and> handed w' = handed w"

definition channel_laws ::
  "('w, 'b, 'l) reader_api \<Rightarrow> ('w, 'r) channel_api \<Rightarrow> ('w \<Rightarrow> (socket_addr \<times> reader_inner) list) \<Rightarrow> ('w \<Rightarrow> nat) \<Rightarrow> bool" where
  "channel_laws A X sent handed \<longleftrightarrow>
     (\<forall>m w f w'. r_send_async A m w = (f, w') \<longrightarrow> sent w' = sent w @ [m] \<and> handed w' = handed w) \<and>
     (\<forall>f cx w r f' w'. ch_poll_recv X f cx w = (r, f', w') \<longrightarrow> sent w' = sent w \<and>
        (case r of
           Ready (Inr m) \<Rightarrow> handed w < length (sent w) \<and> m = sent w ! handed w \<and> handed w' = handed w + 1
         | _ \<Rightarrow> handed w' = handed w)) \<and>
     (\<forall>cx b w r b' w'. r_poll_read A cx b w = (r, b', w') \<longrightarrow> same_channel sent handed w w') \<and>
     (\<forall>n cx b w r b' w'. r_poll_take A n cx b w = (r, b', w') \<longrightarrow> same_channel sent handed w w') \<and>
     (\<forall>f cx w r f' w'. r_poll_send A f cx w = (r, f', w') \<longrightarrow> same_channel sent handed w w') \<and>
     (\<forall>cx w r w'. r_consume_budget A cx w = (r, w') \<longrightarrow> same_channel sent handed w w') \<and>
     (\<forall>n w r w'. r_alloc A n w = (r, w') \<longrightarrow> same_channel sent handed w w') \<and>
     (\<forall>w f w'. ch_recv_async X w = (f, w') \<longrightarrow> same_channel sent handed w w') \<and>
     (\<forall>f w. same_channel sent handed w (ch_drop_recv X f w))"

lemma channel_lawsD:
  assumes "channel_laws A X sent handed"
  shows "r_send_async A m w = (f, w') \<Longrightarrow> sent w' = sent w @ [m] \<and> handed w' = handed w"
    and "r_poll_read A cx b w = (r, b', w') \<Longrightarrow> same_channel sent handed w w'"
    and "r_poll_take A n cx b w = (r, b', w') \<Longrightarrow> same_channel sent handed w w'"
    and "r_poll_send A f cx w = (q, f', w') \<Longrightarrow> same_channel sent handed w w'"
    and "r_consume_budget A cx w = (u, w') \<Longrightarrow> same_channel sent handed w w'"
    and "r_alloc A n w = (ok, w') \<Longrightarrow> same_channel sent handed w w'"
    and "ch_recv_async X w = (g, w') \<Longrightarrow> same_channel sent handed w w'"
    and "same_channel sent handed w (ch_drop_recv X g w)"
  using assms unfolding channel_laws_def by metis+

lemma channel_lawsD_recv:
  assumes "channel_laws A X sent handed" and "ch_poll_recv X f cx w = (r, f', w')"
  shows "sent w' = sent w" and "r = Ready (Inr m) \<Longrightarrow> handed w < length (sent w) \<and> m = sent w ! handed w \<and> handed w' = handed w + 1"
    and "handed w \<le> handed w'"
proof -
  have "sent w' = sent w \<and> (case r of
      Ready (Inr m) \<Rightarrow> handed w < length (sent w) \<and> m = sent w ! handed w \<and> handed w' = handed w + 1
    | _ \<Rightarrow> handed w' = handed w)"
    using assms unfolding channel_laws_def by metis
  then show "sent w' = sent w"
    and "r = Ready (Inr m) \<Longrightarrow> handed w < length (sent w) \<and> m = sent w ! handed w \<and> handed w' = handed w + 1"
    and "handed w \<le> handed w'" by (auto split: poll.splits sum.splits)
qed

section \<open>What one round of the reader hands over\<close>

text \<open>Either no connection is opened, or one is, and it is handed to the channel.\<close>

definition hands_over ::
  "('w \<Rightarrow> (socket_addr \<times> reader_inner) list) \<Rightarrow> ('w \<Rightarrow> nat) \<Rightarrow> 'l locked_reader \<Rightarrow> 'w \<Rightarrow> 'l locked_reader \<Rightarrow> 'w \<Rightarrow> bool" where
  "hands_over sent handed s w s' w' \<longleftrightarrow> handed w' = handed w \<and>
     (sent w' = sent w \<and> lr_next s' = lr_next s \<and> (\<forall>b. lr_map s b = None \<longrightarrow> lr_map s' b = None) \<or>
     (\<exists>b. sent w' = sent w @ [(b, \<lparr>ri_entry = lr_next s\<rparr>)] \<and> lr_map s b = None \<and>
        lr_map s' = (lr_map s)(b \<mapsto> lr_next s) \<and> lr_next s' = lr_next s + 1))"

lemma fill_buffer_channel:
  assumes "\<And>b r b' w'. reader cx b w = (r, b', w') \<Longrightarrow> same_channel sent handed w w'"
    and "ReadBuffer_fill_buffer B q cx reader w = (x, q', w1)"
  shows "same_channel sent handed w w1"
proof (cases "ReadBuffer_readbuf B q")
  case (Done b)
  obtain r b' w' where p: "reader cx b w = (r, b', w')" by (metis prod_cases3)
  from assms(1) [OF p] assms(2) show ?thesis
    by (auto simp: ReadBuffer_fill_buffer_def Done p Let_def split: poll.splits sum.splits option.splits if_splits run.splits)
qed (use assms(2) in \<open>simp_all add: ReadBuffer_fill_buffer_def\<close>)

lemma insert_channel:
  assumes "channel_laws A X sent handed" and "ReaderMut_insert A s a cx w = (r, s', w')"
  shows "same_channel sent handed w w'"
proof -
  obtain ok w1 where al: "r_alloc A DEFAULT_BUFFER_CAPACITY w = (ok, w1)" by fastforce
  from channel_lawsD(6) [OF assms(1) this] assms(2) al show ?thesis
    by (auto simp: ReaderMut_insert_def ReadBuffer_new_def Let_def split: option.splits if_splits bool.splits)
qed

lemma packet_header_hands_over:
  assumes laws: "channel_laws A X sent handed" and eq: "packet_header A s h cx w = (Done q, s', w', wk)" and ok: "\<forall>e. q \<noteq> Ready (Inl e)"
  shows "hands_over sent handed s w s' w'"
proof -
  let ?a = "MuxFrameHeader_addr h"
  consider (data) "MuxFrameHeader_len h \<noteq> 0" | (close) "MuxFrameHeader_len h = 0" "lr_map s ?a \<noteq> None"
    | (nobody) "MuxFrameHeader_len h = 0" "lr_map s ?a = None" "r_is_disconnected A w"
    | (fresh) "MuxFrameHeader_len h = 0" "lr_map s ?a = None" "\<not> r_is_disconnected A w" by blast
  then show ?thesis
  proof cases
    case close
    then obtain i where i: "lr_map s ?a = Some i" by blast
    obtain u s1 wk1 where r: "ReaderMut_remove s ?a = (u, s1, wk1)" by (metis prod_cases3)
    then have "lr_map s1 = (lr_map s)(?a := None)" "lr_next s1 = lr_next s"
      using i by (auto simp: ReaderMut_remove_def Let_def drop_weak_def split: option.splits if_splits)
    with eq close r show ?thesis
      by (auto simp: packet_header_def Let_def hands_over_def ReaderMut_next_packet_def split: run.splits)
  next
    case fresh
    obtain r s1 w1 where i: "ReaderMut_insert A s ?a cx w = (r, s1, w1)" by (metis prod_cases3)
    with eq ok fresh obtain rd where rd: "r = Inr rd" by (cases r) (auto simp: packet_header_def)
    obtain f w2 where f: "r_send_async A (?a, rd) w1 = (f, w2)" by fastforce
    from i rd fresh(2) have s1: "rd = \<lparr>ri_entry = lr_next s\<rparr>" "lr_map s1 = (lr_map s)(?a \<mapsto> lr_next s)" "lr_next s1 = lr_next s + 1"
      by (auto simp: ReaderMut_insert_def Let_def split: prod.splits sum.splits)
    from eq fresh i rd f have "s' = s1\<lparr>lr_state := SendSocket f\<rparr>" "w' = w2" by (auto simp: packet_header_def)
    with s1 fresh(2) channel_lawsD(1) [OF laws f] insert_channel [OF laws i] show ?thesis by (auto simp: hands_over_def)
  qed (use eq in \<open>auto simp: packet_header_def hands_over_def ReaderMut_read_def ReaderMut_next_packet_def\<close>)
qed

lemma poll_once_hands_over:
  assumes laws: "channel_laws A X sent handed" and stays: "listener_stays A"
    and eq: "ReaderMut_poll_once B A s cx w = (Done q, s', w', wk)" and ok: "\<forall>e. q \<noteq> Ready (Inl e)"
  shows "hands_over sent handed s w s' w'"
proof (cases "lr_state s")
  case (Read a n)
  let ?entry = "case lr_map s a of None \<Rightarrow> None | Some i \<Rightarrow> map_option (Pair i) (upgrade s i)"
  show ?thesis
  proof (cases ?entry)
    case None
    obtain x b' w1 where p: "r_poll_take A (unat n) cx (rb_uninit B Map.empty 65535) w = (x, b', w1)"
      by (metis prod_cases3)
    from channel_lawsD(3) [OF laws p] eq show ?thesis
      by (auto simp: ReaderMut_poll_once_def ReaderMut_poll_read_def Read None p Let_def hands_over_def read_finish_def
          error_return_def ReaderMut_error_def ReaderMut_next_packet_def ReaderMut_read_def split: poll.splits sum.splits if_splits)
  next
    case (Some ie)
    obtain i e where ie: "ie = (i, e)" by fastforce
    obtain x b' w1 where p: "ReadBuffer_fill_buffer B (re_buffer e) cx (r_poll_take A (unat n)) w = (x, b', w1)"
      by (metis prod_cases3)
    have take: "same_channel sent handed w w2" if "r_poll_take A (unat n) cx b w = (r, b2, w2)" for b r b2 w2
      using channel_lawsD(3) [OF laws that] .
    from fill_buffer_channel [where reader = "r_poll_take A (unat n)" and cx = cx and w = w and sent = sent and handed = handed, OF take p] eq
    show ?thesis
      by (auto simp: ReaderMut_poll_once_def ReaderMut_poll_read_def Read Some ie p Let_def hands_over_def read_finish_def
          error_return_def ReaderMut_error_def ReaderMut_next_packet_def ReaderMut_read_def
          split: poll.splits sum.splits run.splits option.splits if_splits)
  qed
next
  case (NextPacket h k)
  obtain x b' w1 where p: "r_poll_read A cx (rb_uninit B (\<lambda>i. h (unat k + i)) (20 - unat k)) w = (x, b', w1)"
    by (metis prod_cases3)
  note w1 = channel_lawsD(2) [OF laws p]
  have hd: "hands_over sent handed s w s2 w2" if "packet_header A (s\<lparr>lr_state := st\<rparr>) hdr cx w1 = (Done q, s2, w2, wk)" for st hdr s2 w2
    using packet_header_hands_over [OF laws that ok] w1 by (simp add: hands_over_def)
  from eq ok w1 show ?thesis
    by (auto simp: ReaderMut_poll_once_def ReaderMut_poll_next_packet_def NextPacket p Let_def hd error_return_def ReaderMut_error_def
        split: poll.splits sum.splits ordering.splits option.splits if_splits) (simp_all add: hands_over_def)
next
  case (SendSocket f)
  obtain x f' w1 where p: "r_poll_send A f cx w = (x, f', w1)" by (metis prod_cases3)
  have "\<nexists>r. x = Ready (Inl r)" using stays p unfolding listener_stays_def by (metis fst_conv)
  with eq channel_lawsD(4) [OF laws p] show ?thesis
    by (auto simp: ReaderMut_poll_once_def SendSocket p hands_over_def ReaderMut_next_packet_def split: poll.splits sum.splits)
next
  case ReadError
  with eq ok show ?thesis by (auto simp: ReaderMut_poll_once_def)
qed

section \<open>Following a connection into the channel\<close>

text \<open>
  The view of address \<open>a\<close>, whose connection has number \<open>k\<close> once it is born, and its messages: none before it is born,
  and one from then on, with its reader.
\<close>

definition tracked ::
  "('w, 'b, 'l) reader_api \<Rightarrow> ('w \<Rightarrow> byte list) \<Rightarrow> ('w \<Rightarrow> (socket_addr \<times> reader_inner) list) \<Rightarrow> socket_addr \<Rightarrow> nat \<Rightarrow>
     ('l, 'w) read_sys \<Rightarrow> dx_phase \<times> conn_status \<Rightarrow> bool" where
  "tracked A src sent a k R cv \<longleftrightarrow> rs_view A True a k R cv \<and>
     (let ms = filter (\<lambda>m. fst m = a) (sent (rs_world R))
      in case snd cv of Unborn \<Rightarrow> ms = [] | Reopened \<Rightarrow> True | _ \<Rightarrow> ms = [(a, \<lparr>ri_entry = k\<rparr>)])"

text \<open>No two messages carry the same connection.\<close>

definition numbered :: "('w \<Rightarrow> (socket_addr \<times> reader_inner) list) \<Rightarrow> ('l, 'w) read_sys \<Rightarrow> bool" where
  "numbered sent R \<longleftrightarrow> distinct (map (\<lambda>m. ri_entry (snd m)) (sent (rs_world R))) \<and>
     (\<forall>m \<in> set (sent (rs_world R)). ri_entry (snd m) < lr_next (rs_reader R))"

definition tracks ::
  "('w, 'b, 'l) reader_api \<Rightarrow> ('w \<Rightarrow> byte list) \<Rightarrow> ('w \<Rightarrow> (socket_addr \<times> reader_inner) list) \<Rightarrow> ('w \<Rightarrow> nat) \<Rightarrow> socket_addr \<Rightarrow>
     ('l, 'w) read_sys \<Rightarrow> ('l, 'w) read_sys \<Rightarrow> bool" where
  "tracks A src sent handed a R R' \<longleftrightarrow>
     prefix (sent (rs_world R)) (sent (rs_world R')) \<and> handed (rs_world R) \<le> handed (rs_world R') \<and>
     (numbered sent R \<longrightarrow> numbered sent R') \<and>
     (\<forall>k cv. tracked A src sent a k R cv \<longrightarrow>
     (\<exists>bs k'. src (rs_world R') = src (rs_world R) @ bs \<and> tracked A src sent a k' R' (cv_run True a bs cv) \<and>
        (snd cv \<noteq> Unborn \<longrightarrow> k' = k)))"

lemma tracks_refl: "tracks A src sent handed a R R"
  by (auto simp: tracks_def intro!: exI [of _ "[]"])

lemma tracks_trans:
  assumes "tracks A src sent handed a R1 R2" and "tracks A src sent handed a R2 R3"
  shows "tracks A src sent handed a R1 R3"
  unfolding tracks_def
proof (intro conjI allI impI)
  show "prefix (sent (rs_world R1)) (sent (rs_world R3))" "handed (rs_world R1) \<le> handed (rs_world R3)"
    using assms unfolding tracks_def by (blast intro: prefix_order.trans, linarith)
  show "numbered sent R3" if "numbered sent R1" using assms that unfolding tracks_def by blast
next
  fix k cv assume "tracked A src sent a k R1 cv"
  with assms(1) obtain bs k1 where 1: "src (rs_world R2) = src (rs_world R1) @ bs" "tracked A src sent a k1 R2 (cv_run True a bs cv)"
    "snd cv \<noteq> Unborn \<longrightarrow> k1 = k" unfolding tracks_def by blast
  with assms(2) obtain cs k2 where 2: "src (rs_world R3) = src (rs_world R2) @ cs"
    "tracked A src sent a k2 R3 (cv_run True a cs (cv_run True a bs cv))" "snd (cv_run True a bs cv) \<noteq> Unborn \<longrightarrow> k2 = k1"
    unfolding tracks_def by blast
  have "snd cv \<noteq> Unborn \<longrightarrow> snd (cv_run True a bs cv) \<noteq> Unborn" using cv_extends_run [of cv True a bs] by (cases "snd cv") auto
  with 1 2 show "\<exists>bs k'. src (rs_world R3) = src (rs_world R1) @ bs \<and> tracked A src sent a k' R3 (cv_run True a bs cv) \<and>
      (snd cv \<noteq> Unborn \<longrightarrow> k' = k)"
    by (intro exI [of _ "bs @ cs"] exI [of _ k2]) auto
qed

text \<open>A step that leaves stream, channel and view alone.\<close>

lemma tracks_still:
  assumes "src (rs_world R') = src (rs_world R)" and "sent (rs_world R') = sent (rs_world R)" and "handed (rs_world R) \<le> handed (rs_world R')"
    and "lr_next (rs_reader R) \<le> lr_next (rs_reader R')"
    and "\<And>k cv. rs_view A True a k R cv \<Longrightarrow> rs_view A True a k R' cv"
  shows "tracks A src sent handed a R R'"
proof -
  have "numbered sent R'" if "numbered sent R" using that assms(2,4) by (auto simp: numbered_def intro: less_le_trans)
  with assms show ?thesis by (auto simp: tracks_def tracked_def intro!: exI [of _ "[]"])
qed

section \<open>The steps of the reader\<close>

lemma messages_step:
  assumes f: "follows lv a k d st" "follows lv' a k' d' st'" "cv_extends st st'" "if st = Unborn then dx_next d \<le> k' else k' = k"
    and d: "dx_open d = lr_map s" "dx_next d = lr_next s" "dx_open d' = lr_map s'" "dx_next d' = lr_next s'"
    and hand: "hands_over sent handed s w s' w'"
    and ms: "case st of Unborn \<Rightarrow> filter (\<lambda>m. fst m = a) (sent w) = [] | Reopened \<Rightarrow> True
      | _ \<Rightarrow> filter (\<lambda>m. fst m = a) (sent w) = [(a, \<lparr>ri_entry = k\<rparr>)]"
  shows "case st' of Unborn \<Rightarrow> filter (\<lambda>m. fst m = a) (sent w') = [] | Reopened \<Rightarrow> True
      | _ \<Rightarrow> filter (\<lambda>m. fst m = a) (sent w') = [(a, \<lparr>ri_entry = k'\<rparr>)]"
proof -
  consider (none) "sent w' = sent w" "lr_next s' = lr_next s" "lr_map s a = None \<longrightarrow> lr_map s' a = None"
    | (own) "sent w' = sent w @ [(a, \<lparr>ri_entry = lr_next s\<rparr>)]" "lr_map s a = None" "lr_map s' a = Some (lr_next s)"
    | (other) b where "b \<noteq> a" "sent w' = sent w @ [(b, \<lparr>ri_entry = lr_next s\<rparr>)]" "lr_map s' = (lr_map s)(b \<mapsto> lr_next s)"
        "lr_next s' = lr_next s + 1"
    using hand unfolding hands_over_def by (metis fun_upd_same)
  then show ?thesis
  proof cases
    case none
    then show ?thesis using f d ms by (cases st; cases st') (auto simp: follows_def)
  next
    case own
    then show ?thesis using f d ms by (cases st; cases st') (auto simp: follows_def)
  next
    case other
    have "lr_next s \<in> ran (lr_map s')" using other(3) by (auto simp: ran_def)
    then show ?thesis using other f d ms by (cases st; cases st') (auto simp: follows_def less_Suc_eq)
  qed
qed

lemma round_tracks:
  assumes laws: "reader_laws B A view src" and stays: "listener_stays A" and chan: "channel_laws A X sent handed"
    and eq: "ReaderMut_poll_once B A (rs_reader R) cx (rs_world R) = (Done q, s', w', wk)" and ok: "\<forall>e. q \<noteq> Ready (Inl e)"
  shows "tracks A src sent handed a R (R\<lparr>rs_reader := s', rs_world := w'\<rparr>)"
  unfolding tracks_def
proof (intro conjI allI impI)
  show "prefix (sent (rs_world R)) (sent (rs_world (R\<lparr>rs_reader := s', rs_world := w'\<rparr>)))"
    "handed (rs_world R) \<le> handed (rs_world (R\<lparr>rs_reader := s', rs_world := w'\<rparr>))"
    using poll_once_hands_over [OF chan stays eq ok] by (auto simp: hands_over_def)
  show "numbered sent (R\<lparr>rs_reader := s', rs_world := w'\<rparr>)" if "numbered sent R"
    using poll_once_hands_over [OF chan stays eq ok] that by (force simp: hands_over_def numbered_def)
next
  fix k cv assume t: "tracked A src sent a k R cv"
  let ?R' = "R\<lparr>rs_reader := s', rs_world := w'\<rparr>" and ?s = "rs_reader R"
  from t have v: "rs_view A True a k R cv" by (simp add: tracked_def)
  then have inv: "lr_inv ?s" "taken_ok (rs_taken R) ?s" "listening A True ?s"
    and f: "follows (live ?s) a k (abs_sys R) (snd cv)" "dx_phase (abs_sys R) = fst cv"
    by (simp_all add: rs_view_def rs_inv_def)
  obtain bs where bs: "src w' = src (rs_world R) @ bs" "lr_inv s'" "live s' = live ?s" "listening A True s'" "taken_ok (rs_taken R) s'"
    "abs_sys ?R' = dx_run True (live ?s) bs (abs_sys R)"
    by (rule poll_once_step [OF laws inv, of cx "rs_world R"]) (use eq ok in \<open>auto simp: abs_sys_def split: poll.splits sum.splits\<close>)
  let ?cv = "cv_run True a bs cv"
  from follows_run [OF f, of True bs] obtain k' where
    k': "follows (live ?s) a k' (abs_sys ?R') (snd ?cv)" "dx_phase (abs_sys ?R') = fst ?cv"
    "if snd cv = Unborn then dx_next (abs_sys R) \<le> k' else k' = k"
    unfolding bs(6) [symmetric] by auto
  have "tracked A src sent a k' ?R' ?cv"
    using messages_step [OF f(1) k'(1) cv_extends_run k'(3) _ _ _ _ poll_once_hands_over [OF chan stays eq ok]] t k'(1,2) bs(1-5)
    by (simp add: tracked_def rs_view_def rs_inv_def abs_sys_def Let_def cong: conn_status.case_cong)
  with bs(1) k'(3) show "\<exists>bs k'. src (rs_world ?R') = src (rs_world R) @ bs \<and> tracked A src sent a k' ?R' (cv_run True a bs cv) \<and>
      (snd cv \<noteq> Unborn \<longrightarrow> k' = k)"
    by (intro exI [of _ bs] exI [of _ k']) auto
qed

text \<open>The whole loop, as long as it does not fail.\<close>

lemma poll_tracks:
  assumes laws: "reader_laws B A view src" "budget_laws A fuel" and stays: "listener_stays A" and chan: "channel_laws A X sent handed"
  shows "ReaderMut_poll B A (rs_reader R) cx (rs_world R) woken = Some (Done Pending, s', w', wk) \<Longrightarrow> rs_inv A True R \<Longrightarrow>
    tracks A src sent handed a R (R\<lparr>rs_reader := s', rs_world := w'\<rparr>)"
proof (induction "fuel (rs_world R)" arbitrary: R woken rule: less_induct)
  case less
  let ?s = "rs_reader R" and ?w = "rs_world R"
  have inv: "lr_inv ?s" "taken_ok (rs_taken R) ?s" "listening A True ?s" using less.prems(2) by (simp_all add: rs_inv_def)
  obtain q s1 w1 wk1 where once: "ReaderMut_poll_once B A ?s cx ?w = (Done q, s1, w1, wk1)"
    and s1: "lr_inv s1" "listening A True s1" "taken_ok (rs_taken R) s1"
    by (rule poll_once_step [OF laws(1) inv, of cx ?w])
  have fuel1: "fuel w1 \<le> fuel ?w" using poll_once_fuel [OF laws(2), of B ?s cx ?w] once by simp
  let ?R1 = "R\<lparr>rs_reader := s1, rs_world := w1\<rparr>"
  have ok: "\<forall>e. q \<noteq> Ready (Inl e)"
  proof (intro allI notI)
    fix e assume "q = Ready (Inl e)"
    with reader_poll_stop(2) [of B A ?s cx ?w e s1 w1 wk1 woken] once less.prems(1) show False by simp
  qed
  note round = round_tracks [OF laws(1) stays chan once ok]
  consider (pend) "q = Pending" | (err) e where "q = Ready (Inl e)" | (ok) "q = Ready (Inr ())"
    by (metis poll.exhaust sum.exhaust unit.exhaust)
  then show ?case
  proof cases
    case err
    with ok show ?thesis by simp
  next
    case pend
    with less.prems(1) once have "s' = s1" "w' = w1" using reader_poll_stop(1) [of B A ?s cx ?w s1 w1 wk1 woken] by simp_all
    with round show ?thesis by simp
  next
    case ok
    obtain c w2 where c: "r_consume_budget A cx w1 = (c, w2)" by fastforce
    let ?R2 = "?R1\<lparr>rs_world := w2\<rparr>"
    have "tracks A src sent handed a ?R1 ?R2"
      using reader_lawsD(6) [OF laws(1) c] channel_lawsD(5) [OF chan c]
      by (intro tracks_still) (simp_all add: rs_view_def rs_inv_def abs_sys_def)
    with round have 2: "tracks A src sent handed a R ?R2" by (rule tracks_trans)
    show ?thesis
    proof (cases c)
      case Pending
      with less.prems(1) ok once c have "s' = s1" "w' = w2" by (subst (asm) ReaderMut_poll.simps, simp)+
      with 2 show ?thesis by simp
    next
      case (Ready u)
      have "ReaderMut_poll B A ?s cx ?w woken = ReaderMut_poll B A s1 cx w2 (woken @ wk1)"
        using ok Ready once c by (intro reader_poll_continue [of _ _ _ _ _ _ w1]) simp_all
      with less.prems(1) have eq: "ReaderMut_poll B A (rs_reader ?R2) cx (rs_world ?R2) (woken @ wk1) = Some (Done Pending, s', w', wk)"
        by simp
      have "fuel (rs_world ?R2) < fuel ?w" using budget_lawsD(1) [OF laws(2), of cx w1 w2] c Ready fuel1 by simp
      from less.hyps [OF this eq] s1 have "tracks A src sent handed a ?R2 (?R2\<lparr>rs_reader := s', rs_world := w'\<rparr>)"
        by (simp add: rs_inv_def)
      with 2 show ?thesis using tracks_trans by fastforce
    qed
  qed
qed

text \<open>
  The read of one connection either takes what is buffered and leaves the world alone, or polls the shared reader in a state
  that differs only in a waker.
\<close>

lemma conn_read_polls:
  assumes laws: "reader_laws B A view src" "budget_laws A fuel" and inv: "rs_inv A L R"
    and arc: "lr_heap (rs_reader R) (ri_entry this) = Some arc" "0 < ae_strong arc"
    and buf: "rb_ok (view buf)" "v_filled (view buf) < v_cap (view buf)"
    and eq: "ReaderInner_poll_read B A this (rs_reader R) cx buf (rs_world R) = Some (Done r, s', buf', w', wk)"
    and r: "\<forall>e. r \<noteq> Ready (Inl e)" and bs: "rb_contents (view buf') = rb_contents (view buf) @ bs"
  obtains (took) "w' = rs_world R"
    | (polled) s2 where "ReaderMut_poll B A s2 cx (rs_world R) [] = Some (Done Pending, s', w', wk)" and "bs = []"
        and "rs_inv A L (R\<lparr>rs_reader := s2\<rparr>)" and "abs_sys (R\<lparr>rs_reader := s2\<rparr>) = abs_sys R" and "live s2 = live (rs_reader R)"
proof -
  let ?s = "rs_reader R" and ?i = "ri_entry this" and ?e = "ae_entry arc"
  let ?c = "rd_contents (re_buffer ?e)"
  have pre: "lr_inv ?s" "taken_ok (rs_taken R) ?s" "listening A L ?s" using inv by (simp_all add: rs_inv_def)
  have heap: "heap_inv ?s" using pre(1) by (simp add: lr_inv_def)
  have e: "upgrade ?s ?i = Some ?e" "entry_ok ?e" using arc heap_invD(4) [OF heap arc(1)] by (simp_all add: upgrade_def)
  then have rd: "rd_inv (re_buffer ?e)" by (simp add: entry_ok_def)
  obtain q' b' n where read: "ReadBuffer_read B (re_buffer ?e) buf = Done (q', b')" and q': "rd_inv q'" "rd_contents q' = drop n ?c"
    "rd_capacity q' = rd_capacity (re_buffer ?e)" and grown: "rb_grown (view buf) (take n ?c) (view b')"
    by (rule read_spec [OF reader_lawsD(1) [OF laws(1)] rd buf(1)])
  let ?s2 = "put_entry (put_entry ?s ?i (?e\<lparr>re_buffer := q'\<rparr>)) ?i (?e\<lparr>re_buffer := q', reader_pipe_waker := cx\<rparr>)"
  show ?thesis
  proof (cases "SharedReader_poll B A ?s2 cx (rs_world R) = Some (Done Pending, s', w', wk) \<and> buf' = b' \<and>
      rb_remaining B b' = rb_remaining B buf")
    case True
    have "v_filled (view b') = v_filled (view buf) + length (take n ?c)" "v_cap (view b') = v_cap (view buf)"
      using grown by (simp_all add: rb_grown_def)
    with True have "v_cap (view buf) - (v_filled (view buf) + length (take n ?c)) = v_cap (view buf) - v_filled (view buf)"
      by (simp only: readbuf_lawsD(4) [OF reader_lawsD(1) [OF laws(1)]])
    with buf(2) have "length (take n ?c) = 0" by arith
    then have none: "take n ?c = []" by (simp only: length_0_conv)
    then have "rd_contents q' = ?c" using q'(2) by (metis append_Nil append_take_drop_id)
    then have abs: "abs_reader (rs_taken R) ?s2 = abs_reader (rs_taken R) ?s"
      using e(1) abs_put_entry_same [of "put_entry ?s ?i (?e\<lparr>re_buffer := q'\<rparr>)" ?i "?e\<lparr>re_buffer := q'\<rparr>"]
        abs_put_entry_same [OF e(1), of "?e\<lparr>re_buffer := q'\<rparr>"] by (simp add: upgrade_put_entry)
    have "entry_ok (?e\<lparr>re_buffer := q'\<rparr>)" "entry_ok (?e\<lparr>re_buffer := q', reader_pipe_waker := cx\<rparr>)"
      using e(2) q' by (simp_all add: entry_ok_def)
    then have "lr_inv ?s2" using heap pre(1) by (simp add: lr_inv_def heap_inv_put_entry)
    moreover have "taken_ok (rs_taken R) ?s2" "listening A L ?s2" using pre by (simp_all add: taken_ok_def listening_def)
    moreover have "bs = []" using grown none bs True by (simp add: rb_grown_def)
    ultimately show ?thesis using True abs by (intro polled [of ?s2]) (simp_all add: SharedReader_poll_def rs_inv_def abs_sys_def)
  next
    case False
    then have "w' = rs_world R"
      using eq arc(1) read r
      by (auto simp: ReaderInner_poll_read_def Let_def split: if_splits option.splits run.splits poll.splits prod.splits)
    then show ?thesis by (rule took)
  qed
qed

lemma read_step_tracks:
  assumes laws: "reader_laws B A view src" "budget_laws A fuel" and stays: "listener_stays A" and chan: "channel_laws A X sent handed"
    and step: "read_step B A view mine R R'" and a: "a \<notin> mine" and inv: "rs_inv A True R"
  shows "tracks A src sent handed a R R'"
  using step
proof (cases rule: read_step.cases)
  case (poll_shared cx s' w' wk)
  with poll_tracks [OF laws stays chan _ inv] show ?thesis by (simp add: SharedReader_poll_def)
next
  case (read_conn this arc buf cx r s' buf' w' wk bs)
  consider (took) "w' = rs_world R"
    | (polled) s2 where "ReaderMut_poll B A s2 cx (rs_world R) [] = Some (Done Pending, s', w', wk)" "bs = []"
        "rs_inv A True (R\<lparr>rs_reader := s2\<rparr>)" "abs_sys (R\<lparr>rs_reader := s2\<rparr>) = abs_sys R" "live s2 = live (rs_reader R)"
    by (rule conn_read_polls [OF laws inv read_conn(2-8)])
  then show ?thesis
  proof cases
    case took
    from read_conn_simulates [OF laws inv read_conn(2-8)] took show ?thesis
      unfolding read_conn(1) by (intro tracks_still) (auto simp: simulates_def rs_view_def abs_sys_def dest: arg_cong [of _ _ dx_next])
  next
    case (polled s2)
    let ?R2 = "R\<lparr>rs_reader := s2\<rparr>"
    have "lr_next s2 = lr_next (rs_reader R)" using arg_cong [OF polled(4), of dx_next] by (simp add: abs_sys_def)
    then have "tracks A src sent handed a R ?R2" using polled by (intro tracks_still) (simp_all add: rs_view_def)
    moreover have "tracks A src sent handed a ?R2 R'"
      using poll_tracks [OF laws stays chan _ polled(3), of cx "[]" s' w' wk a] polled(1,2) read_conn(1) by simp
    ultimately show ?thesis by (rule tracks_trans)
  qed
next
  case (add_conn b res s' w')
  have ins: "ReaderMut_insert A (rs_reader R) b Noop (rs_world R) = (res, s', w')" using add_conn(3) by (simp add: SharedReader_add_connection_def)
  have src: "src (rs_world R') = src (rs_world R)" using add_conn_ok(1) [OF laws(1) inv add_conn(3)] by (simp add: add_conn(1))
  moreover have "sent (rs_world R') = sent (rs_world R)" "handed (rs_world R) \<le> handed (rs_world R')"
    using insert_channel [OF chan ins] by (simp_all add: add_conn(1))
  moreover have "rs_view A True a k R' cv" if "rs_view A True a k R cv" for k cv
    using read_step_view [OF laws step a that] src that by (cases "snd cv = Unborn") (auto simp: rs_view_def follows_def)
  moreover have "lr_next (rs_reader R) \<le> lr_next (rs_reader R')"
    using ins by (auto simp: add_conn(1) ReaderMut_insert_def Let_def split: option.splits prod.splits sum.splits)
  ultimately show ?thesis by (intro tracks_still)
next
  case (drop_conn this arc)
  have "rs_view A True a k R' cv" if "rs_view A True a k R cv" for k cv
    using read_step_view [OF laws step a that] that drop_conn(1) by (cases "snd cv = Unborn") (auto simp: rs_view_def follows_def)
  then show ?thesis by (intro tracks_still) (simp_all add: drop_conn(1) ReaderInner_drop_def split: option.split)
qed

section \<open>The listening end\<close>

text \<open>
  Beside the steps of the reader, somebody awaits \<open>accept\<close>, in one task or in many; \<open>elsewhere\<close> is what happens
  outside: the network moves, the runtime gives out new budget.
\<close>

inductive listen_step ::
  "'b readbuf_api \<Rightarrow> ('w, 'b, 'l) reader_api \<Rightarrow> ('w, 'r) channel_api \<Rightarrow> ('g, 'f) write_inner \<Rightarrow> ('b \<Rightarrow> rb_view) \<Rightarrow> ('w \<Rightarrow> byte list) \<Rightarrow>
     ('w \<Rightarrow> (socket_addr \<times> reader_inner) list) \<Rightarrow> ('w \<Rightarrow> nat) \<Rightarrow> socket_addr set \<Rightarrow> ('l, 'w) read_sys \<Rightarrow> ('l, 'w) read_sys \<Rightarrow> bool"
  for B A X u view src sent handed mine where
  reader_step: "read_step B A view mine R R' \<Longrightarrow> listen_step B A X u view src sent handed mine R R'"
| accept_step: "MuxListener_accept B A X u l fut (rs_reader R) cx (rs_world R) = Some (Done q, fut', s', w', wk) \<Longrightarrow>
    \<forall>e. q \<noteq> Ready (Inl e) \<Longrightarrow> listen_step B A X u view src sent handed mine R (R\<lparr>rs_reader := s', rs_world := w'\<rparr>)"
| elsewhere: "src w' = src (rs_world R) \<Longrightarrow> sent w' = sent (rs_world R) \<Longrightarrow> handed w' = handed (rs_world R) \<Longrightarrow>
    listen_step B A X u view src sent handed mine R (R\<lparr>rs_world := w'\<rparr>)"

lemma world_tracks:
  "src w' = src (rs_world R) \<Longrightarrow> sent w' = sent (rs_world R) \<Longrightarrow> handed (rs_world R) \<le> handed w' \<Longrightarrow>
    tracks A src sent handed a R (R\<lparr>rs_world := w'\<rparr>)"
  by (rule tracks_still) (simp_all add: rs_view_def rs_inv_def abs_sys_def)

lemma accept_wait_tracks:
  assumes laws: "reader_laws B A view src" "budget_laws A fuel" and stays: "listener_stays A"
    and chan: "channel_laws A X sent handed" "recv_laws X src" and inv: "rs_inv A True R"
    and eq: "accept_wait B A X u l fut (rs_reader R) cx (rs_world R) = Some (Done q, fut', s', w', wk)" and ok: "\<forall>e. q \<noteq> Ready (Inl e)"
  shows "tracks A src sent handed a R (R\<lparr>rs_reader := s', rs_world := w'\<rparr>)"
proof -
  obtain r f1 w1 where p: "ch_poll_recv X fut cx (rs_world R) = (r, f1, w1)" by (metis prod_cases3)
  let ?R1 = "R\<lparr>rs_world := w1\<rparr>"
  note recv = channel_lawsD_recv [OF chan(1) p]
  have 1: "tracks A src sent handed a R ?R1" by (rule world_tracks [OF recv_lawsD(3) [OF chan(2) p] recv(1,3)])
  show ?thesis
  proof (cases "r = Pending")
    case True
    with eq ok p have poll: "ReaderMut_poll B A (rs_reader ?R1) cx (rs_world ?R1) [] = Some (Done Pending, s', w', wk)"
      by (auto simp: accept_wait_def SharedReader_poll_def split: option.splits run.splits poll.splits)
    have "rs_inv A True ?R1" using inv by (simp add: rs_inv_def)
    from tracks_trans [OF 1 poll_tracks [OF laws stays chan(1) poll this]] show ?thesis by simp
  next
    case False
    with eq p have "s' = rs_reader R" "w' = ch_drop_recv X f1 w1"
      by (auto simp: accept_wait_def Let_def split: poll.splits sum.splits)
    moreover have "tracks A src sent handed a ?R1 (?R1\<lparr>rs_world := ch_drop_recv X f1 w1\<rparr>)"
      using world_tracks [of src "ch_drop_recv X f1 w1" ?R1 sent handed] recv_lawsD(2) [OF chan(2)] channel_lawsD(8) [OF chan(1)] by simp
    ultimately show ?thesis using tracks_trans [OF 1] by simp
  qed
qed

lemma accept_tracks:
  assumes laws: "reader_laws B A view src" "budget_laws A fuel" and stays: "listener_stays A"
    and chan: "channel_laws A X sent handed" "recv_laws X src" and inv: "rs_inv A True R"
    and eq: "MuxListener_accept B A X u l fut (rs_reader R) cx (rs_world R) = Some (Done q, fut', s', w', wk)" and ok: "\<forall>e. q \<noteq> Ready (Inl e)"
  shows "tracks A src sent handed a R (R\<lparr>rs_reader := s', rs_world := w'\<rparr>)"
proof (cases fut)
  case AcceptStart
  obtain f w1 where f: "ch_recv_async X (rs_world R) = (f, w1)" by fastforce
  let ?R1 = "R\<lparr>rs_world := w1\<rparr>"
  have 1: "tracks A src sent handed a R ?R1"
    by (rule world_tracks) (use recv_lawsD(1) [OF chan(2) f] channel_lawsD(7) [OF chan(1) f] in simp_all)
  have "rs_inv A True ?R1" using inv by (simp add: rs_inv_def)
  from accept_wait_tracks [OF laws stays chan this _ ok, of u l f cx] eq AcceptStart f show ?thesis
    using tracks_trans [OF 1] by simp
next
  case (AcceptWait f)
  with accept_wait_tracks [OF laws stays chan inv _ ok] eq show ?thesis by simp
qed (use eq in simp)

lemma listen_step_tracks:
  assumes laws: "reader_laws B A view src" "budget_laws A fuel" "listener_stays A" "channel_laws A X sent handed" "recv_laws X src"
    and step: "listen_step B A X u view src sent handed mine R R'" and a: "a \<notin> mine" and inv: "rs_inv A True R"
  shows "tracks A src sent handed a R R'"
  using step
proof (cases rule: listen_step.cases)
  case reader_step
  from read_step_tracks [OF laws(1-4) this a inv] show ?thesis .
next
  case (accept_step l fut cx q fut' s' w' wk)
  from accept_tracks [OF laws inv accept_step(2,3)] show ?thesis by (simp add: accept_step(1))
next
  case (elsewhere w')
  then show ?thesis by (auto intro: world_tracks)
qed

lemma listen_run_tracks:
  assumes laws: "reader_laws B A view src" "budget_laws A fuel" "listener_stays A" "channel_laws A X sent handed" "recv_laws X src"
    and run: "(listen_step B A X u view src sent handed mine)\<^sup>*\<^sup>* R R'" and a: "a \<notin> mine" and t: "tracked A src sent a k R cv"
  shows "tracks A src sent handed a R R'"
  using run
proof (induction rule: rtranclp_induct)
  case base
  show ?case by (rule tracks_refl)
next
  case (step R1 R2)
  from step.IH t have "rs_inv A True R1" unfolding tracks_def by (auto simp: tracked_def rs_view_def)
  from tracks_trans [OF step.IH listen_step_tracks [OF laws step.hyps(2) a this]] show ?case .
qed

section \<open>What \<open>accept\<close> returns\<close>

text \<open>The connection that \<open>accept\<close> returns is made of the next message of the channel.\<close>

lemma accept_message:
  assumes chan: "channel_laws A X sent handed" "recv_laws X src"
    and eq: "MuxListener_accept B A X u l fut s cx w = Some (Done (Ready (Inr conn)), fut', s', w', wk)"
  shows "handed w < length (sent w)" and "sent w ! handed w = (MuxConnection_addr conn, mc_read conn)"
    and "s' = s" and "src w' = src w" and "sent w' = sent w" and "handed w' = handed w + 1"
proof -
  obtain f w0 where f: "accept_wait B A X u l f s cx w0 = Some (Done (Ready (Inr conn)), fut', s', w', wk)"
    and w0: "src w0 = src w" "sent w0 = sent w" "handed w0 = handed w"
  proof (cases fut)
    case AcceptStart
    obtain f w0 where f: "ch_recv_async X w = (f, w0)" by fastforce
    with recv_lawsD(1) [OF chan(2) f] channel_lawsD(7) [OF chan(1) f] eq AcceptStart show ?thesis by (intro that [of f w0]) simp_all
  next
    case (AcceptWait f)
    with eq show ?thesis by (intro that [of f w]) simp_all
  qed (use eq in simp)
  obtain r f1 w1 where p: "ch_poll_recv X f cx w0 = (r, f1, w1)" by (metis prod_cases3)
  from f p obtain m where m: "r = Ready (Inr m)"
    by (auto simp: accept_wait_def split: poll.splits sum.splits option.splits run.splits)
  obtain b rd where b: "m = (b, rd)" by fastforce
  from f p m b have conn: "conn = MuxConnection_new (MuxPipe_make_writer u (ml_pipe l) b) rd" and "s' = s" "w' = ch_drop_recv X f1 w1"
    by (simp_all add: accept_wait_def)
  with channel_lawsD_recv [OF chan(1) p] m b w0 channel_lawsD(8) [OF chan(1)] recv_lawsD(2,3) [OF chan(2)] p
  show "handed w < length (sent w)" "sent w ! handed w = (MuxConnection_addr conn, mc_read conn)"
    "s' = s" "src w' = src w" "sent w' = sent w" "handed w' = handed w + 1"
    by (simp_all add: MuxConnection_addr_def MuxConnection_new_def fresh_pipe_writer)
qed

lemma read_start_tracked:
  "listener_stays A \<Longrightarrow> sent v = [] \<Longrightarrow> tracked A src sent a k (read_start v :: ('l, 'v) read_sys) (InHeader [], Unborn)"
  for A :: "('v, 'b, 'l) reader_api"
  using read_start_view [of A True a k v] by (simp add: tracked_def listening_def) (simp add: read_start_def)

text \<open>
  A connection whose address is that of the only writer: it was handed over once, and it is followed from the time
  when \<open>accept\<close> has returned it.
\<close>

lemma accepted_seen:
  fixes R R1 :: "('l, 'v) read_sys"
  assumes fr: "wire_system.framed wire holder m rest F bs S" and c: "sy_actors S i = Some c" "actor_addr c = a" "actor_shook c = Some True"
    and only: "\<forall>j d. sy_actors S j = Some d \<longrightarrow> actor_addr d = a \<longrightarrow> j = i"
    and laws: "reader_laws B A view src" "budget_laws A fuel" "listener_stays A" "channel_laws A X sent handed" "recv_laws X src"
    and start: "a \<notin> mine" "src v = []" "sent v = []"
    and run1: "(listen_step B A X u view src sent handed mine)\<^sup>*\<^sup>* (read_start v) R1"
    and acc: "MuxListener_accept B A X u l fut (rs_reader R1) cx (rs_world R1) = Some (Done (Ready (Inr conn)), fut', s', w', wk)"
    and a: "MuxConnection_addr conn = a"
    and run2: "(listen_step B A X u view src sent handed mine)\<^sup>*\<^sup>* (R1\<lparr>rs_reader := s', rs_world := w'\<rparr>) R"
    and lag: "prefix (src (rs_world R)) (wire (sy_world S))"
  shows "rs_view A True a (ri_entry (mc_read conn)) R (cv_run True a (src (rs_world R)) (InHeader [], Unborn))"
    and "snd (cv_run True a (src (rs_world R)) (InHeader [], Unborn)) \<noteq> Unborn"
    and "filter (\<lambda>m. fst m = a) (sent (rs_world R)) = [(a, mc_read conn)]"
proof -
  let ?R2 = "R1\<lparr>rs_reader := s', rs_world := w'\<rparr>" and ?st = "snd (cv_run True a (src (rs_world R)) (InHeader [], Unborn))"
  let ?ms = "filter (\<lambda>m. fst m = a) (sent (rs_world R))"
  have "listen_step B A X u view src sent handed mine R1 ?R2" by (rule accept_step [OF acc]) simp
  with run1 run2 have run: "(listen_step B A X u view src sent handed mine)\<^sup>*\<^sup>* (read_start v) R" by simp
  note t0 = read_start_tracked [where A = A and src = src and sent = sent and a = a and k = 0 and v = v, OF laws(3) start(3)]
  from listen_run_tracks [OF laws run start(1) t0] t0 obtain k xs
    where k: "src (rs_world R) = xs" "tracked A src sent a k R (cv_run True a xs (InHeader [], Unborn))"
    unfolding tracks_def using start(2) by (fastforce simp: read_start_def)
  from listen_run_tracks [OF laws run1 start(1) t0] t0 obtain k1 cv1 where t1: "tracked A src sent a k1 R1 cv1"
    unfolding tracks_def by blast
  then have t2: "tracked A src sent a k1 ?R2 cv1"
    using accept_message(3,5) [OF laws(4,5) acc] by (simp add: tracked_def rs_view_def rs_inv_def abs_sys_def)
  from listen_run_tracks [OF laws run2 start(1) t2] have "prefix (sent (rs_world ?R2)) (sent (rs_world R))"
    by (simp add: tracks_def)
  moreover have "(a, mc_read conn) \<in> set (sent (rs_world ?R2))"
    using accept_message(1,2,5) [OF laws(4,5) acc] a nth_mem [of "handed (rs_world R1)" "sent (rs_world R1)"] by simp
  ultimately have "(a, mc_read conn) \<in> set (sent (rs_world R))" using set_mono_prefix by blast
  then have mem: "(a, mc_read conn) \<in> set ?ms" by simp
  then have some: "?ms \<noteq> []" by (metis list.set(1) empty_iff)
  from lag obtain Z where Z: "src (rs_world R) @ Z = wire (sy_world S)" by (auto simp: prefix_def)
  have "?st \<noteq> Reopened" using sent_view [OF fr c only _ Z, of True] by auto
  moreover have "case ?st of Unborn \<Rightarrow> ?ms = [] | Reopened \<Rightarrow> True | _ \<Rightarrow> ?ms = [(a, \<lparr>ri_entry = k\<rparr>)]"
    using k by (simp add: tracked_def Let_def)
  ultimately have "?ms = [(a, \<lparr>ri_entry = k\<rparr>)]" "?st \<noteq> Unborn" using some by (auto split: conn_status.splits simp del: filter_empty_conv)
  moreover have "rs_view A True a k R (cv_run True a (src (rs_world R)) (InHeader [], Unborn))" using k by (simp add: tracked_def)
  ultimately show "rs_view A True a (ri_entry (mc_read conn)) R (cv_run True a (src (rs_world R)) (InHeader [], Unborn))"
    "?st \<noteq> Unborn" "?ms = [(a, mc_read conn)]"
    using mem by auto
qed

text \<open>The end of the stream of such a connection: its reads have returned all that was accepted.\<close>

lemma accepted_eof:
  fixes R R1 :: "('l, 'v) read_sys"
  assumes fr: "wire_system.framed wire holder m rest F bs S" and c: "sy_actors S i = Some c" "actor_addr c = a" "actor_shook c = Some True"
    and only: "\<forall>j d. sy_actors S j = Some d \<longrightarrow> actor_addr d = a \<longrightarrow> j = i"
    and laws: "reader_laws B A view src" "budget_laws A fuel" "listener_stays A" "channel_laws A X sent handed" "recv_laws X src"
    and start: "a \<notin> mine" "src v = []" "sent v = []"
    and run1: "(listen_step B A X u view src sent handed mine)\<^sup>*\<^sup>* (read_start v) R1"
    and acc: "MuxListener_accept B A X u l fut (rs_reader R1) cx0 (rs_world R1) = Some (Done (Ready (Inr conn)), fut', s1, w1, wk1)"
    and a: "MuxConnection_addr conn = a"
    and run2: "(listen_step B A X u view src sent handed mine)\<^sup>*\<^sup>* (R1\<lparr>rs_reader := s1, rs_world := w1\<rparr>) R"
    and lag: "prefix (src (rs_world R)) (wire (sy_world S))"
    and arc: "lr_heap (rs_reader R) (ri_entry (mc_read conn)) = Some arc" "0 < ae_strong arc"
    and buf: "rb_ok (view buf)" "v_filled (view buf) < v_cap (view buf)"
    and read: "MuxConnection_poll_read B A conn (rs_reader R) cx buf (rs_world R) = Some (Done (Ready (Inr ())), s', buf', w', wk)"
    and same: "rb_contents (view buf') = rb_contents (view buf)"
  shows "\<exists>rest. accepted (sy_events S i) (rs_taken R (ri_entry (mc_read conn)) @ rest) \<and> (\<not> actor_dropped c \<longrightarrow> rest = [])"
proof -
  note seen = accepted_seen [OF fr c only laws start run1 acc a run2 lag]
  have inv: "rs_inv A True R" using seen(1) by (simp add: rs_view_def)
  note eof = read_eof [OF laws(1,2) inv arc buf read [unfolded MuxConnection_poll_read_def] same]
  have "got_part c (sy_events S i) a R (ri_entry (mc_read conn))"
    using followed_part [where src = src and R = R and L = True, OF fr c only _ lag] seen eof(3) by simp
  with eof(1,2) show ?thesis by (auto simp: got_part_def ran_def)
qed

lemma listen_run_prefix:
  assumes laws: "reader_laws B A view src" "budget_laws A fuel" "listener_stays A" "channel_laws A X sent handed" "recv_laws X src"
    and start: "a \<notin> mine" "sent v = []"
    and run: "(listen_step B A X u view src sent handed mine)\<^sup>*\<^sup>* (read_start v) P" "(listen_step B A X u view src sent handed mine)\<^sup>*\<^sup>* P Q"
  shows "tracks A src sent handed a P Q" and "prefix (src (rs_world P)) (src (rs_world Q))"
proof -
  note t0 = read_start_tracked [where A = A and src = src and sent = sent and a = a and k = 0 and v = v, OF laws(3) start(2)]
  from listen_run_tracks [OF laws run(1) start(1) t0] t0 obtain k cv where t: "tracked A src sent a k P cv" unfolding tracks_def by blast
  from listen_run_tracks [OF laws run(2) start(1) t] show tr: "tracks A src sent handed a P Q" .
  from tr t show "prefix (src (rs_world P)) (src (rs_world Q))" unfolding tracks_def prefix_def by blast
qed

section \<open>Everything has arrived\<close>

text \<open>
  A listening end that has seen the whole wire while nobody was writing: the connection that it handed to the channel for the address of a writer that
  shook hands.
\<close>

lemma end_to_end:
  fixes R :: "('l, 'v) read_sys"
  assumes W: "wire_laws W m wire holder rest" "(sys_step (actor_step W) (fresh_actor m))\<^sup>*\<^sup>* (sys_start w) S"
      "wire w = []" "holder w = None" "holder (sy_world S) = None"
    and c: "sy_actors S i = Some (ActConn True c)" "WriteInner_addr c = a"
      "\<forall>j d. sy_actors S j = Some d \<longrightarrow> actor_addr d = a \<longrightarrow> j = i"
    and laws: "reader_laws B A view src" "budget_laws A fuel" "listener_stays A" "channel_laws A X sent handed" "recv_laws X src"
    and start: "a \<notin> mine" "src v = []" "sent v = []"
    and run: "(listen_step B A X u view src sent handed mine)\<^sup>*\<^sup>* (read_start v) R"
    and all: "src (rs_world R) = wire (sy_world S)"
  shows "\<exists>k bs. filter (\<lambda>m. fst m = a) (sent (rs_world R)) = [(a, \<lparr>ri_entry = k\<rparr>)] \<and> accepted (sy_events S i) (bs @ wi_payload c) \<and>
    (live (rs_reader R) k \<longrightarrow> abs_got (rs_taken R) (rs_reader R) k = bs) \<and>
    (if wi_state c = Shutdown ShutDone then lr_map (rs_reader R) a = None \<and> k \<notin> ran (lr_map (rs_reader R))
     else lr_map (rs_reader R) a = Some k)"
proof -
  obtain F bs where fr: "wire_system.framed wire holder m rest F bs S" by (rule writers_framed [OF W(1-4)])
  note F = wire_system.framedD [OF fr]
  let ?fs = "map (\<lambda>(j, p). (actor_addr (the (sy_actors S j)), p)) F" and ?g = "concat (share i F)"
  have ok: "accepted (sy_events S i) (?g @ wi_payload c)"
    "if wi_state c = Shutdown ShutDone then ended_session True (share i F) else session True (share i F)"
    using F(3) [OF c(1)] by simp_all
  have src: "src (rs_world R) = frames ?fs" using F(1,5) W(5) all by (simp add: log_bytes_def)
  have len: "\<forall>f \<in> set ?fs. length (snd f) \<le> 65535" using F(2) by (auto simp: case_prod_beta)
  have of_a: "frames_of a ?fs = map (Pair a) (share i F)"
    by (rule log_frames_of [OF _ c(1) _ c(3)]) (use F(2) c(2) in auto)
  note t0 = read_start_tracked [where A = A and src = src and sent = sent and a = a and k = 0 and v = v, OF laws(3) start(3)]
  from listen_run_tracks [OF laws run start(1) t0] t0 obtain k
    where k: "tracked A src sent a k R (cv_run True a (src (rs_world R)) (InHeader [], Unborn))"
    unfolding tracks_def using start(2) by (fastforce simp: read_start_def)
  have "cv_run True a (src (rs_world R)) (InHeader [], Unborn) = (InHeader [], fold (cv_frame True a) (map (Pair a) (share i F)) Unborn)"
    using cv_run_frames [OF len, of True a Unborn] cv_frames_of [of True a ?fs Unborn] of_a src by simp
  also have "\<dots> = (InHeader [], if wi_state c = Shutdown ShutDone then Ended ?g else Opened ?g)"
    using ok(2) session_view [of True "share i F" True a] ended_session_view [of True "share i F" True a] by simp
  finally have "tracked A src sent a k R (InHeader [], if wi_state c = Shutdown ShutDone then Ended ?g else Opened ?g)"
    using k by simp
  with ok(1) show ?thesis
    by (intro exI [of _ k] exI [of _ ?g]) (auto simp: tracked_def rs_view_def follows_def abs_sys_def Let_def split: if_splits)
qed

section \<open>Who is accepted\<close>

text \<open>A message of the channel has the address of a writer of the other end.\<close>

lemma accepted_known:
  fixes R :: "('l, 'v) read_sys"
  assumes fr: "wire_system.framed wire holder m rest F bs S" and none: "\<forall>j d. sy_actors S j = Some d \<longrightarrow> actor_addr d \<noteq> a"
    and laws: "reader_laws B A view src" "budget_laws A fuel" "listener_stays A" "channel_laws A X sent handed" "recv_laws X src"
    and start: "a \<notin> mine" "src v = []" "sent v = []"
    and run: "(listen_step B A X u view src sent handed mine)\<^sup>*\<^sup>* (read_start v) R"
    and lag: "prefix (src (rs_world R)) (wire (sy_world S))"
  shows "\<forall>msg \<in> set (sent (rs_world R)). fst msg \<noteq> a"
proof -
  note t0 = read_start_tracked [where A = A and src = src and sent = sent and a = a and k = 0 and v = v, OF laws(3) start(3)]
  from listen_run_tracks [OF laws run start(1) t0] t0 obtain k
    where k: "tracked A src sent a k R (cv_run True a (src (rs_world R)) (InHeader [], Unborn))"
    unfolding tracks_def using start(2) by (fastforce simp: read_start_def)
  let ?st = "snd (cv_run True a (src (rs_world R)) (InHeader [], Unborn))"
  obtain G Y where G: "wire (sy_world S) @ Y = log_bytes actor_addr (sy_actors S) (F @ G)"
    "\<forall>f \<in> set (F @ G). fst f \<in> dom (sy_actors S) \<and> length (snd f) \<le> 65535"
    by (rule log_completes [OF fr]) blast
  let ?fs = "map (\<lambda>(j, p). (actor_addr (the (sy_actors S j)), p)) (F @ G)"
  from lag obtain Z where "src (rs_world R) @ Z = wire (sy_world S)" by (auto simp: prefix_def)
  then have fs: "src (rs_world R) @ Z @ Y = frames ?fs" using G(1) by (simp add: log_bytes_def flip: append.assoc)
  have len: "\<forall>f \<in> set ?fs. length (snd f) \<le> 65535" using G(2) by (simp only: set_map ball_simps) (simp add: case_prod_beta)
  have "frames_of a ?fs = map (Pair a) []" using log_no_frames_of [OF _ none] G(2) by simp
  from lagging_view [OF fs len this, of True Unborn "[]"] have "?st = Unborn" by (cases ?st) auto
  with k show ?thesis by (auto simp: tracked_def Let_def filter_empty_conv)
qed

text \<open>Two calls of \<open>accept\<close>, one after the other, return different connections of different addresses.\<close>

lemma two_of_filter:
  assumes "i < j" and "j < length xs" and "P (xs ! i)" and "P (xs ! j)"
  shows "filter P xs \<noteq> [x]"
proof -
  have "xs ! i \<in> set (filter P (take j xs))" using assms by (auto simp: in_set_conv_nth intro!: exI [of _ i])
  then obtain y ys where "filter P (take j xs) = y # ys" by (metis list.set_cases)
  moreover have "filter P xs = filter P (take j xs) @ filter P (xs ! j # drop (Suc j) xs)"
    by (metis assms(2) filter_append id_take_nth_drop)
  ultimately show ?thesis using assms(4) by simp
qed

lemma accepts_differ:
  fixes R R1 R2 :: "('l, 'v) read_sys"
  assumes laws: "reader_laws B A view src" "budget_laws A fuel" "listener_stays A" "channel_laws A X sent handed" "recv_laws X src"
    and start: "a \<notin> mine" "sent v = []"
    and run1: "(listen_step B A X u view src sent handed mine)\<^sup>*\<^sup>* (read_start v) R1"
    and acc1: "MuxListener_accept B A X u l fut1 (rs_reader R1) cx1 (rs_world R1) = Some (Done (Ready (Inr conn1)), fut1', s1, w1, wk1)"
    and run2: "(listen_step B A X u view src sent handed mine)\<^sup>*\<^sup>* (R1\<lparr>rs_reader := s1, rs_world := w1\<rparr>) R2"
    and acc2: "MuxListener_accept B A X u l fut2 (rs_reader R2) cx2 (rs_world R2) = Some (Done (Ready (Inr conn2)), fut2', s2, w2, wk2)"
    and run3: "(listen_step B A X u view src sent handed mine)\<^sup>*\<^sup>* (R2\<lparr>rs_reader := s2, rs_world := w2\<rparr>) R"
  shows "ri_entry (mc_read conn1) \<noteq> ri_entry (mc_read conn2)"
    and "filter (\<lambda>m. fst m = a) (sent (rs_world R)) = [x] \<Longrightarrow> MuxConnection_addr conn1 = a \<Longrightarrow> MuxConnection_addr conn2 \<noteq> a"
    and "{(MuxConnection_addr conn1, mc_read conn1), (MuxConnection_addr conn2, mc_read conn2)} \<subseteq> set (sent (rs_world R))"
proof -
  let ?i = "handed (rs_world R1)" and ?j = "handed (rs_world R2)" and ?ms = "sent (rs_world R)"
  let ?S1 = "R1\<lparr>rs_reader := s1, rs_world := w1\<rparr>" and ?S2 = "R2\<lparr>rs_reader := s2, rs_world := w2\<rparr>"
  have step1: "listen_step B A X u view src sent handed mine R1 ?S1" by (rule accept_step [OF acc1]) simp
  have step2: "listen_step B A X u view src sent handed mine R2 ?S2" by (rule accept_step [OF acc2]) simp
  note all2 = rtranclp_trans [OF rtranclp.rtrancl_into_rtrancl [OF run1 step1] run2]
  note tr = listen_run_prefix(1) [OF laws start]
  note T1 = tr [OF rtranclp.rtrancl_into_rtrancl [OF run1 step1] run2]
  note T2 = tr [OF rtranclp.rtrancl_into_rtrancl [OF all2 step2] run3]
  note T = tr [OF rtranclp.rtrancl_refl rtranclp_trans [OF rtranclp.rtrancl_into_rtrancl [OF all2 step2] run3]]
  note m1 = accept_message [OF laws(4,5) acc1] and m2 = accept_message [OF laws(4,5) acc2]
  have ij: "?i < ?j" using T1 m1(6) by (simp add: tracks_def)
  have pre2: "prefix (sent (rs_world R2)) ?ms" using T2 m2(5) by (simp add: tracks_def)
  have pre1: "prefix (sent (rs_world R1)) (sent (rs_world R2))" using T1 m1(5) by (simp add: tracks_def)
  from pre2 m2(1,2) have j: "?j < length ?ms" "?ms ! ?j = (MuxConnection_addr conn2, mc_read conn2)" by (auto simp: prefix_def nth_append)
  from prefix_order.trans [OF pre1 pre2] m1(1,2) have i: "?i < length ?ms" "?ms ! ?i = (MuxConnection_addr conn1, mc_read conn1)"
    by (auto simp: prefix_def nth_append)
  have "numbered sent R" using T start(2) by (simp add: tracks_def numbered_def read_start_def)
  then have "distinct (map (\<lambda>m. ri_entry (snd m)) ?ms)" by (simp add: numbered_def)
  from nth_eq_iff_index_eq [OF this, of ?i ?j] ij i j show "ri_entry (mc_read conn1) \<noteq> ri_entry (mc_read conn2)" by simp
  show "MuxConnection_addr conn2 \<noteq> a" if "filter (\<lambda>m. fst m = a) ?ms = [x]" "MuxConnection_addr conn1 = a"
    using two_of_filter [OF ij j(1), of "\<lambda>m. fst m = a" x] that i j by auto
  show "{(MuxConnection_addr conn1, mc_read conn1), (MuxConnection_addr conn2, mc_read conn2)} \<subseteq> set ?ms"
    using i j nth_mem by (metis empty_subsetI insert_subset)
qed

end
