(* ===== verification/Mock_Stream.thy ===== *)
theory Mock_Stream
  imports Read_Poll
begin

text \<open>
  Concrete instances of the parameters of the reading side: a \<open>ReadBuf\<close> that is its own view, and a
  stream that delivers given bytes in pieces as a script says. They satisfy the laws, so the
  hypotheses of the properties can hold, and concrete runs of the model are computed on them.
\<close>

section \<open>The buffer\<close>

definition view_api :: "rb_view readbuf_api" where
  "view_api =
     \<lparr>rb_uninit = (\<lambda>m n. \<lparr>v_mem = m, v_cap = n, v_filled = 0, v_init = 0\<rparr>),
      rb_assume_init = (\<lambda>k v. v\<lparr>v_init := max (v_init v) (v_filled v + k)\<rparr>),
      rb_set_filled = (\<lambda>k v. if k \<le> v_init v then Done (v\<lparr>v_filled := k\<rparr>) else Panicked),
      rb_remaining = (\<lambda>v. v_cap v - v_filled v),
      rb_filled = (\<lambda>v. case mem_read (v_mem v) 0 (v_filled v) of None \<Rightarrow> replicate (v_filled v) 0 | Some xs \<Rightarrow> xs),
      rb_initialized = v_init,
      rb_unfilled = (\<lambda>v. v_cap v - v_filled v),
      rb_store = (\<lambda>bs v. v\<lparr>v_mem := mem_write (v_mem v) (v_filled v) bs\<rparr>),
      rb_put_slice = (\<lambda>bs v. if length bs \<le> v_cap v - v_filled v then Done (rb_put v bs) else Panicked),
      rb_mem = v_mem\<rparr>"

lemma view_api_laws: "readbuf_laws view_api id"
  by (auto simp: readbuf_laws_def view_api_def rb_put_def split: option.split)

lemma view_api_simps [simp]:
  "rb_uninit view_api m n = \<lparr>v_mem = m, v_cap = n, v_filled = 0, v_init = 0\<rparr>"
  "rb_assume_init view_api k v = v\<lparr>v_init := max (v_init v) (v_filled v + k)\<rparr>"
  "rb_set_filled view_api k v = (if k \<le> v_init v then Done (v\<lparr>v_filled := k\<rparr>) else Panicked)"
  "rb_remaining view_api v = v_cap v - v_filled v" "rb_initialized view_api v = v_init v"
  "length (rb_filled view_api v) = v_filled v" "rb_mem view_api v = v_mem v"
  by (auto simp: view_api_def split: option.split)

lemma view_api_filled_Nil [simp]: "rb_filled view_api v = [] \<longleftrightarrow> v_filled v = 0"
  by (metis length_0_conv view_api_simps(6))

section \<open>The stream\<close>

text \<open>
  Each entry of the script answers one read: \<open>0\<close> is \<open>Pending\<close>, \<open>n\<close> delivers at most \<open>n\<close> bytes; when
  the script is used up, everything that fits is delivered. No bytes left is the end of the stream.
\<close>

record mock_world =
  mw_data :: "byte list"
  mw_seen :: "byte list"
  mw_script :: "nat list"
  mw_budget :: nat
  mw_sent :: "(socket_addr \<times> reader_inner) list"
  mw_handed :: nat

definition mock_take :: "nat option \<Rightarrow> rb_view \<Rightarrow> mock_world \<Rightarrow> byte list" where
  "mock_take limit v w =
     (let room = v_cap v - v_filled v;
          n = (case limit of None \<Rightarrow> room | Some l \<Rightarrow> min l room);
          m = (case mw_script w of [] \<Rightarrow> n | k # ks \<Rightarrow> min k n)
      in take m (mw_data w))"

definition mock_read ::
  "nat option \<Rightarrow> waker \<Rightarrow> rb_view \<Rightarrow> mock_world \<Rightarrow> unit io_result poll \<times> rb_view \<times> mock_world" where
  "mock_read limit cx v w =
     (let bs = mock_take limit v w;
          w' = w\<lparr>mw_data := drop (length bs) (mw_data w), mw_seen := mw_seen w @ bs, mw_script := tl (mw_script w)\<rparr>
      in (if mw_script w \<noteq> [] \<and> hd (mw_script w) = 0 then Pending else Ready (Inr ()), rb_put v bs, w'))"

definition mock_api :: "bool \<Rightarrow> (mock_world, rb_view, socket_addr \<times> reader_inner) reader_api" where
  "mock_api L =
     \<lparr>r_poll_read = mock_read None,
      r_poll_take = (\<lambda>n. mock_read (Some n)),
      r_is_disconnected = (\<lambda>w. \<not> L),
      r_send_async = (\<lambda>m w. (m, w\<lparr>mw_sent := mw_sent w @ [m]\<rparr>)),
      r_poll_send = (\<lambda>m cx w. (Ready (Inr ()), m, w)),
      r_consume_budget = (\<lambda>cx w. case mw_budget w of 0 \<Rightarrow> (Pending, w) | Suc n \<Rightarrow> (Ready (), w\<lparr>mw_budget := n\<rparr>)),
      r_alloc = (\<lambda>n w. (True, w))\<rparr>"

lemma mock_api_simps [simp]:
  "r_poll_read (mock_api L) = mock_read None" "r_poll_take (mock_api L) n = mock_read (Some n)"
  "r_is_disconnected (mock_api L) w = (\<not> L)"
  "r_consume_budget (mock_api L) cx w = (case mw_budget w of 0 \<Rightarrow> (Pending, w) | Suc n \<Rightarrow> (Ready (), w\<lparr>mw_budget := n\<rparr>))"
  by (simp_all add: mock_api_def)

lemma rb_put_simps [simp]:
  "v_mem (rb_put v bs) = mem_write (v_mem v) (v_filled v) bs" "v_filled (rb_put v bs) = v_filled v + length bs"
  "v_init (rb_put v bs) = max (v_init v) (v_filled v + length bs)" "v_cap (rb_put v bs) = v_cap v"
  by (simp_all add: rb_put_def)

lemma mock_take_bound:
  "length (mock_take limit v w) \<le> v_cap v - v_filled v" "within limit (length (mock_take limit v w))"
  by (auto simp: mock_take_def Let_def within_def split: option.split list.split)

lemma mock_fills: "fills id mw_seen limit (mock_read limit)"
proof -
  have "rb_grown v (mock_take limit v w) (rb_put v (mock_take limit v w))" if "rb_ok v" for v w
    by (rule rb_put_grown [OF that mock_take_bound(1)])
  moreover have "mock_take limit v w = []" if "mw_script w \<noteq> []" "hd (mw_script w) = 0" for v w
    using that by (auto simp: mock_take_def Let_def neq_Nil_conv)
  ultimately show ?thesis
    by (auto simp: fills_def mock_read_def Let_def mock_take_bound(2) split: if_splits)
qed

lemma mock_laws: "reader_laws view_api (mock_api L) id mw_seen"
  by (simp add: reader_laws_def view_api_laws mock_api_def mock_fills split: nat.split)

lemma mock_budget: "budget_laws (mock_api L) mw_budget"
  by (simp add: budget_laws_def mock_api_def mock_read_def Let_def split: nat.split)

lemma mock_listening: "L \<or> \<not> sending s \<Longrightarrow> listening (mock_api L) L s"
  by (auto simp: listening_def listener_stays_def mock_api_def)

lemma new_reader_inv: "lr_inv SharedReader_new" "\<not> sending SharedReader_new" "taken_ok (\<lambda>_. []) s"
  by (simp_all add: lr_inv_def heap_inv_def SharedReader_new_def sending_def next_packet_def taken_ok_def)

end
