(* ===== verification/Read_Props.thy ===== *)
theory Read_Props
  imports Mock_Stream
begin

text \<open>
  The contract of the reading side, with an application of each theorem to a concrete stream.
\<close>

section \<open>Sample states\<close>

definition addr1 :: socket_addr where
  "addr1 = SocketAddr_from_std (SockV4 (Ipv4Addr 127 0 0 1) 80)"

definition mock0 :: "byte list \<Rightarrow> nat list \<Rightarrow> mock_world" where
  "mock0 bs script = \<lparr>mw_data = bs, mw_seen = [], mw_script = script, mw_budget = 10, mw_sent = [], mw_handed = 0\<rparr>"

text \<open>A reader with one connection, and the same with three bytes in its buffer.\<close>

definition conn_buffer :: "byte list \<Rightarrow> read_buffer" where
  "conn_buffer bs = \<lparr>rd_ptr = mem_write Map.empty 0 bs, rd_capacity = DEFAULT_BUFFER_CAPACITY, rd_pos = 0,
     rd_filled = length bs, rd_initialized = length bs\<rparr>"

definition one_conn :: "byte list \<Rightarrow> (socket_addr \<times> reader_inner) locked_reader" where
  "one_conn bs =
     \<lparr>lr_heap = [0 \<mapsto> \<lparr>ae_strong = 1, ae_weak = 1,
        ae_entry = \<lparr>reader_pipe_waker = Task 5, waiting_waker = Task 6, re_buffer = conn_buffer bs\<rparr>\<rparr>],
      lr_next = 1, lr_map = [addr1 \<mapsto> 0], lr_state = next_packet\<rparr>"

lemma conn_buffer_inv:
  assumes "length bs \<le> 100"
  shows "rd_inv (conn_buffer bs)" and "rd_contents (conn_buffer bs) = bs"
proof -
  have "mem_read (mem_write Map.empty 0 bs) 0 (length bs) = Some bs" by simp
  with assms show "rd_inv (conn_buffer bs)" "rd_contents (conn_buffer bs) = bs"
    by (simp_all add: rd_inv_def rd_contents_def conn_buffer_def DEFAULT_BUFFER_CAPACITY_def)
qed

lemma one_conn_inv: "length bs \<le> 100 \<Longrightarrow> lr_inv (one_conn bs)"
  using conn_buffer_inv [of bs]
  by (auto simp: lr_inv_def heap_inv_def one_conn_def entry_ok_def conn_buffer_def [of bs] split: if_splits)

lemma one_conn_facts [simp]:
  "\<not> sending (one_conn bs)" "lr_map (one_conn bs) = [addr1 \<mapsto> 0]" "live (one_conn bs) 0"
  "lr_state (one_conn bs) = next_packet"
  by (simp_all add: one_conn_def sending_def next_packet_def live_def)

section \<open>The buffer of a connection\<close>

text \<open>
  \<open>fill_buffer\<close> on a well-formed buffer has no undefined behaviour and no panic: it appends exactly
  the bytes the reader took from the stream and reports how many; \<open>None\<close> means that there was no
  room and the reader was not asked.
\<close>

theorem fill_buffer_contract:
  assumes "readbuf_laws B view" and "rd_inv q" and "fills view src limit reader"
  shows "\<exists>r q' w' bs. ReadBuffer_fill_buffer B q cx reader w = (Done r, q', w') \<and>
    rd_inv q' \<and> rd_contents q' = rd_contents q @ bs \<and> src w' = src w @ bs \<and> within limit (length bs) \<and>
    (case r of
       Ready (Inr (Some n)) \<Rightarrow> n = length bs
     | Ready (Inr None) \<Rightarrow> bs = [] \<and> q' = q \<and> w' = w \<and> rd_filled q = rd_capacity q
     | _ \<Rightarrow> bs = [])"
  by (rule fill_buffer_spec [OF assms, where cx = cx and w = w]) blast

theorem fill_buffer_contract_witness:
  "\<exists>r q' w' bs. ReadBuffer_fill_buffer view_api (conn_buffer [1, 2]) (Task 1) (mock_read (Some 3)) (mock0 [4, 5, 6, 7] []) =
     (Done r, q', w') \<and> rd_contents q' = [1, 2] @ bs \<and> mw_seen w' = bs"
proof -
  have "rd_inv (conn_buffer [1, 2])" by (rule conn_buffer_inv) simp
  from fill_buffer_contract [OF view_api_laws this mock_fills, of "Task 1" "Some 3" "mock0 [4, 5, 6, 7] []"] show ?thesis
    by (auto simp: conn_buffer_inv mock0_def)
qed

text \<open>
  \<open>read\<close> on a well-formed buffer has no undefined behaviour and no panic: it moves as many bytes as
  both sides allow, from the front of the buffer to the end of the caller's filled part.
\<close>

theorem buffer_read_contract:
  assumes "readbuf_laws B view" and "rd_inv q" and "rb_ok (view b)"
    and "n = min (v_cap (view b) - v_filled (view b)) (length (rd_contents q))"
  shows "\<exists>q' b'. ReadBuffer_read B q b = Done (q', b') \<and> rd_inv q' \<and> rd_capacity q' = rd_capacity q \<and>
    rd_contents q' = drop n (rd_contents q) \<and> rb_grown (view b) (take n (rd_contents q)) (view b')"
  unfolding assms(4) by (rule read_spec [OF assms(1-3)]) blast

theorem buffer_read_contract_witness:
  "\<exists>q' b'. ReadBuffer_read view_api (conn_buffer [1, 2, 3]) \<lparr>v_mem = Map.empty, v_cap = 2, v_filled = 0, v_init = 0\<rparr> = Done (q', b') \<and>
     rd_contents q' = [3] \<and> rb_contents b' = [1, 2]"
proof -
  let ?v = "\<lparr>v_mem = Map.empty, v_cap = 2, v_filled = 0, v_init = 0\<rparr>"
  have q: "rd_inv (conn_buffer [1, 2, 3])" "rd_contents (conn_buffer [1, 2, 3]) = [1, 2, 3]"
    by (rule conn_buffer_inv, simp)+
  have v: "rb_ok (id ?v)" "2 = min (v_cap (id ?v) - v_filled (id ?v)) (length (rd_contents (conn_buffer [1, 2, 3])))"
    "rb_contents ?v = []"
    by (simp_all add: rb_ok_def q rb_contents_def)
  from buffer_read_contract [OF view_api_laws q(1) v(1,2)] show ?thesis using v(3) by (auto simp: q rb_grown_def)
qed

text \<open>
  C20. A buffer is first in, first out over every interleaving of fills and reads: what came out, followed
  by what is still there, is what was there at the start followed by what went in.
\<close>

theorem buffer_fifo:
  assumes "fifo_path (rd_fill B view src) (rd_drain B view) q tr q'" and "rd_inv q"
  shows "rd_inv q' \<and> rd_contents q @ ins tr = outs tr @ rd_contents q'"
  by (rule rd_fifo.path_order [OF assms])

theorem buffer_fifo_witness:
  "\<exists>q2 bs cs. fifo_path (rd_fill view_api id (mw_seen :: mock_world \<Rightarrow> byte list)) (rd_drain view_api id) (conn_buffer [1]) [Into bs, Out cs] q2 \<and>
     [1] @ bs = cs @ rd_contents q2"
proof -
  have inv: "rd_inv (conn_buffer [1])" "rd_contents (conn_buffer [1]) = [1]" by (rule conn_buffer_inv, simp)+
  obtain r q1 w' bs where f: "ReadBuffer_fill_buffer view_api (conn_buffer [1]) (Task 1) (mock_read (Some 3)) (mock0 [4, 5] []) = (Done r, q1, w')"
    "rd_inv q1" "mw_seen w' = mw_seen (mock0 [4, 5] []) @ bs"
    by (rule fill_buffer_spec [OF view_api_laws inv(1) mock_fills])
  have 1: "rd_fill view_api id (mw_seen :: mock_world \<Rightarrow> byte list) (conn_buffer [1]) bs q1"
    unfolding rd_fill_def by (rule conjI [OF view_api_laws], (rule exI)+, rule conjI [OF mock_fills conjI [OF f(1) f(3)]])
  let ?v = "\<lparr>v_mem = Map.empty, v_cap = 2, v_filled = 0, v_init = 0\<rparr>"
  have v: "rb_ok (id ?v)" by (simp add: rb_ok_def)
  obtain q2 b' where d: "ReadBuffer_read view_api q1 ?v = Done (q2, b')"
    "rb_grown (id ?v) (take (min (v_cap (id ?v) - v_filled (id ?v)) (length (rd_contents q1))) (rd_contents q1)) (id b')"
    by (rule read_spec [OF view_api_laws f(2) v])
  have 2: "rd_drain view_api id q1 (take (min (v_cap (id ?v) - v_filled (id ?v)) (length (rd_contents q1))) (rd_contents q1)) q2"
    unfolding rd_drain_def using d
    by (intro conjI view_api_laws exI [of _ ?v] exI [of _ b'] v) (simp_all add: rb_grown_def)
  have path: "fifo_path (rd_fill view_api id (mw_seen :: mock_world \<Rightarrow> byte list)) (rd_drain view_api id) (conn_buffer [1])
      [Into bs, Out (take (min (v_cap (id ?v) - v_filled (id ?v)) (length (rd_contents q1))) (rd_contents q1))] q2"
    by (rule fifo_path.path_fill, rule 1, rule fifo_path.path_drain, rule 2, rule fifo_path.path_nil)
  from buffer_fifo [OF path inv(1)] path inv(2) show ?thesis by auto
qed

section \<open>Runs on the sample stream\<close>

lemma mock_header_step:
  assumes st: "lr_state s = next_packet" and data: "mw_data w = MuxFrameHeader_bytes h @ rest"
    and script: "mw_script w = MuxFrameHeader_size # ks"
  shows "ReaderMut_poll_once view_api (mock_api L) s cx w =
    packet_header (mock_api L) (s\<lparr>lr_state := NextPacket (mem_write Map.empty 0 (MuxFrameHeader_bytes h)) 0\<rparr>) h cx
      (w\<lparr>mw_data := rest, mw_seen := mw_seen w @ MuxFrameHeader_bytes h, mw_script := ks\<rparr>)"
proof -
  let ?v = "\<lparr>v_mem = Map.empty, v_cap = MuxFrameHeader_size, v_filled = 0, v_init = 0\<rparr>"
    and ?bs = "MuxFrameHeader_bytes h"
  have r: "mem_read (mem_write Map.empty 0 ?bs) 0 MuxFrameHeader_size = Some ?bs"
    using mem_write_same [of Map.empty 0 ?bs] by simp
  have p: "mock_read None cx ?v w = (Ready (Inr ()), rb_put ?v ?bs,
      w\<lparr>mw_data := rest, mw_seen := mw_seen w @ ?bs, mw_script := ks\<rparr>)"
    by (simp add: mock_read_def mock_take_def data script Let_def)
  have h: "MuxFrameHeader_of_bytes ?bs = h" using MuxFrameHeader_of_bytes_append [of h "[]"] by simp
  show ?thesis
    unfolding ReaderMut_poll_once_def ReaderMut_poll_next_packet_def st next_packet_def
    using p r h by (simp add: Let_def)
qed

lemma mock_pending_step:
  assumes st: "lr_state s = next_packet" and script: "mw_script w = 0 # ks"
  shows "ReaderMut_poll_once view_api (mock_api L) s cx w = (Done Pending, s, w\<lparr>mw_script := ks\<rparr>, [])"
proof -
  have p: "mock_read None cx v w = (Pending, rb_put v [], w\<lparr>mw_script := ks\<rparr>)" for v
    by (simp add: mock_read_def mock_take_def script Let_def)
  show ?thesis
    unfolding ReaderMut_poll_once_def ReaderMut_poll_next_packet_def st next_packet_def
    using p st by (simp add: Let_def next_packet_def)
qed

text \<open>The header and the payload of a frame for the sample connection.\<close>

abbreviation (input) world_at :: "byte list \<Rightarrow> byte list \<Rightarrow> nat list \<Rightarrow> nat \<Rightarrow> mock_world" where
  "world_at left seen script n \<equiv> \<lparr>mw_data = left, mw_seen = seen, mw_script = script, mw_budget = n, mw_sent = [], mw_handed = 0\<rparr>"

lemma sample_header_step:
  "ReaderMut_poll_once view_api (mock_api L) (one_conn []) cx (world_at (frame addr1 [1, 2, 3] @ rest) [] (20 # ks) n) =
   (Done (Ready (Inr ())), (one_conn [])\<lparr>lr_state := Read addr1 3\<rparr>,
    world_at ([1, 2, 3] @ rest) (take 20 (frame addr1 [1, 2, 3])) ks n, [])"
  by (subst mock_header_step [where h = "\<lparr>socket = addr1, len = NetworkOrderU16_new 3\<rparr>" and rest = "[1, 2, 3] @ rest" and ks = ks])
    (simp_all add: frame_def packet_header_def MuxFrameHeader_addr_def MuxFrameHeader_len_def ReaderMut_read_def)

lemma sample_body_step:
  "ReaderMut_poll_once view_api (mock_api L) ((one_conn [])\<lparr>lr_state := Read addr1 3\<rparr>) cx
     (world_at ([1, 2, 3] @ rest) seen (3 # ks) n) =
   (Done (Ready (Inr ())), one_conn [1, 2, 3], world_at rest (seen @ [1, 2, 3]) ks n, [Task 5])"
proof -
  have "ReadBuffer_fill_buffer view_api (conn_buffer []) cx (mock_read (Some 3)) (world_at ([1, 2, 3] @ rest) seen (3 # ks) n) =
      (Done (Ready (Inr (Some 3))), conn_buffer [1, 2, 3], world_at rest (seen @ [1, 2, 3]) ks n)"
    by (simp add: ReadBuffer_fill_buffer_def ReadBuffer_readbuf_def conn_buffer_def mock_read_def mock_take_def
        DEFAULT_BUFFER_CAPACITY_def Let_def)
  then show ?thesis
    by (simp add: ReaderMut_poll_once_def ReaderMut_poll_read_def upgrade_def one_conn_def put_entry_def
        read_finish_def ReaderMut_next_packet_def)
qed

section \<open>The shared reader\<close>

text \<open>
  C11. Every poll of the shared reader returns without panic and without undefined behaviour, and is a run
  of the abstract demultiplexer on exactly the bytes it took from the stream: on \<open>Pending\<close> the
  reader is in the state of the automaton, and an error (other than a failed allocation) has lost
  nothing that was delivered before.
\<close>

theorem shared_reader_refines_demux:
  assumes "reader_laws B A view src" and "budget_laws A fuel"
    and "lr_inv s" and "taken_ok taken s" and "listening A L s"
  shows "\<exists>r s' w' wk bs. SharedReader_poll B A s cx w = Some (Done r, s', w', wk) \<and> src w' = src w @ bs \<and>
    lr_inv s' \<and> live s' = live s \<and>
    (case r of
       Pending \<Rightarrow> abs_reader taken s' = dx_run L (live s) bs (abs_reader taken s)
     | Ready e \<Rightarrow> kind e = OutOfMemory \<or>
         dx_open (abs_reader taken s') = dx_open (dx_run L (live s) bs (abs_reader taken s)) \<and>
         dx_got (abs_reader taken s') = dx_got (dx_run L (live s) bs (abs_reader taken s)))"
proof -
  from reader_poll_ok [OF assms, of cx w "[]"] obtain r s' w' wk bs
    where "SharedReader_poll B A s cx w = Some (Done r, s', w', wk)" "src w' = src w @ bs" "lr_inv s'" "live s' = live s"
      "poll_outcome taken L s bs r s'"
    by (auto simp: SharedReader_poll_def)
  then show ?thesis
    by (intro exI [of _ r] exI [of _ s'] exI [of _ w'] exI [of _ wk] exI [of _ bs])
      (auto simp: poll_outcome_def Let_def split: poll.splits)
qed

theorem shared_reader_refines_demux_witness:
  "\<exists>r s' w' wk bs. SharedReader_poll view_api (mock_api True) (one_conn []) (Task 1)
       (mock0 (frame addr1 [1, 2, 3]) [5, 15, 0]) = Some (Done r, s', w', wk) \<and> mw_seen w' = bs \<and> lr_inv s'"
proof -
  have "listening (mock_api True) True (one_conn [])" by (rule mock_listening) simp
  from shared_reader_refines_demux [OF mock_laws mock_budget one_conn_inv new_reader_inv(3) this, of "Task 1"
      "mock0 (frame addr1 [1, 2, 3]) [5, 15, 0]"] show ?thesis
    by (auto simp: mock0_def)
qed

text \<open>
  C9. Demultiplexing is correct: if a poll that starts between two frames took the frames \<open>fs\<close> from the
  stream and is pending, then every connection that was open and not closed by them has got, after
  what it had, exactly the payloads addressed to it, in order.
\<close>

theorem shared_reader_delivers:
  assumes "reader_laws B A view src" and "budget_laws A fuel"
    and "lr_inv s" and "taken_ok taken s" and "listening A L s" and "abs_phase (lr_state s) = InHeader []"
    and "SharedReader_poll B A s cx w = Some (Done Pending, s', w', wk)" and "src w' = src w @ frames fs"
    and "\<forall>f \<in> set fs. length (snd f) \<le> 65535"
    and "lr_map s a = Some i" and "live s i" and "(a, []) \<notin> set fs"
  shows "lr_map s' a = Some i \<and>
    abs_got taken s' i = abs_got taken s i @ concat (map snd (filter (\<lambda>f. fst f = a) fs))"
proof -
  let ?d = "abs_reader taken s"
  from reader_poll_ok [OF assms(1-5), of cx w "[]"] assms(7,8)
  have "abs_reader taken s' = dx_run L (live s) (frames fs) ?d"
    by (auto simp: SharedReader_poll_def poll_outcome_def)
  also have "\<dots> = fold (dx_frame L (live s)) fs ?d"
    by (rule dx_run_frames) (use assms in simp_all)
  finally have abs': "abs_reader taken s' = fold (dx_frame L (live s)) fs ?d" .
  have "dx_wf ?d" by (rule dx_wf_abs [OF assms(3)])
  from dx_frames_conn [OF this, of a i "live s" fs L] assms(10-12) show ?thesis
    by (simp add: abs' [symmetric])
qed

lemma sample_run:
  "SharedReader_poll view_api (mock_api L) (one_conn []) cx (mock0 (frame addr1 [1, 2, 3]) [20, 3, 0]) =
   Some (Done Pending, one_conn [1, 2, 3], world_at [] (frame addr1 [1, 2, 3]) [] 8, [Task 5])"
proof -
  have 3: "ReaderMut_poll_once view_api (mock_api L) (one_conn [1, 2, 3]) cx
      (world_at [] (take 20 (frame addr1 [1, 2, 3]) @ [1, 2, 3]) [0] 8) =
      (Done Pending, one_conn [1, 2, 3], world_at [] (take 20 (frame addr1 [1, 2, 3]) @ [1, 2, 3]) [] 8, [])"
    by (subst mock_pending_step [where ks = "[]"]) simp_all
  have "SharedReader_poll view_api (mock_api L) (one_conn []) cx (mock0 (frame addr1 [1, 2, 3]) [20, 3, 0]) =
      ReaderMut_poll view_api (mock_api L) ((one_conn [])\<lparr>lr_state := Read addr1 3\<rparr>) cx
        (world_at ([1, 2, 3] @ []) (take 20 (frame addr1 [1, 2, 3])) [3, 0] 9) []"
    unfolding SharedReader_poll_def mock0_def
    using reader_poll_continue [OF sample_header_step [where rest = "[]" and ks = "[3, 0]" and n = 10]] by simp
  also have "\<dots> = ReaderMut_poll view_api (mock_api L) (one_conn [1, 2, 3]) cx
      (world_at [] (take 20 (frame addr1 [1, 2, 3]) @ [1, 2, 3]) [0] 8) ([] @ [Task 5])"
    by (rule reader_poll_continue [OF sample_body_step]) simp
  also have "\<dots> = Some (Done Pending, one_conn [1, 2, 3],
      world_at [] (take 20 (frame addr1 [1, 2, 3]) @ [1, 2, 3]) [] 8, ([] @ [Task 5]) @ [])"
    by (rule reader_poll_stop(1) [OF 3])
  finally show ?thesis by (simp add: frame_def)
qed

theorem shared_reader_delivers_witness:
  "abs_got (\<lambda>_. []) (one_conn [1, 2, 3]) 0 = abs_got (\<lambda>_. []) (one_conn []) 0 @ [1, 2, 3]"
proof -
  have l: "listening (mock_api True) True (one_conn [])" by (rule mock_listening) simp
  have "abs_phase (lr_state (one_conn [])) = InHeader []" by simp
  from shared_reader_delivers [OF mock_laws mock_budget one_conn_inv new_reader_inv(3) l this sample_run,
      of "[(addr1, [1, 2, 3])]" addr1 0] show ?thesis
    by (simp add: mock0_def)
qed

end
