(* ===== verification/Conn_Props.thy ===== *)
theory Conn_Props
  imports Read_Props Read_System
begin

text \<open>
  The contract of one reading connection and of the map of connections, and the corners in which
  the reading side leaves its own contract.
\<close>

section \<open>Reading\<close>

text \<open>
  C12. A read on a live connection with room in the caller's buffer returns without panic. Buffered
  bytes are handed out first, in order and as many as fit, and the task waiting for room is woken;
  with an empty buffer the read is the end of the stream exactly if the connection is no longer in
  the map. Otherwise it registers its task as the one to wake when bytes arrive, polls the shared reader in that state, which
  acts as the automaton does on the bytes that it takes from the stream, and returns what the shared reader answers: \<open>Pending\<close> or its
  error, never \<open>Ready(Ok)\<close> without bytes.
\<close>

theorem conn_read_contract:
  assumes "reader_laws B A view src" and "budget_laws A fuel"
    and "lr_inv s" and "taken_ok taken s" and "listening A L s"
    and "lr_heap s (ri_entry this) = Some arc" and "0 < ae_strong arc"
    and "rb_ok (view buf)" and "v_filled (view buf) < v_cap (view buf)"
    and "c = rd_contents (re_buffer (ae_entry arc))" and "k = min (v_cap (view buf) - v_filled (view buf)) (length c)"
  shows "\<exists>r s' buf' w' wk. ReaderInner_poll_read B A this s cx buf w = Some (Done r, s', buf', w', wk) \<and>
    lr_inv s' \<and> rb_grown (view buf) (take k c) (view buf') \<and>
    (if c \<noteq> [] then r = Ready (Inr ()) \<and> w' = w \<and> wk = [waiting_waker (ae_entry arc)] \<and>
       abs_reader (taken(ri_entry this := taken (ri_entry this) @ take k c)) s' = abs_reader taken s
     else if ri_entry this \<notin> ran (lr_map s) then r = Ready (Inr ()) \<and> w' = w \<and> abs_reader taken s' = abs_reader taken s
     else drives B A (ri_entry this) (ae_entry arc) s cx w r s' w' wk \<and>
       (\<exists>bs. src w' = src w @ bs \<and>
         (case r of Pending \<Rightarrow> poll_outcome taken L s bs Pending s' | Ready (Inl e) \<Rightarrow> poll_outcome taken L s bs (Ready e) s' | Ready (Inr u) \<Rightarrow> False)))"
  using conn_poll_read_ok [OF assms(1-9), of cx w] unfolding assms(10,11) read_outcome_def Let_def
  by (elim exE) (intro exI, auto split: if_splits poll.splits sum.splits)

theorem conn_read_contract_witness:
  "\<exists>r s' buf' w' wk. ReaderInner_poll_read view_api (mock_api True) \<lparr>ri_entry = 0\<rparr> (one_conn [1, 2, 3]) (Task 1)
       \<lparr>v_mem = Map.empty, v_cap = 2, v_filled = 0, v_init = 0\<rparr> (mock0 [] []) = Some (Done r, s', buf', w', wk) \<and>
     r = Ready (Inr ()) \<and> wk = [Task 6] \<and> rb_contents buf' = [1, 2]"
proof -
  let ?v = "\<lparr>v_mem = Map.empty, v_cap = 2, v_filled = 0, v_init = 0\<rparr>"
  let ?arc = "the (lr_heap (one_conn [1, 2, 3]) 0)"
  have l: "listening (mock_api True) True (one_conn [1, 2, 3])" by (rule mock_listening) simp
  have c: "[1, 2, 3] = rd_contents (re_buffer (ae_entry ?arc))"
    by (simp add: one_conn_def conn_buffer_inv(2))
  have heap: "lr_heap (one_conn [1, 2, 3]) (ri_entry \<lparr>ri_entry = 0\<rparr>) = Some ?arc" "0 < ae_strong ?arc"
    "waiting_waker (ae_entry ?arc) = Task 6"
    by (simp_all add: one_conn_def)
  have v: "rb_ok (id ?v)" "v_filled (id ?v) < v_cap (id ?v)"
    "2 = min (v_cap (id ?v) - v_filled (id ?v)) (length [1, 2, 3 :: byte])" "rb_contents ?v = []"
    by (simp_all add: rb_ok_def rb_contents_def)
  from conn_read_contract [OF mock_laws mock_budget one_conn_inv new_reader_inv(3) l heap(1,2) v(1,2) c v(3),
      of "Task 1" "mock0 [] []"]
  show ?thesis using heap(3) v(4) by (auto simp: rb_grown_def)
qed

text \<open>
  C22. Backpressure: when the buffer of the connection a frame is for is full, the shared reader takes
  nothing from the stream, remembers the polling task as the one to wake when there is room, wakes
  the reader of that connection and is pending.
\<close>

theorem full_buffer_backpressure:
  assumes "reader_laws B A view src" and "lr_inv s" and "lr_state s = Read a n"
    and "lr_map s a = Some i" and "upgrade s i = Some e"
    and "rd_filled (re_buffer e) = rd_capacity (re_buffer e)"
  shows "\<exists>s'. ReaderMut_poll_once B A s cx w = (Done Pending, s', w, [reader_pipe_waker e]) \<and>
    upgrade s' i = Some (e\<lparr>waiting_waker := cx\<rparr>) \<and> lr_state s' = lr_state s \<and> abs_reader taken s' = abs_reader taken s"
proof -
  have rd: "rd_inv (re_buffer e)"
    using upgrade_ok [OF _ assms(5)] assms(2) by (simp add: lr_inv_def entry_ok_def)
  obtain b where b: "ReadBuffer_readbuf B (re_buffer e) = Done b" "view b = rd_view (re_buffer e)"
    by (rule ReadBuffer_readbuf_view [OF reader_lawsD(1) [OF assms(1)] rd])
  have "rb_remaining B b = 0"
    using assms(6) b by (simp add: readbuf_lawsD(4) [OF reader_lawsD(1) [OF assms(1)]])
  then have f: "ReadBuffer_fill_buffer B (re_buffer e) cx reader w = (Done (Ready (Inr None)), re_buffer e, w)" for reader
    using b by (simp add: ReadBuffer_fill_buffer_def)
  let ?s1 = "put_entry s i (e\<lparr>re_buffer := re_buffer e\<rparr>)" and ?e2 = "e\<lparr>waiting_waker := cx\<rparr>"
  have s1: "upgrade ?s1 i = Some e" using assms(5) by (simp add: upgrade_put_entry)
  have "abs_reader taken (put_entry ?s1 i ?e2) = abs_reader taken ?s1"
    by (rule abs_put_entry_same [OF s1]) simp
  moreover have "abs_reader taken ?s1 = abs_reader taken s" by (rule abs_put_entry_same [OF assms(5)]) simp
  ultimately show ?thesis
    using assms(3-5) f s1
    by (simp add: ReaderMut_poll_once_def ReaderMut_poll_read_def upgrade_put_entry)
qed

text \<open>A connection whose buffer is full.\<close>

definition full_buffer :: read_buffer where
  "full_buffer = \<lparr>rd_ptr = (\<lambda>i. if i < DEFAULT_BUFFER_CAPACITY then Some 0 else None),
     rd_capacity = DEFAULT_BUFFER_CAPACITY, rd_pos = 0, rd_filled = DEFAULT_BUFFER_CAPACITY,
     rd_initialized = DEFAULT_BUFFER_CAPACITY\<rparr>"

definition full_entry :: reader_entry where
  "full_entry = \<lparr>reader_pipe_waker = Task 5, waiting_waker = Task 6, re_buffer = full_buffer\<rparr>"

definition full_conn :: "(socket_addr \<times> reader_inner) locked_reader" where
  "full_conn = (put_entry (one_conn []) 0 full_entry)\<lparr>lr_state := Read addr1 3\<rparr>"

lemma full_conn_inv: "lr_inv full_conn"
proof -
  have "mem_read (rd_ptr full_buffer) 0 DEFAULT_BUFFER_CAPACITY = Some (replicate DEFAULT_BUFFER_CAPACITY 0)"
    by (simp add: full_buffer_def mem_read_Some_iff)
  then have "entry_ok full_entry"
    unfolding entry_ok_def rd_inv_def by (simp add: full_entry_def, simp add: full_buffer_def)
  with one_conn_inv [of "[]"] show ?thesis
    by (simp add: full_conn_def lr_inv_def heap_inv_put_entry)
qed

theorem full_buffer_backpressure_witness:
  "\<exists>s'. ReaderMut_poll_once view_api (mock_api True) full_conn (Task 1) (mock0 [7] []) =
     (Done Pending, s', mock0 [7] [], [Task 5]) \<and> upgrade s' 0 = Some (full_entry\<lparr>waiting_waker := Task 1\<rparr>)"
proof -
  have "lr_state full_conn = Read addr1 3" "lr_map full_conn addr1 = Some 0" "upgrade full_conn 0 = Some full_entry"
    by (simp_all add: full_conn_def upgrade_put_entry) (simp add: one_conn_def upgrade_def)
  from full_buffer_backpressure [OF mock_laws [of True] full_conn_inv this, where cx = "Task 1" and w = "mock0 [7] []"] show ?thesis
    by (auto simp: full_entry_def full_buffer_def)
qed



text \<open>
  An empty frame for an open connection closes it without panic: the connection leaves the map, its
  buffered bytes stay readable, and its reader is woken to see the end of the stream.
\<close>

theorem remove_contract:
  assumes "lr_inv s" and "lr_map s a = Some i"
  shows "\<exists>s' wk. ReaderMut_remove s a = (Done (), s', wk) \<and> lr_inv s' \<and> lr_map s' = (lr_map s)(a := None) \<and>
    i \<notin> ran (lr_map s') \<and> upgrade s' = upgrade s \<and>
    wk = (case upgrade s i of None \<Rightarrow> [] | Some e \<Rightarrow> [reader_pipe_waker e])"
proof -
  have heap: "heap_inv s" using assms(1) by (simp add: lr_inv_def)
  obtain s' wk where s': "ReaderMut_remove s a = (Done (), s', wk)" "heap_inv s'"
    "lr_map s' = (lr_map s)(a := None)" "lr_state s' = lr_state s" "upgrade s' = upgrade s"
    "wk = (case upgrade s i of None \<Rightarrow> [] | Some e \<Rightarrow> [reader_pipe_waker e])"
    by (rule remove_ok [OF heap assms(2)])
  have "i \<notin> ran ((lr_map s)(a := None))"
    using heap_invD(3) [OF heap assms(2)] by (auto simp: ran_def)
  with s' assms(1) show ?thesis by (auto simp: lr_inv_def)
qed

theorem remove_contract_witness:
  "\<exists>s' wk. ReaderMut_remove (one_conn [1, 2, 3]) addr1 = (Done (), s', wk) \<and> lr_map s' = Map.empty \<and> wk = [Task 5]"
proof -
  have "lr_inv (one_conn [1, 2, 3])" by (rule one_conn_inv) simp
  from remove_contract [OF this, of addr1 0] show ?thesis by (auto simp: one_conn_def upgrade_def)
qed

section \<open>Corners of the contract\<close>

text \<open>
  C33. A header that arrives in pieces is a lost wake-up: the stream was ready with some of its bytes (so
  it has registered no waker), but the shared reader answers \<open>Pending\<close> instead of asking again, in
  the world that read left and with no waker woken. If the rest of the header is already there,
  nobody is told.
\<close>

theorem partial_header_pending:
  assumes "reader_laws B A view src" and "lr_inv s" and "lr_state s = NextPacket h k"
    and "r_poll_read A cx (rb_uninit B (\<lambda>i. h (unat k + i)) (MuxFrameHeader_size - unat k)) w = (Ready (Inr ()), b', w')"
    and "rb_filled B b' \<noteq> []" and "unat k + length (rb_filled B b') < MuxFrameHeader_size"
  shows "\<exists>s'. SharedReader_poll B A s cx w = Some (Done Pending, s', w', [])"
proof -
  let ?x = "of_nat (length (rb_filled B b')) :: u8"
  have k: "unat k < MuxFrameHeader_size" using assms(2,3) by (simp add: lr_inv_def)
  have x: "unat ?x = length (rb_filled B b')" using assms(6) by (simp add: unat_of_nat)
  then have "unat (k + ?x) = unat k + length (rb_filled B b')" using assms(6) by (simp add: unat_word_ariths)
  then have "k + ?x < 20" using assms(6) by (simp add: word_less_nat_alt)
  then have "\<exists>s'. ReaderMut_poll_once B A s cx w = (Done Pending, s', w', [])"
    using assms(3-6) k x
    by (auto simp: ReaderMut_poll_once_def ReaderMut_poll_next_packet_def Let_def cmp_word_def)
  then show ?thesis
    unfolding SharedReader_poll_def using reader_poll_stop(1) by fastforce
qed

theorem partial_header_pending_witness:
  "\<exists>s' w'. SharedReader_poll view_api (mock_api True) (one_conn []) (Task 1) (mock0 (frame addr1 [1, 2, 3]) [5]) =
     Some (Done Pending, s', w', []) \<and> length (mw_data w') = 18"
proof -
  let ?w = "mock0 (frame addr1 [1, 2, 3]) [5]"
  let ?b = "rb_uninit view_api (\<lambda>i. (Map.empty :: mem) (unat (0 :: u8) + i)) (20 - unat (0 :: u8))"
  obtain r b' w' where p: "mock_read None (Task 1) ?b ?w = (r, b', w')" by (metis prod_cases3)
  then have f: "r = Ready (Inr ())" "v_filled b' = 5" "length (mw_data w') = 18"
    by (auto simp: mock_read_def mock_take_def mock0_def Let_def)
  have "lr_inv (one_conn [])" by (rule one_conn_inv) simp
  moreover have "lr_state (one_conn []) = NextPacket Map.empty 0" by (simp add: next_packet_def)
  ultimately have "\<exists>s'. SharedReader_poll view_api (mock_api True) (one_conn []) (Task 1) ?w = Some (Done Pending, s', w', [])"
    by (rule partial_header_pending [OF mock_laws, where b' = b'])
      (use p f in \<open>auto simp: view_api_simps(6) [unfolded length_greater_0_conv]\<close>)
  with f show ?thesis by auto
qed

text \<open>The frame that closes the sample connection, and the end of the stream.\<close>

definition closed_conn :: "(socket_addr \<times> reader_inner) locked_reader" where
  "closed_conn = (one_conn [1, 2, 3])\<lparr>lr_map := Map.empty,
     lr_heap := [0 \<mapsto> (the (lr_heap (one_conn [1, 2, 3]) 0))\<lparr>ae_weak := 0\<rparr>]\<rparr>"

lemma sample_close_step:
  "ReaderMut_poll_once view_api (mock_api L) (one_conn [1, 2, 3]) cx (world_at (frame addr1 []) seen [20] n) =
   (Done (Ready (Inr ())), closed_conn, world_at [] (seen @ frame addr1 []) [] n, [Task 5])"
  by (subst mock_header_step [where h = "MuxFrameHeader_empty addr1" and rest = "[]" and ks = "[]"])
    (simp_all add: frame_empty packet_header_def MuxFrameHeader_addr_def MuxFrameHeader_len_def MuxFrameHeader_empty_def
      ReaderMut_remove_def upgrade_def drop_weak_def weak_count_def ReaderMut_next_packet_def one_conn_def closed_conn_def)

lemma sample_eof_step:
  "ReaderMut_poll_once view_api (mock_api L) closed_conn cx (world_at [] seen [] n) =
   (Done (Ready (Inl (IoError UnexpectedEof ''eof on header read''))), closed_conn\<lparr>lr_state := ReadError\<rparr>, world_at [] seen [] n, [])"
  by (simp add: ReaderMut_poll_once_def ReaderMut_poll_next_packet_def closed_conn_def next_packet_def mock_read_def
      mock_take_def error_return_def ReaderMut_error_def Let_def)

lemma sample_eof_run:
  "SharedReader_poll view_api (mock_api L) (one_conn []) cx (mock0 (frames [(addr1, [1, 2, 3]), (addr1, [])]) [20, 3, 20]) =
   Some (Done (Ready (IoError UnexpectedEof ''eof on header read'')), closed_conn\<lparr>lr_state := ReadError\<rparr>,
     world_at [] (frames [(addr1, [1, 2, 3]), (addr1, [])]) [] 7, [Task 5, Task 5])"
proof -
  let ?h = "take 20 (frame addr1 [1, 2, 3])"
  have "SharedReader_poll view_api (mock_api L) (one_conn []) cx (mock0 (frames [(addr1, [1, 2, 3]), (addr1, [])]) [20, 3, 20]) =
      ReaderMut_poll view_api (mock_api L) ((one_conn [])\<lparr>lr_state := Read addr1 3\<rparr>) cx
        (world_at ([1, 2, 3] @ frame addr1 []) ?h [3, 20] 9) []"
    unfolding SharedReader_poll_def mock0_def
    using reader_poll_continue [OF sample_header_step [where rest = "frame addr1 []" and ks = "[3, 20]" and n = 10]] by simp
  also have "\<dots> = ReaderMut_poll view_api (mock_api L) (one_conn [1, 2, 3]) cx
      (world_at (frame addr1 []) (?h @ [1, 2, 3]) [20] 8) ([] @ [Task 5])"
    by (rule reader_poll_continue [OF sample_body_step]) simp
  also have "\<dots> = ReaderMut_poll view_api (mock_api L) closed_conn cx
      (world_at [] ((?h @ [1, 2, 3]) @ frame addr1 []) [] 7) (([] @ [Task 5]) @ [Task 5])"
    by (rule reader_poll_continue [OF sample_close_step]) simp
  also have "\<dots> = Some (Done (Ready (IoError UnexpectedEof ''eof on header read'')), closed_conn\<lparr>lr_state := ReadError\<rparr>,
      world_at [] ((?h @ [1, 2, 3]) @ frame addr1 []) [] 7, (([] @ [Task 5]) @ [Task 5]) @ [])"
    by (rule reader_poll_stop(2) [OF sample_eof_step])
  finally show ?thesis by (simp add: frame_def)
qed

text \<open>
  C34. Let a connection be open with nothing buffered, and let a read on it drive the shared reader, between two frames. If the shared reader
  takes frames \<open>ps\<close> with data for this connection and the one that closes it, and meets an error in the same poll (for example the end of the TCP
  stream, after a proper end of the connection), the read reports the error and hands out no byte, although the bytes and
  the end of the connection are in place (unless memory ran out): the next read, whenever it comes, returns these bytes.
\<close>

theorem closed_connection_reads_error:
  assumes "reader_laws B A view src" and "budget_laws A fuel" and "lr_inv s" and "taken_ok taken s" and "listening A L s"
    and "lr_map s a = Some (ri_entry this)" and "upgrade s (ri_entry this) = Some e" and "rd_contents (re_buffer e) = []"
    and "abs_phase (lr_state s) = InHeader []" and "rb_ok (view buf)" and "v_filled (view buf) < v_cap (view buf)"
    and "ReaderInner_poll_read B A this s cx buf w = Some (Done (Ready q), s', buf', w', wk)"
    and "src w' = src w @ frames F" and "\<forall>f \<in> set F. length (snd f) \<le> 65535"
    and "frames_of a F = map (Pair a) (ps @ [[]])" and "ps \<noteq> []" and "\<forall>p \<in> set ps. p \<noteq> []"
  shows "\<exists>x. q = Inl x \<and> rb_grown (view buf) [] (view buf') \<and>
    (kind x \<noteq> OutOfMemory \<longrightarrow> ri_entry this \<notin> ran (lr_map s') \<and>
      (\<forall>cx2 buf2 w2. rb_ok (view buf2) \<longrightarrow> v_filled (view buf2) < v_cap (view buf2) \<longrightarrow>
        (\<exists>s2 buf2' wk2. ReaderInner_poll_read B A this s' cx2 buf2 w2 = Some (Done (Ready (Inr ())), s2, buf2', w2, wk2) \<and>
          rb_grown (view buf2) (take (v_cap (view buf2) - v_filled (view buf2)) (concat ps)) (view buf2'))))"
proof -
  let ?i = "ri_entry this"
  obtain arc where arc: "lr_heap s ?i = Some arc" "0 < ae_strong arc" "ae_entry arc = e"
    using assms(7) by (auto simp: upgrade_def split: option.splits if_splits)
  have i: "?i \<in> ran (lr_map s)" using assms(6) by (auto simp: ran_def)
  from conn_poll_read_ok [OF assms(1-5) arc(1,2) assms(10,11), of cx w] assms(8,12) arc(3) i obtain x bs
    where s': "lr_inv s'" "live s' = live s" "listening A L s'" "taken_ok taken s'" and x: "q = Inl x" "rb_grown (view buf) [] (view buf')"
      and bs: "src w' = src w @ bs" "poll_outcome taken L s bs (Ready x) s'"
    by (cases q) (auto simp: read_outcome_def)
  have "ri_entry this \<notin> ran (lr_map s') \<and>
      (\<exists>s2 buf2' wk2. ReaderInner_poll_read B A this s' cx2 buf2 w2 = Some (Done (Ready (Inr ())), s2, buf2', w2, wk2) \<and>
        rb_grown (view buf2) (take (v_cap (view buf2) - v_filled (view buf2)) (concat ps)) (view buf2'))"
    if mem: "kind x \<noteq> OutOfMemory" and room: "rb_ok (view buf2)" "v_filled (view buf2) < v_cap (view buf2)" for cx2 buf2 w2
  proof -
    have "fold (cv_frame L a) F (Opened (taken ?i)) = Ended (taken ?i @ concat ps)"
      using cv_frames_of [of L a F] cv_data_frames [OF assms(17), of L a] assms(15) by (simp add: cv_frame_def)
    then have "cv_run L a bs (InHeader [], Opened (taken ?i)) = (InHeader [], Ended (taken ?i @ concat ps))"
      using cv_run_frames [OF assms(14), of L a "Opened (taken ?i)"] bs(1) assms(13) by simp
    moreover have "follows (live s) a ?i (abs_reader taken s) (Opened (taken ?i))"
      using assms(3,6-8) by (simp add: follows_def dx_wf_abs abs_got_def)
    ultimately have "follows (live s) a ?i (dx_run L (live s) bs (abs_reader taken s)) (Ended (taken ?i @ concat ps))"
      using follows_run [of "live s" a ?i "abs_reader taken s" "Opened (taken ?i)" "InHeader []" L bs] assms(9) by simp
    moreover have "live s ?i" by (rule upgrade_live [OF assms(7)])
    ultimately have end1: "?i \<notin> ran (lr_map s')" and got: "abs_got taken s' ?i = taken ?i @ concat ps"
      using bs(2) mem by (simp_all add: poll_outcome_def Let_def follows_def)
    have ne: "concat ps \<noteq> []" using assms(16,17) by (cases ps) auto
    with got obtain e' where e': "upgrade s' ?i = Some e'" "rd_contents (re_buffer e') = concat ps"
      by (auto simp: abs_got_def split: option.splits)
    then obtain arc' where arc': "lr_heap s' ?i = Some arc'" "0 < ae_strong arc'" "ae_entry arc' = e'"
      by (auto simp: upgrade_def split: option.splits if_splits)
    have "take (min n (length (concat ps))) (concat ps) = take n (concat ps)" for n by (simp add: min_def)
    with conn_poll_read_ok [OF assms(1,2) s'(1,4,3) arc'(1,2) room, of cx2 w2] end1 ne show ?thesis
      by (auto simp: read_outcome_def arc'(3) e'(2) Let_def)
  qed
  with x assms(10,11) show ?thesis by blast
qed

text \<open>Three bytes, the end of the connection and the end of the TCP stream in one poll.\<close>

theorem closed_connection_reads_error_witness:
  "\<exists>s' buf' w' wk. ReaderInner_poll_read view_api (mock_api True) \<lparr>ri_entry = 0\<rparr> (one_conn []) (Task 5)
       \<lparr>v_mem = Map.empty, v_cap = 9, v_filled = 0, v_init = 0\<rparr>
       (mock0 (frames [(addr1, [1, 2, 3]), (addr1, [])]) [20, 3, 20]) =
     Some (Done (Ready (Inl (IoError UnexpectedEof ''eof on header read''))), s', buf', w', wk) \<and> rb_contents buf' = [] \<and>
     (\<exists>s2 buf2 wk2. ReaderInner_poll_read view_api (mock_api True) \<lparr>ri_entry = 0\<rparr> s' (Task 5)
       \<lparr>v_mem = Map.empty, v_cap = 2, v_filled = 0, v_init = 0\<rparr> w' = Some (Done (Ready (Inr ())), s2, buf2, w', wk2) \<and>
       rb_contents buf2 = [1, 2])"
proof -
  let ?v = "\<lambda>n. \<lparr>v_mem = Map.empty, v_cap = n, v_filled = 0, v_init = 0\<rparr>" and ?s' = "closed_conn\<lparr>lr_state := ReadError\<rparr>"
  let ?F = "[(addr1, [1, 2, 3]), (addr1, [])]"
  let ?w = "mock0 (frames ?F) [20, 3, 20]" and ?w' = "world_at [] (frames ?F) [] 7"
  have rd: "ReadBuffer_read view_api (conn_buffer []) (?v 9) = Done (conn_buffer [], ?v 9)"
    by (simp add: ReadBuffer_read_def ReadBuffer_bytes_def conn_buffer_def)
  have "put_entry (put_entry (one_conn []) 0 (ae_entry (the (lr_heap (one_conn []) 0)))) 0
      (ae_entry (the (lr_heap (one_conn []) 0))) = one_conn []"
    by (simp add: put_entry_def one_conn_def)
  then have ev: "ReaderInner_poll_read view_api (mock_api True) \<lparr>ri_entry = 0\<rparr> (one_conn []) (Task 5) (?v 9) ?w =
      Some (Done (Ready (Inl (IoError UnexpectedEof ''eof on header read''))), ?s', ?v 9, ?w', [Task 5, Task 5])"
    using sample_eof_run [of True "Task 5"] rd
    by (simp add: ReaderInner_poll_read_def one_conn_def put_entry_def weak_count_def Let_def)
  have l: "listening (mock_api True) True (one_conn [])" by (rule mock_listening) simp
  have inv: "lr_inv (one_conn [])" by (rule one_conn_inv) simp
  have conn: "lr_map (one_conn []) addr1 = Some (ri_entry \<lparr>ri_entry = 0\<rparr>)"
    "upgrade (one_conn []) (ri_entry \<lparr>ri_entry = 0\<rparr>) = Some (ae_entry (the (lr_heap (one_conn []) 0)))"
    "rd_contents (re_buffer (ae_entry (the (lr_heap (one_conn []) 0)))) = []"
    "abs_phase (lr_state (one_conn [])) = InHeader []"
    by (simp_all add: one_conn_def upgrade_def conn_buffer_inv(2) next_packet_def abs_phase_def)
  have room: "rb_ok (id (?v 9))" "v_filled (id (?v 9)) < v_cap (id (?v 9))" "rb_ok (id (?v 2))" "v_filled (id (?v 2)) < v_cap (id (?v 2))"
    "rb_contents (?v n) = []" for n
    by (simp_all add: rb_ok_def rb_contents_def)
  have frames: "mw_seen ?w' = mw_seen ?w @ frames ?F" "\<forall>f \<in> set ?F. length (snd f) \<le> 65535"
    "frames_of addr1 ?F = map (Pair addr1) ([[1, 2, 3]] @ [[]])" "[[1, 2, 3 :: byte]] \<noteq> []" "\<forall>p \<in> set [[1, 2, 3 :: byte]]. p \<noteq> []"
    by (simp_all add: mock0_def)
  from closed_connection_reads_error [OF mock_laws mock_budget inv new_reader_inv(3) l conn room(1,2) ev frames]
  obtain x where x: "Inl (IoError UnexpectedEof ''eof on header read'') = (Inl x :: unit io_result)"
    and nx: "kind x \<noteq> OutOfMemory \<longrightarrow> ri_entry \<lparr>ri_entry = 0\<rparr> \<notin> ran (lr_map ?s') \<and>
      (\<forall>cx2 buf2 w2. rb_ok (id buf2) \<longrightarrow> v_filled (id buf2) < v_cap (id buf2) \<longrightarrow>
        (\<exists>s2 buf2' wk2. ReaderInner_poll_read view_api (mock_api True) \<lparr>ri_entry = 0\<rparr> ?s' cx2 buf2 w2 =
            Some (Done (Ready (Inr ())), s2, buf2', w2, wk2) \<and>
          rb_grown (id buf2) (take (v_cap (id buf2) - v_filled (id buf2)) (concat [[1, 2, 3]])) (id buf2')))"
    by (elim exE conjE)
  from x have "kind x \<noteq> OutOfMemory" by auto
  note next1 = nx [THEN mp, OF this, THEN conjunct2, rule_format, OF room(3,4), of "Task 5" ?w']
  from next1 have "\<exists>s2 buf2 wk2. ReaderInner_poll_read view_api (mock_api True) \<lparr>ri_entry = 0\<rparr> ?s' (Task 5) (?v 2) ?w' =
      Some (Done (Ready (Inr ())), s2, buf2, ?w', wk2) \<and> rb_contents buf2 = [1, 2]"
    using room(5) [of 2] by (auto simp: rb_grown_def)
  with ev room(5) [of 9] show ?thesis by blast
qed

end
