(* ===== verification/Mux_Sample.thy ===== *)
theory Mux_Sample
  imports Accepting Write_Props Conn_Props
begin

text \<open>
  A complete run on the sample streams: a connection shakes hands, writes three bytes and flushes them; the
  bytes on the wire are fed to a fresh reader with a listener.
\<close>

section \<open>The writing end\<close>

definition wr0 :: "(unit, unit) write_inner" where
  "wr0 = box_new WriteInner_init uninit_writer (addr1, PollMutex_new 0)"

definition wr_buffer :: packet_buffer where
  "wr_buffer = \<lparr>pb_socket_addr = addr1, pb_len = NetworkOrderU16_new 3, pb_data = mem_write Map.empty 0 [1, 2, 3]\<rparr>"

definition wr1 :: "(unit, unit) write_inner" where
  "wr1 = wr0\<lparr>wi_state := Writing (Task 1) Buffering, wi_buffer := wr_buffer\<rparr>"

definition wr2 :: "(unit, unit) write_inner" where
  "wr2 = wr0\<lparr>wi_state := Writing (Task 1) Buffering, wi_buffer := PacketBuffer_clear wr_buffer\<rparr>"

lemma wr_buffer_payload [simp]: "pb_inv wr_buffer" "payload wr_buffer = [1, 2, 3]"
proof -
  have "mem_read (pb_data wr_buffer) 0 3 = Some [1, 2, 3]"
    using mem_write_same [of Map.empty 0 "[1, 2, 3]"] by (simp add: wr_buffer_def numeral_3_eq_3)
  then show "pb_inv wr_buffer" "payload wr_buffer = [1, 2, 3]"
    by (simp_all add: pb_inv_def payload_def PacketBuffer_packet_size_def wr_buffer_def)
qed

text \<open>A connection on the mutex of the sample stream, and its handshake.\<close>

abbreviation (input) conn_with :: "unit write_pipe_state \<Rightarrow> packet_buffer \<Rightarrow> (unit, unit) write_inner" where
  "conn_with st b \<equiv> \<lparr>wi_write_lock = PollMutex_new 0, wi_state = st, wi_buffer = b\<rparr>"

abbreviation (input) lb_sent :: "byte list \<Rightarrow> lb_world" where
  "lb_sent F \<equiv> (lb_start [])\<lparr>lb_wire := F\<rparr>"

lemma conn_handshake:
  assumes "pb_inv b" and "payload b = []"
  shows "WriteInner_handshake loopback (conn_with (Writing Noop Buffering) b) w =
    Done (HandshakeLock (AwaitBorrowed ()), conn_with (Writing Noop Buffering) b, w)"
  using assms is_empty_payload by (simp add: WriteInner_handshake_def PollMutex_lock_def PollMutex_new_def loopback_def)

lemma conn_shaken:
  assumes "pb_inv b" and "payload b = []"
  shows "WriteInner_handshake_poll loopback (conn_with st b) (HandshakeLock (AwaitBorrowed ())) (Task 1) (lb_sent F) =
    (Done (Ready (Inr ())), HandshakeDone, lb_sent (F @ frame (pb_socket_addr b) []))"
proof -
  have "PacketBuffer_bytes b = Done (frame (pb_socket_addr b) [])" using bytes_frame [OF assms(1)] assms(2) by simp
  then show ?thesis by (simp add: loopback_def lb_poll_lock_def lb_start_def handshake_write_def)
qed

lemma wr0_conn: "wr0 = conn_with (Writing Noop Buffering) (PacketBuffer_init uninit_packet addr1)"
  by (simp add: wr0_def box_new_def WriteInner_init_def uninit_writer_def)

lemma fresh_packet: "pb_inv (PacketBuffer_init u a)" "payload (PacketBuffer_init u a) = []" "pb_socket_addr (PacketBuffer_init u a) = a"
  by simp_all

lemma wr_handshake: "WriteInner_handshake loopback wr0 w = Done (HandshakeLock (AwaitBorrowed ()), wr0, w)"
  unfolding wr0_conn by (rule conn_handshake) (simp_all add: fresh_packet)

lemma wr_shaken:
  "WriteInner_handshake_poll loopback wr0 (HandshakeLock (AwaitBorrowed ())) (Task 1) (lb_start []) =
   (Done (Ready (Inr ())), HandshakeDone, (lb_start [])\<lparr>lb_wire := frame addr1 []\<rparr>)"
  using conn_shaken [of "PacketBuffer_init uninit_packet addr1" "Writing Noop Buffering" "[]"]
  by (simp add: wr0_conn fresh_packet) (simp add: lb_start_def)

lemma wr_write: "WriteInner_poll_write loopback wr0 (Task 1) [1, 2, 3] w = Some (Done (Ready (Inr 3)), wr1, w)"
proof -
  have "PacketBuffer_push (wi_buffer wr0) [1, 2, 3] 0 = Done (3, wr_buffer)"
    by (simp add: PacketBuffer_push_def wr0_def wr_buffer_def box_new_def WriteInner_init_def PacketBuffer_init_def
        LEN_FIELD_CUTOFF_def PACKET_SIZE_def cmp_word_def uninit_writer_def uninit_packet_def)
  moreover have "\<not> PacketBuffer_is_full (wi_buffer wr0)"
    by (simp add: PacketBuffer_is_full_def PacketBuffer_packet_size_def wr0_def box_new_def WriteInner_init_def
        PacketBuffer_init_def PACKET_SIZE_def)
  ultimately have "poll_write_loop loopback (Task 1) Buffering (wi_write_lock wr0) (wi_buffer wr0) [1, 2, 3] 0 w =
      Some (Done (Ready (Inr 3)), Buffering, wi_write_lock wr0, wr_buffer, w)"
    by (subst poll_write_loop.simps, subst poll_write_loop.simps) simp
  then show ?thesis
    by (simp add: WriteInner_poll_write_def PoisonOnPanic_new_def PoisonOnPanic_drop_def wr1_def wr0_def box_new_def
        WriteInner_init_def)
qed

lemma wr1_unlocked: "pm_fut (wi_write_lock wr1) = None"
  by (simp add: wr1_def wr0_def box_new_def WriteInner_init_def PollMutex_new_def)

text \<open>On a stream that takes everything a flush sends the whole frame.\<close>

lemma loopback_flush:
  assumes b: "pb_inv b" and w: "lb_script w = []"
  shows "\<exists>k. flush_buf loopback cx b () (CounterU32 0) w = Some (Done (Ready (Inr ())), PacketBuffer_clear b, CounterU32 k,
    w\<lparr>lb_wire := lb_wire w @ frame (pb_socket_addr b) (payload b)\<rparr>)"
proof -
  define F where "F = frame (pb_socket_addr b) (payload b)"
  define k where "k = (of_nat (length F) :: u32)"
  have k: "unat k = length F"
    using length_payload_bound [OF b] by (simp add: k_def F_def unat_of_nat del: of_nat_add)
  have len: "length F < 2 ^ 32" using length_payload_bound [OF b] by (simp add: F_def)
  have 1: "PacketBuffer_bytes_from b 0 = Done F" and 2: "PacketBuffer_bytes_from b k = Done []"
    using k by (simp_all add: bytes_from_frame [OF b] F_def)
  have ne: "F \<noteq> []" unfolding F_def by (metis length_frame list.size(3) add_is_0 zero_neq_numeral)
  have "counter_add (CounterU32 0) (length F) = Done (CounterU32 k)"
    using k len by (simp add: k_def [symmetric])
  then have "flush_buf loopback cx b () (CounterU32 0) w =
      flush_buf loopback cx b () (CounterU32 k) (w\<lparr>lb_wire := lb_wire w @ F\<rparr>)"
    using ne by (subst flush_buf.simps) (simp add: 1 loopback_def lb_poll_write_def w)
  also have "\<dots> = Some (Done (Ready (Inr ())), PacketBuffer_clear b, CounterU32 k, w\<lparr>lb_wire := lb_wire w @ F\<rparr>)"
    by (subst flush_buf.simps) (simp add: 2)
  finally show ?thesis unfolding F_def by blast
qed

lemma conn_flush:
  assumes b: "pb_inv b" "payload b \<noteq> []"
  shows "WriteInner_poll_flush loopback (conn_with (Writing wk Buffering) b) (Task 1) (lb_sent F) =
    Some (Done (Ready (Inr ())), conn_with (Writing (Task 1) Buffering) (PacketBuffer_clear b), lb_sent (F @ frame (pb_socket_addr b) (payload b)))"
proof -
  let ?w1 = "(lb_sent F)\<lparr>lb_held := True\<rparr>"
  have ne: "\<not> PacketBuffer_is_empty b" and e: "PacketBuffer_is_empty (PacketBuffer_clear b)"
    using b by (simp_all add: is_empty_payload)
  obtain k where "flush_buf loopback (Task 1) b () (CounterU32 0) ?w1 =
      Some (Done (Ready (Inr ())), PacketBuffer_clear b, CounterU32 k, ?w1\<lparr>lb_wire := F @ frame (pb_socket_addr b) (payload b)\<rparr>)"
    using loopback_flush [OF b(1), of ?w1 "Task 1"] by (auto simp: lb_start_def)
  moreover have "poll_locked loopback Buffering (PollMutex_new 0) (Task 1) (lb_sent F) = (Ready ((), 0), Flushing () 0, PollMutex_new 0, ?w1)"
    by (simp add: poll_locked_def PollMutex_poll_lock_def PollMutex_new_def loopback_def lb_try_lock_def lb_start_def)
  ultimately have "poll_flush_body loopback (Task 1) Buffering (PollMutex_new 0) b (lb_sent F) =
      Some (Done (Ready (Inr ())), Buffering, PollMutex_new 0, PacketBuffer_clear b, lb_sent (F @ frame (pb_socket_addr b) (payload b)))"
    using ne e by (simp add: poll_flush_body_def flush_writer_def) (simp add: loopback_def lb_start_def)
  then show ?thesis by (simp add: WriteInner_poll_flush_def PoisonOnPanic_new_def PoisonOnPanic_drop_def)
qed

lemma wr1_conn: "wr1 = conn_with (Writing (Task 1) Buffering) wr_buffer"
  and wr2_conn: "wr2 = conn_with (Writing (Task 1) Buffering) (PacketBuffer_clear wr_buffer)"
  by (simp_all add: wr1_def wr2_def wr0_conn)

lemma wr_flush:
  "WriteInner_poll_flush loopback wr1 (Task 1) ((lb_start [])\<lparr>lb_wire := F\<rparr>) =
   Some (Done (Ready (Inr ())), wr2, (lb_start [])\<lparr>lb_wire := F @ frame addr1 [1, 2, 3]\<rparr>)"
  using conn_flush [of wr_buffer "Task 1" F] by (simp add: wr1_conn wr2_conn) (simp add: wr_buffer_def)

definition sample_wire :: "byte list" where
  "sample_wire = frames [(addr1, []), (addr1, [1, 2, 3])]"

definition sample_world :: lb_world where
  "sample_world = (lb_start [])\<lparr>lb_wire := frames [(addr1, []), (addr1, [1, 2, 3])]\<rparr>"

definition sample_sys :: "((unit, unit, byte list) actor, lb_world, offer) sys" where
  "sample_sys = \<lparr>sy_actors = [0 \<mapsto> ActConn True wr2], sy_world = sample_world,
     sy_events = (\<lambda>i. [])(0 := [([1, 2, 3], Ready (Inr 3), False)])\<rparr>"

lemma wr2_facts: "wi_payload wr2 = []" "WriteInner_addr wr2 = addr1" "wi_state wr2 = Writing (Task 1) Buffering"
  by (simp_all add: wr2_def wi_payload_def WriteInner_addr_def PacketBuffer_addr_def) (simp add: wr_buffer_def)

lemma sample_sys_facts:
  "lb_holder (sy_world sample_sys) = None" "sy_actors sample_sys 0 = Some (ActConn True wr2)"
  "lb_wire (sy_world sample_sys) = sample_wire" "sy_events sample_sys 0 = [([1, 2, 3], Ready (Inr 3), False)]"
  by (simp_all add: sample_sys_def sample_world_def lb_holder_def sample_wire_def) (simp add: lb_start_def)

lemma sample_sys_run: "(sys_step (actor_step loopback) (fresh_actor 0))\<^sup>*\<^sup>* (sys_start (lb_start [])) sample_sys"
proof -
  let ?st = "sys_step (actor_step loopback) (fresh_actor 0)" and ?w0 = "lb_start []" and ?w1 = "(lb_start [])\<lparr>lb_wire := frame addr1 []\<rparr>"
  let ?S = "\<lambda>c w es. \<lparr>sy_actors = [0 \<mapsto> c], sy_world = w, sy_events = (\<lambda>i. [])(0 := es)\<rparr>"
  have act: "?st (?S c w es) (?S c' w' (es @ ev))" if "actor_step loopback c w ev c' w'" for c w es c' w' ev
    using sys_step.actor_acts [of "?S c w es" 0 c "actor_step loopback" ev c' w'] that by simp
  have 0: "?st (sys_start ?w0) (?S (ActNew wr0) ?w0 [])"
    using sys_step.new_actor [of "sys_start ?w0" 0 "fresh_actor 0" "ActNew wr0" "actor_step loopback"]
    by (auto simp: sys_start_def fresh_actor_def wr0_def)
  note 1 = act [OF do_handshake [OF wr_handshake], of ?w0 "[]"]
  note 2 = act [OF do_shaken [OF wr_shaken], of "[]"]
  have 3: "actor_step loopback (ActConn True wr0) ?w1 [([1, 2, 3], Ready (Inr 3), False)] (ActConn True wr1) ?w1"
    using do_write [OF wr_write [of ?w1], of True] by (simp add: wr1_unlocked)
  have 4: "actor_step loopback (ActConn True wr1) ?w1 [] (ActConn True wr2) sample_world"
    using do_flush [OF wr_flush [of "frame addr1 []"], of True] by (simp add: sample_world_def)
  from 0 1 2 act [OF 3, of "[]"] act [OF 4, of "[([1, 2, 3], Ready (Inr 3), False)]"] show ?thesis
    unfolding sample_sys_def by (auto intro: rtranclp.rtrancl_into_rtrancl)
qed

section \<open>The reading end\<close>

text \<open>A reader with the connection the handshake opened, and the stream while it is read.\<close>

definition conn_of :: "waker \<Rightarrow> byte list \<Rightarrow> (socket_addr \<times> reader_inner) shared_reader_state \<Rightarrow> (socket_addr \<times> reader_inner) locked_reader" where
  "conn_of wk bs st =
     \<lparr>lr_heap = [0 \<mapsto> \<lparr>ae_strong = 1, ae_weak = 1,
        ae_entry = \<lparr>reader_pipe_waker = Noop, waiting_waker = wk, re_buffer = conn_buffer bs\<rparr>\<rparr>],
      lr_next = 1, lr_map = [addr1 \<mapsto> 0], lr_state = st\<rparr>"

abbreviation new_conn :: "byte list \<Rightarrow> (socket_addr \<times> reader_inner) shared_reader_state \<Rightarrow> (socket_addr \<times> reader_inner) locked_reader" where
  "new_conn \<equiv> conn_of (Task 1)"

definition feed :: "byte list \<Rightarrow> byte list \<Rightarrow> nat list \<Rightarrow> nat \<Rightarrow> (socket_addr \<times> reader_inner) list \<times> nat \<Rightarrow> mock_world" where
  "feed left seen script n out = \<lparr>mw_data = left, mw_seen = seen, mw_script = script, mw_budget = n, mw_sent = fst out, mw_handed = snd out\<rparr>"

abbreviation (input) conn0 :: "socket_addr \<times> reader_inner" where
  "conn0 \<equiv> (addr1, \<lparr>ri_entry = 0\<rparr>)"

lemma open_step:
  "ReaderMut_poll_once view_api (mock_api True) SharedReader_new (Task 1) (feed (frame addr1 [] @ rest) [] (20 # ks) n ([], 0)) =
   (Done (Ready (Inr ())), new_conn [] (SendSocket conn0), feed rest (frame addr1 []) ks n ([conn0], 0), [])"
proof -
  have "ReadBuffer_new (r_alloc (mock_api True)) DEFAULT_BUFFER_CAPACITY w = (Inr (conn_buffer []), w)" for w
    by (simp add: ReadBuffer_new_def mock_api_def DEFAULT_BUFFER_CAPACITY_def ISIZE_MAX_def conn_buffer_def)
  then show ?thesis
    by (subst mock_header_step [where h = "MuxFrameHeader_empty addr1" and rest = rest and ks = ks])
      (simp_all add: feed_def frame_empty packet_header_def MuxFrameHeader_addr_def MuxFrameHeader_len_def MuxFrameHeader_empty_def
        ReaderMut_insert_def SharedReader_new_def conn_of_def mock_api_def)
qed

lemma send_step:
  "ReaderMut_poll_once view_api (mock_api True) (new_conn [] (SendSocket conn0)) (Task 1) (feed left seen ks n out) =
   (Done (Ready (Inr ())), new_conn [] next_packet, feed left seen ks n out, [])"
  by (simp add: ReaderMut_poll_once_def conn_of_def feed_def mock_api_def ReaderMut_next_packet_def)

lemma data_header_step:
  "ReaderMut_poll_once view_api (mock_api True) (conn_of wk [] next_packet) (Task 1)
     (feed (frame addr1 [1, 2, 3] @ rest) seen (20 # ks) n out) =
   (Done (Ready (Inr ())), conn_of wk [] (Read addr1 3), feed ([1, 2, 3] @ rest) (seen @ take 20 (frame addr1 [1, 2, 3])) ks n out, [])"
  by (subst mock_header_step [where h = "\<lparr>socket = addr1, len = NetworkOrderU16_new 3\<rparr>" and rest = "[1, 2, 3] @ rest" and ks = ks])
    (simp_all add: feed_def conn_of_def frame_def packet_header_def MuxFrameHeader_addr_def MuxFrameHeader_len_def ReaderMut_read_def)

lemma data_body_step:
  "ReaderMut_poll_once view_api (mock_api True) (conn_of wk [] (Read addr1 3)) (Task 1) (feed ([1, 2, 3] @ rest) seen (3 # ks) n out) =
   (Done (Ready (Inr ())), conn_of wk [1, 2, 3] next_packet, feed rest (seen @ [1, 2, 3]) ks n out, [Noop])"
proof -
  have "ReadBuffer_fill_buffer view_api (conn_buffer []) (Task 1) (mock_read (Some 3)) (feed ([1, 2, 3] @ rest) seen (3 # ks) n out) =
      (Done (Ready (Inr (Some 3))), conn_buffer [1, 2, 3], feed rest (seen @ [1, 2, 3]) ks n out)"
    by (simp add: ReadBuffer_fill_buffer_def ReadBuffer_readbuf_def conn_buffer_def mock_read_def mock_take_def feed_def
        DEFAULT_BUFFER_CAPACITY_def Let_def)
  then show ?thesis
    by (simp add: ReaderMut_poll_once_def ReaderMut_poll_read_def upgrade_def conn_of_def put_entry_def
        read_finish_def ReaderMut_next_packet_def)
qed

lemma idle_step:
  "ReaderMut_poll_once view_api (mock_api True) (conn_of wk bs next_packet) (Task 1) (feed rest seen (0 # ks) n out) =
   (Done Pending, conn_of wk bs next_packet, feed rest seen ks n out, [])"
  by (subst mock_pending_step [where ks = ks]) (simp_all add: conn_of_def feed_def)

lemma sample_poll:
  "SharedReader_poll view_api (mock_api True) SharedReader_new (Task 1) (feed (sample_wire @ rest) [] ([20, 20, 3, 0] @ ks) 10 ([], 0)) =
   Some (Done Pending, new_conn [1, 2, 3] next_packet, feed rest sample_wire ks 6 ([conn0], 0), [Noop])"
proof -
  let ?p = "\<lambda>s w wk. ReaderMut_poll view_api (mock_api True) s (Task 1) w wk"
  let ?h = "frame addr1 [] @ take 20 (frame addr1 [1, 2, 3])" and ?d = "frame addr1 [1, 2, 3] @ rest"
  have "SharedReader_poll view_api (mock_api True) SharedReader_new (Task 1) (feed (sample_wire @ rest) [] ([20, 20, 3, 0] @ ks) 10 ([], 0)) =
      ?p (new_conn [] (SendSocket conn0)) (feed ?d (frame addr1 []) (20 # 3 # 0 # ks) 9 ([conn0], 0)) []"
    unfolding SharedReader_poll_def sample_wire_def
    using reader_poll_continue [OF open_step [where rest = ?d and ks = "20 # 3 # 0 # ks" and n = 10]]
    by (simp add: feed_def)
  also have "\<dots> = ?p (new_conn [] next_packet) (feed ?d (frame addr1 []) (20 # 3 # 0 # ks) 8 ([conn0], 0)) ([] @ [])"
    by (rule reader_poll_continue [OF send_step]) (simp add: feed_def)
  also have "\<dots> = ?p (new_conn [] (Read addr1 3)) (feed ([1, 2, 3] @ rest) ?h (3 # 0 # ks) 7 ([conn0], 0)) (([] @ []) @ [])"
    by (rule reader_poll_continue [OF data_header_step]) (simp add: feed_def)
  also have "\<dots> = ?p (new_conn [1, 2, 3] next_packet) (feed rest (?h @ [1, 2, 3]) (0 # ks) 6 ([conn0], 0)) ((([] @ []) @ []) @ [Noop])"
    by (rule reader_poll_continue [OF data_body_step]) (simp add: feed_def)
  also have "\<dots> = Some (Done Pending, new_conn [1, 2, 3] next_packet, feed rest (?h @ [1, 2, 3]) ks 6 ([conn0], 0), ((([] @ []) @ []) @ [Noop]) @ [])"
    by (rule reader_poll_stop(1) [OF idle_step])
  finally show ?thesis by (simp add: sample_wire_def frame_def)
qed

section \<open>The channel\<close>

definition mock_channel :: "(mock_world, unit) channel_api" where
  "mock_channel = \<lparr>ch_bounded = (\<lambda>n w. w), ch_mutex_new = (\<lambda>w. (0, w)), ch_recv_async = (\<lambda>w. ((), w)),
     ch_poll_recv = (\<lambda>f cx w. if mw_handed w < length (mw_sent w)
       then (Ready (Inr (mw_sent w ! mw_handed w)), f, w\<lparr>mw_handed := mw_handed w + 1\<rparr>) else (Pending, f, w)),
     ch_drop_recv = (\<lambda>f w. w), ch_drop_receiver = (\<lambda>w. w)\<rparr>"

lemma mock_channel_laws: "recv_laws mock_channel mw_seen"
  by (simp add: recv_laws_def mock_channel_def)

lemma mock_delivery: "channel_laws (mock_api L) mock_channel mw_sent mw_handed"
  by (auto simp: channel_laws_def mock_channel_def mock_api_def mock_read_def Let_def split: nat.splits)

end
