(* ===== verification/Mux_Props.thy ===== *)
theory Mux_Props
  imports Mux_Conn Mux_Sample
begin

text \<open>
  The contract of \<open>src/lib.rs\<close>: opening and accepting connections, with an application of each theorem,
  and two corners: a connection that is given up while it is being opened, and one for which there
  is no memory.
\<close>

section \<open>Opening a connection\<close>




lemma new_reader_map: "lr_map SharedReader_new = Map.empty"
  by (simp add: SharedReader_new_def)


text \<open>
  C38. A future of \<open>add_connection\<close> that is dropped in the middle of the handshake, for example by a timeout,
  leaves the part of the frame it has sent on the wire and releases the lock; it spawns a task that
  sends the empty frame from its beginning, which opens the connection at the other end although
  nobody has it; and the address stays taken.
\<close>

theorem add_connection_cancel:
  assumes "lock_laws W m wire holder" and "add_ok m holder a (AddHandshake wr rd h) w"
  shows "\<exists>t s' w'. MuxPipe_add_connection_drop W (AddHandshake wr rd h) s w = (Done (Some t), s', w') \<and>
    wire w' = wire w \<and> (handshake_guard h \<noteq> None \<longrightarrow> holder w' = None) \<and>
    task_rest rest t = frame a [] \<and> task_guard t = None \<and> lr_map s' = lr_map s"
proof -
  let ?w = "drop_handshake W h w"
  from assms(2) have wr: "WriteInner_addr wr = a" "wi_state wr = Writing Noop Buffering"
    "handshake_guard h = None \<or> holder w = handshake_guard h" by simp_all
  have q: "wire ?w = wire w \<and> (handshake_guard h \<noteq> None \<longrightarrow> holder ?w = None)"
  proof (cases h)
    case (HandshakeLock f)
    then show ?thesis using lock_lawsD(7) [OF assms(1), of w] by (cases f) (auto simp: quiet_def)
  next
    case (HandshakeWrite g f)
    then show ?thesis using lock_lawsD(8,9) [OF assms(1), of w g] wr(3) by simp
  qed simp
  obtain t w' where "drop_halves W wr rd s ?w = (Done (Some t), ReaderInner_drop s rd, w')"
    "quiet wire holder ?w w'" "task_rest rest t = frame (WriteInner_addr wr) []" "task_guard t = None"
    by (rule drop_idle_writer [OF assms(1) wr(2)])
  with q wr(1) show ?thesis by (auto simp: quiet_def)
qed

text \<open>A handshake of which five bytes are out.\<close>

theorem add_connection_cancel_witness:
  "\<exists>t s' w'. MuxPipe_add_connection_drop loopback (AddHandshake wr0 \<lparr>ri_entry = 0\<rparr> (HandshakeWrite () (drop 5 (frame addr1 []))))
       (new_conn [] next_packet) \<lparr>lb_wire = take 5 (frame addr1 []), lb_held = True, lb_script = []\<rparr> = (Done (Some t), s', w') \<and>
     lb_wire w' @ task_rest id t = take 5 (frame addr1 []) @ frame addr1 [] \<and> lb_holder w' = None \<and> lr_map s' addr1 = Some 0"
proof -
  let ?w = "\<lparr>lb_wire = take 5 (frame addr1 []), lb_held = True, lb_script = []\<rparr>"
  have "add_ok 0 lb_holder addr1 (AddHandshake wr0 \<lparr>ri_entry = 0\<rparr> (HandshakeWrite () (drop 5 (frame addr1 [])))) ?w"
    by (simp add: wr0_def fresh_writer lb_holder_def)
  from add_connection_cancel [OF loopback_lock_laws this, of "new_conn [] next_packet" id] show ?thesis
    by (auto simp: conn_of_def)
qed

section \<open>Accepting a connection\<close>

text \<open>
  C18. \<open>accept\<close> never panics while the stream lives. The first connection that is waiting in the channel is taken out and returned
  at once, with the reader that was sent and a fresh writer for its address on the mutex of the pipe,
  and nothing is read. If none is waiting, the poll drives the shared reader, in the world in which the channel was found empty: \<open>accept\<close> is
  pending if the reader is, with the receiving future that the channel has seen, and fails with the error of the reader otherwise.
\<close>

theorem accept_contract:
  assumes "recv_laws X src" and "queue_laws X queue" and "reader_laws B A view src" and "budget_laws A fuel"
    and "lr_inv s" and "taken_ok taken s" and "listening A L s" and "fut \<noteq> AcceptDone"
  shows "\<exists>r fut' s' w' wk. MuxListener_accept B A X u l fut s cx w = Some (Done r, fut', s', w', wk) \<and>
    lr_inv s' \<and> listening A L s' \<and> taken_ok taken s' \<and>
    accept_outcome B A X queue taken L src u l fut s cx w r fut' s' w' wk"
proof (cases fut)
  case AcceptStart
  obtain f w1 where r: "ch_recv_async X w = (f, w1)" by fastforce
  have "accept_recv X fut cx w = accept_recv X (AcceptWait f) cx w1" using AcceptStart r by simp
  then have "accept_outcome B A X queue taken L src u l fut s cx w = accept_outcome B A X queue taken L src u l (AcceptWait f) s cx w1"
    using recv_lawsD(1) [OF assms(1) r] queue_lawsD(1) [OF assms(2) r] unfolding accept_outcome_def fun_eq_iff by (simp only: simp_thms)
  with accept_wait_outcome [OF assms(1-7), of u l f cx w1] r AcceptStart show ?thesis by simp
next
  case (AcceptWait f)
  from accept_wait_outcome [OF assms(1-7), of u l f cx w] AcceptWait show ?thesis by simp
qed (use assms(8) in simp)

lemma new_conn_inv: "length bs \<le> 100 \<Longrightarrow> lr_inv (new_conn bs next_packet)"
  using conn_buffer_inv [of bs]
  by (auto simp: lr_inv_def heap_inv_def conn_of_def entry_ok_def conn_buffer_def [of bs] split: if_splits)

lemma mock_queue_laws: "queue_laws mock_channel (\<lambda>w. drop (mw_handed w) (mw_sent w))"
  by (auto simp: queue_laws_def mock_channel_def Cons_nth_drop_Suc [symmetric])

theorem accept_contract_witness:
  "\<exists>conn fut' s' w' wk. MuxListener_accept view_api (mock_api True) mock_channel uninit_writer \<lparr>ml_pipe = \<lparr>mp_write = 0\<rparr>\<rparr> AcceptStart
       (new_conn [1, 2, 3] next_packet) (Task 1) (feed [] sample_wire [] 6 ([conn0], 0)) = Some (Done (Ready (Inr conn)), fut', s', w', wk) \<and>
     MuxConnection_addr conn = addr1 \<and> mc_read conn = \<lparr>ri_entry = 0\<rparr> \<and> s' = new_conn [1, 2, 3] next_packet \<and> mw_seen w' = sample_wire"
proof -
  let ?s = "new_conn [1, 2, 3] next_packet" and ?l = "\<lparr>ml_pipe = \<lparr>mp_write = 0\<rparr>\<rparr>" and ?w = "feed [] sample_wire [] 6 ([conn0], 0)"
  have l: "listening (mock_api True) True ?s" by (rule mock_listening) simp
  have inv: "lr_inv ?s" by (rule new_conn_inv) simp
  have w: "drop (mw_handed ?w) (mw_sent ?w) = [(addr1, \<lparr>ri_entry = 0\<rparr>)]" "mw_seen ?w = sample_wire" by (simp_all add: feed_def)
  from accept_contract [OF mock_channel_laws mock_queue_laws mock_laws mock_budget inv new_reader_inv(3) l, of AcceptStart uninit_writer ?l "Task 1" ?w]
  show ?thesis by (auto simp del: MuxListener_accept.simps simp: w accept_outcome_def MuxConnection_addr_def fresh_pipe_writer)
qed

section \<open>No memory for a new connection\<close>

text \<open>
  C39. When there is no memory for the buffer of a connection a peer opens, the shared reader returns the error
  but does not leave the header: if the header came in pieces, it still has the first piece \<open>xs\<close> and
  takes the beginning of the next frame for the rest of a header it has already read.
\<close>

theorem failed_insert_keeps_header:
  assumes laws: "reader_laws B A view src" and inv: "lr_inv s" and st: "lr_state s = NextPacket h k"
    and xs: "mem_read h 0 (unat k) = Some xs"
    and p: "r_poll_read A cx (rb_uninit B (\<lambda>i. h (unat k + i)) (MuxFrameHeader_size - unat k)) w = (Ready (Inr ()), b', w1)"
    and ys: "src w1 = src w @ ys" and hdr: "xs @ ys = MuxFrameHeader_bytes (MuxFrameHeader_empty a)"
    and new: "lr_map s a = None" "\<not> r_is_disconnected A w1" and oom: "r_alloc A DEFAULT_BUFFER_CAPACITY w1 = (False, w2)"
  shows "\<exists>s'. ReaderMut_poll_once B A s cx w =
      (Done (Ready (Inl (IoError OutOfMemory ''failed to allocate read buffer''))), s', w2, []) \<and>
    lr_map s' = lr_map s \<and> abs_phase (lr_state s') = InHeader xs"
proof -
  have k: "unat k < MuxFrameHeader_size" using inv st by (simp add: lr_inv_def)
  obtain bs where bs: "src w1 = src w @ bs" "length (rb_filled B b') = length bs" "mem_read (rb_mem B b') 0 (length bs) = Some bs"
    by (rule header_fill [OF laws less_imp_le [OF k] p])
  have len: "unat k + length ys = MuxFrameHeader_size" "length xs = unat k"
    using arg_cong [OF hdr, of length] xs by auto
  with bs ys k have b: "length (rb_filled B b') = length ys" "mem_read (rb_mem B b') 0 (length ys) = Some ys" "rb_filled B b' \<noteq> []"
    by auto
  define h' where "h' = (\<lambda>i. if i < unat k then h i else rb_mem B b' (i - unat k))"
  have r: "mem_read h' 0 (unat k) = Some xs" "mem_read h' 0 MuxFrameHeader_size = Some (MuxFrameHeader_bytes (MuxFrameHeader_empty a))"
    using overlay_prefix [OF xs] overlay_read [OF xs b(2)] len hdr unfolding h'_def by simp_all
  let ?x = "of_nat (length ys) :: u8"
  have x: "unat ?x = length ys" using len by (simp add: unat_of_nat)
  then have "unat (k + ?x) = 20" using len by (simp add: unat_word_ariths)
  then have eq: "k + ?x = 20" by (simp add: word_unat_eq_iff)
  have "MuxFrameHeader_of_bytes (MuxFrameHeader_bytes (MuxFrameHeader_empty a)) = MuxFrameHeader_empty a"
    using MuxFrameHeader_of_bytes_append [of _ "[]"] by simp
  then have "ReaderMut_poll_once B A s cx w = packet_header A (s\<lparr>lr_state := NextPacket h' k\<rparr>) (MuxFrameHeader_empty a) cx w1"
    using k b x len eq r(2) p st
    by (simp add: ReaderMut_poll_once_def ReaderMut_poll_next_packet_def h'_def [symmetric] Let_def)
  moreover have "packet_header A (s\<lparr>lr_state := NextPacket h' k\<rparr>) (MuxFrameHeader_empty a) cx w1 =
      (Done (Ready (Inl (IoError OutOfMemory ''failed to allocate read buffer''))), s\<lparr>lr_state := NextPacket h' k\<rparr>, w2, [])"
    using new oom
    by (simp add: packet_header_def MuxFrameHeader_addr_def MuxFrameHeader_len_def MuxFrameHeader_empty_def ReaderMut_insert_def
        ReadBuffer_new_def DEFAULT_BUFFER_CAPACITY_def ISIZE_MAX_def)
  ultimately show ?thesis using r(1) by simp
qed

text \<open>A stream without memory, and a reader that has five bytes of a header.\<close>

definition full_api :: "(mock_world, rb_view, socket_addr \<times> reader_inner) reader_api" where
  "full_api = (mock_api True)\<lparr>r_alloc := \<lambda>n w. (False, w)\<rparr>"

definition five_bytes :: "(socket_addr \<times> reader_inner) locked_reader" where
  "five_bytes = SharedReader_new\<lparr>lr_state := NextPacket (mem_write Map.empty 0 (take 5 (frame addr1 []))) 5\<rparr>"

theorem failed_insert_keeps_header_witness:
  "\<exists>s' w'. ReaderMut_poll_once view_api full_api five_bytes (Task 1) (feed (drop 5 (frame addr1 [])) [] [] 9 ([], 0)) =
     (Done (Ready (Inl (IoError OutOfMemory ''failed to allocate read buffer''))), s', w', []) \<and>
     abs_phase (lr_state s') = InHeader (take 5 (frame addr1 []))"
proof -
  let ?h = "mem_write Map.empty 0 (take 5 (frame addr1 []))" and ?w = "feed (drop 5 (frame addr1 [])) [] [] 9 ([], 0)"
  have read: "mem_read ?h 0 (unat (5 :: u8)) = Some (take 5 (frame addr1 []))"
    using mem_write_same [of Map.empty 0 "take 5 (frame addr1 [])"] by simp
  have laws: "reader_laws view_api full_api id mw_seen"
    using mock_laws [of True] by (simp add: reader_laws_def full_api_def)
  have inv: "lr_inv five_bytes" using read by (simp add: five_bytes_def lr_inv_def heap_inv_def SharedReader_new_def)
  obtain b' w1 where p: "mock_read None (Task 1) (rb_uninit view_api (\<lambda>i. ?h (unat (5 :: u8) + i)) (20 - unat (5 :: u8))) ?w =
      (Ready (Inr ()), b', w1)" "w1 = feed [] (drop 5 (frame addr1 [])) [] 9 ([], 0)"
    by (simp add: mock_read_def mock_take_def feed_def Let_def)
  show ?thesis
    using failed_insert_keeps_header [OF laws inv, of ?h 5 "take 5 (frame addr1 [])" "Task 1" ?w b' w1 "drop 5 (frame addr1 [])" addr1 w1]
      p read by (simp add: five_bytes_def full_api_def new_reader_map frame_empty feed_def) blast
qed

end
