(* ===== verification/Read_Safety.thy ===== *)
theory Read_Safety
  imports Read_Poll Mock_Stream
begin

text \<open>
  Safety of the reading side without any assumption on how the stream behaves or ends: the reader of one
  stream under any calls of the application, in any order, with I/O errors, failing allocations, a
  listener that comes and goes, and other tasks that change the world in between. Preservation of the
  representation invariant and progress give that no reachable call panics, meets undefined behaviour or
  fails to return.
\<close>

section \<open>The calls of an application\<close>

text \<open>
  A read names a connection whose handle the application still owns and a well-formed buffer, full
  or not; \<open>op_elsewhere\<close> is whatever happens outside the reader.
\<close>

inductive reader_op ::
  "'b readbuf_api \<Rightarrow> ('w, 'b, 'f) reader_api \<Rightarrow> ('b \<Rightarrow> rb_view) \<Rightarrow> 'f locked_reader \<times> 'w \<Rightarrow> 'f locked_reader \<times> 'w \<Rightarrow> bool"
  for B A view where
  op_poll: "SharedReader_poll B A s cx w = Some (r, s', w', wk) \<Longrightarrow> reader_op B A view (s, w) (s', w')"
| op_read: "lr_heap s (ri_entry this) = Some arc \<Longrightarrow> 0 < ae_strong arc \<Longrightarrow> rb_ok (view buf) \<Longrightarrow>
    ReaderInner_poll_read B A this s cx buf w = Some (q, s', buf', w', wk) \<Longrightarrow> reader_op B A view (s, w) (s', w')"
| op_add: "SharedReader_add_connection A s a w = (res, s', w') \<Longrightarrow> reader_op B A view (s, w) (s', w')"
| op_drop: "lr_heap s (ri_entry this) = Some arc \<Longrightarrow> 0 < ae_strong arc \<Longrightarrow>
    reader_op B A view (s, w) (ReaderInner_drop s this, w)"
| op_elsewhere: "reader_op B A view (s, w) (s, w')"

section \<open>Progress and preservation of each call\<close>

lemma reader_poll_safe:
  assumes laws: "reader_laws B A view src" and budget: "budget_laws A fuel"
  shows "lr_inv s \<Longrightarrow> \<exists>r s' w' wk. ReaderMut_poll B A s cx w woken = Some (Done r, s', w', wk) \<and> lr_inv s'"
proof (induction "fuel w" arbitrary: s w woken rule: less_induct)
  case less
  obtain q s1 w1 wk1 where once: "ReaderMut_poll_once B A s cx w = (Done q, s1, w1, wk1)" and s1: "lr_inv s1"
    using poll_once_ok [OF laws less.prems new_reader_inv(3), of w cx]
    by (cases "ReaderMut_poll_once B A s cx w") (auto simp: once_ok_def)
  have fuel1: "fuel w1 \<le> fuel w" using poll_once_fuel [OF budget, of B s cx w] once by simp
  consider (pend) "q = Pending" | (err) e where "q = Ready (Inl e)" | (ok) "q = Ready (Inr ())"
    by (metis poll.exhaust sum.exhaust unit.exhaust)
  then show ?case
  proof cases
    case ok
    obtain c w2 where c: "r_consume_budget A cx w1 = (c, w2)" by fastforce
    show ?thesis
    proof (cases c)
      case Pending
      with ok s1 show ?thesis by (subst ReaderMut_poll.simps) (simp add: once c)
    next
      case (Ready u)
      have eq: "ReaderMut_poll B A s cx w woken = ReaderMut_poll B A s1 cx w2 (woken @ wk1)"
        using ok Ready once c by (intro reader_poll_continue [of _ _ _ _ _ _ w1]) simp_all
      have "fuel w2 < fuel w" using budget_lawsD(1) [OF budget, of cx w1 w2] c Ready fuel1 by simp
      from less.hyps [OF this s1] eq show ?thesis by simp
    qed
  qed (use once s1 in \<open>subst ReaderMut_poll.simps, simp\<close>)+
qed

lemma conn_read_safe:
  assumes laws: "reader_laws B A view src" and budget: "budget_laws A fuel" and inv: "lr_inv s"
    and arc: "lr_heap s (ri_entry this) = Some arc" and buf: "rb_ok (view buf)"
  shows "\<exists>q s' buf' w' wk. ReaderInner_poll_read B A this s cx buf w = Some (Done q, s', buf', w', wk) \<and> lr_inv s'"
proof (cases "rb_remaining B buf = 0")
  case True
  with inv show ?thesis by (simp add: ReaderInner_poll_read_def)
next
  case False
  let ?i = "ri_entry this" and ?e = "ae_entry arc"
  have heap: "heap_inv s" using inv by (simp add: lr_inv_def)
  have e: "entry_ok ?e" by (rule heap_invD(4) [OF heap arc])
  then have rd: "rd_inv (re_buffer ?e)" by (simp add: entry_ok_def)
  obtain q' buf' where read: "ReadBuffer_read B (re_buffer ?e) buf = Done (q', buf')" and q': "rd_inv q'" "rd_capacity q' = rd_capacity (re_buffer ?e)"
    by (rule read_spec [OF reader_lawsD(1) [OF laws] rd buf])
  have put: "lr_inv (put_entry t ?i (?e\<lparr>re_buffer := q', reader_pipe_waker := wk\<rparr>))" if "lr_inv t" for t wk
    using that e q' heap_inv_put_entry [of t "?e\<lparr>re_buffer := q', reader_pipe_waker := wk\<rparr>" ?i] by (simp add: lr_inv_def entry_ok_def)
  let ?s1 = "put_entry s ?i (?e\<lparr>re_buffer := q'\<rparr>)"
  have inv1: "lr_inv ?s1" using put [OF inv, of "reader_pipe_waker ?e"] by simp
  let ?s2 = "put_entry ?s1 ?i (?e\<lparr>re_buffer := q', reader_pipe_waker := cx\<rparr>)"
  obtain r s' w' wk where "ReaderMut_poll B A ?s2 cx w [] = Some (Done r, s', w', wk)" "lr_inv s'"
    using reader_poll_safe [OF laws budget put [OF inv1]] by blast
  then show ?thesis
    using False arc read inv1 by (cases r) (simp_all add: ReaderInner_poll_read_def SharedReader_poll_def Let_def)
qed

lemma add_connection_safe:
  assumes laws: "reader_laws B A view src" and inv: "lr_inv s"
    and eq: "SharedReader_add_connection A s a w = (res, s', w')"
  shows "lr_inv s'"
proof -
  have h: "heap_inv s" using inv by (simp add: lr_inv_def)
  have ins: "ReaderMut_insert A s a Noop w = (res, s', w')" using eq by (simp add: SharedReader_add_connection_def)
  show ?thesis
  proof (cases "lr_map s a")
    case None
    note ok = insert_ok [OF laws h None ins]
    show ?thesis using ok(2,3) inv by (cases res) (auto simp: lr_inv_def)
  qed (use ins inv in \<open>auto simp: ReaderMut_insert_def\<close>)
qed

section \<open>Reachable states\<close>

text \<open>A stream of noise that ends in the middle of a frame.\<close>

definition noise :: mock_world where
  "noise = \<lparr>mw_data = replicate 47 255, mw_seen = [], mw_script = [3, 17, 0, 30], mw_budget = 10, mw_sent = [], mw_handed = 0\<rparr>"

lemma reader_op_preserves:
  assumes laws: "reader_laws B A view src" "budget_laws A fuel"
  shows "reader_op B A view p p' \<Longrightarrow> lr_inv (fst p) \<Longrightarrow> lr_inv (fst p')"
proof (induction rule: reader_op.induct)
  case (op_poll s cx w r s' w' wk)
  with reader_poll_safe [OF laws, of s cx w "[]"] show ?case by (auto simp: SharedReader_poll_def)
next
  case (op_read s this arc buf cx w q s' buf' w' wk)
  with conn_read_safe [OF laws, of s this arc buf cx w] show ?case by auto
next
  case (op_add s a w res s' w')
  with add_connection_safe [OF laws(1)] show ?case by simp
next
  case (op_drop s this arc w)
  have "lr_state (ReaderInner_drop s this) = lr_state s" by (simp add: ReaderInner_drop_def split: option.split)
  with op_drop ReaderInner_drop_ok(1) [of s this] show ?case by (simp add: lr_inv_def)
qed simp

lemma reader_ops_preserve:
  assumes "reader_laws B A view src" and "budget_laws A fuel" and "(reader_op B A view)\<^sup>*\<^sup>* p p'" and "lr_inv (fst p)"
  shows "lr_inv (fst p')"
  using assms(3,4) by (induction rule: rtranclp_induct) (auto intro: reader_op_preserves [OF assms(1,2)])

text \<open>
  C7. Type safety of the reading side: from a new reader, after any calls in any order, whatever the stream,
  the allocator, the listener and other tasks do, the state is well formed, and every poll of
  the shared reader, every read of a connection and every \<open>add_connection\<close> returns a value in a well-formed state:
  none of the unsafe blocks, \<open>unwrap\<close>s and arithmetic on the way goes wrong. Every buffer shows its unread bytes, and
  would be given back to the allocator with the size it was allocated with.
\<close>

theorem reader_type_safe:
  assumes "reader_laws B A view src" and "budget_laws A fuel"
    and "(reader_op B A view)\<^sup>*\<^sup>* (SharedReader_new, w0) (s, w)"
  shows "lr_inv s \<and>
    (\<forall>cx. \<exists>r s' w' wk. SharedReader_poll B A s cx w = Some (Done r, s', w', wk) \<and> lr_inv s') \<and>
    (\<forall>this arc buf cx. lr_heap s (ri_entry this) = Some arc \<longrightarrow> rb_ok (view buf) \<longrightarrow>
       (\<exists>q s' buf' w' wk. ReaderInner_poll_read B A this s cx buf w = Some (Done q, s', buf', w', wk) \<and> lr_inv s')) \<and>
    (\<forall>a. lr_inv (fst (snd (SharedReader_add_connection A s a w)))) \<and>
    (\<forall>i arc. lr_heap s i = Some arc \<longrightarrow>
       ReadBuffer_fmt dbg (re_buffer (ae_entry arc)) = Done (dbg ''ReadBuffer'' (''buffer'', rd_contents (re_buffer (ae_entry arc)))) \<and>
       ReadBuffer_drop dealloc (re_buffer (ae_entry arc)) = dealloc DEFAULT_BUFFER_CAPACITY)"
proof -
  have inv: "lr_inv s" using reader_ops_preserve [OF assms] new_reader_inv(1) by simp
  moreover have "\<exists>r s' w' wk. SharedReader_poll B A s cx w = Some (Done r, s', w', wk) \<and> lr_inv s'" for cx
    using reader_poll_safe [OF assms(1,2) inv] by (simp add: SharedReader_poll_def)
  moreover have "lr_inv (fst (snd (SharedReader_add_connection A s a w)))" for a
    using add_connection_safe [OF assms(1) inv, of a w]
    by (cases "SharedReader_add_connection A s a w") auto
  moreover have "ReadBuffer_fmt dbg (re_buffer (ae_entry arc)) = Done (dbg ''ReadBuffer'' (''buffer'', rd_contents (re_buffer (ae_entry arc)))) \<and>
      ReadBuffer_drop dealloc (re_buffer (ae_entry arc)) = dealloc DEFAULT_BUFFER_CAPACITY" if "lr_heap s i = Some arc" for i arc
    using inv heap_invD(4) [of s i arc] that by (simp add: lr_inv_def entry_ok_def ReadBuffer_fmt_contents ReadBuffer_drop_def fun_eq_iff)
  ultimately show ?thesis using conn_read_safe [OF assms(1,2) inv] by blast
qed

theorem reader_type_safe_witness:
  "\<exists>r s w wk. SharedReader_poll view_api (mock_api True) SharedReader_new (Task 1) noise = Some (r, s, w, wk) \<and>
    lr_inv s \<and> (\<exists>r' s' w' wk'. SharedReader_poll view_api (mock_api True) s (Task 2) w = Some (Done r', s', w', wk'))"
proof -
  obtain r s w wk where p: "SharedReader_poll view_api (mock_api True) SharedReader_new (Task 1) noise = Some (Done r, s, w, wk)"
    using reader_poll_safe [OF mock_laws mock_budget new_reader_inv(1), of True "Task 1" noise "[]"] by (auto simp: SharedReader_poll_def)
  then have "(reader_op view_api (mock_api True) id)\<^sup>*\<^sup>* (SharedReader_new, noise) (s, w)"
    by (intro r_into_rtranclp op_poll)
  from reader_type_safe [OF mock_laws mock_budget this, of "\<lambda>name field. field" "\<lambda>size free. free + size"] p show ?thesis by blast
qed

end
