(* ===== verification/Delivery_Sample.thy ===== *)
theory Delivery_Sample
  imports Mux_Sample
begin

text \<open>
  Two more runs on the sample streams: the sample connection is shut down by its writer and read to its
  end; and a connection that the reading end opened is written by the writer the other end accepted it with.
\<close>

section \<open>Read to the end\<close>

definition wr3 :: "(unit, unit) write_inner" where
  "wr3 = wr2\<lparr>wi_state := Shutdown ShutDone, wi_buffer := PacketBuffer_clear (wi_buffer wr2)\<rparr>"

lemma loopback_close:
  assumes b: "pb_inv b" "payload b = []" and w: "lb_script w = []"
  shows "flush_buf loopback cx b () (CounterU8 0) w = Some (Done (Ready (Inr ())), PacketBuffer_clear b, CounterU8 20,
    w\<lparr>lb_wire := lb_wire w @ frame (pb_socket_addr b) []\<rparr>)"
proof -
  define F where "F = frame (pb_socket_addr b) []"
  have 1: "PacketBuffer_bytes_from b 0 = Done F" and 2: "PacketBuffer_bytes_from b (ucast (20 :: u8)) = Done []"
    using b(2) by (simp_all add: bytes_from_frame [OF b(1)] F_def)
  have len: "length F = 20" by (simp add: F_def)
  then have ne: "F \<noteq> []" by auto
  have "counter_add (CounterU8 0) (length F) = Done (CounterU8 20)" by (simp add: len)
  then have "flush_buf loopback cx b () (CounterU8 0) w =
      flush_buf loopback cx b () (CounterU8 20) (w\<lparr>lb_wire := lb_wire w @ F\<rparr>)"
    using ne by (subst flush_buf.simps) (simp add: 1 loopback_def lb_poll_write_def w)
  also have "\<dots> = Some (Done (Ready (Inr ())), PacketBuffer_clear b, CounterU8 20, w\<lparr>lb_wire := lb_wire w @ F\<rparr>)"
    using 2 by (subst flush_buf.simps) simp
  finally show ?thesis unfolding F_def .
qed

lemma conn_shutdown:
  assumes b: "pb_inv b" "payload b = []"
  shows "WriteInner_poll_shutdown loopback (conn_with (Writing (Task 1) Buffering) b) (Task 1) (lb_sent F) =
    Some (Done (Ready (Inr ())), conn_with (Shutdown ShutDone) (PacketBuffer_clear b), lb_sent (F @ frame (pb_socket_addr b) []), [Task 1])"
proof -
  let ?w1 = "(lb_sent F)\<lparr>lb_held := True\<rparr>"
  have e: "PacketBuffer_is_empty b" by (simp add: is_empty_payload b)
  have l: "PollMutex_poll_lock loopback (PollMutex_new 0) (Task 1) (lb_sent F) = (Ready (), PollMutex_new 0, ?w1)"
    by (simp add: PollMutex_poll_lock_def PollMutex_new_def loopback_def lb_try_lock_def lb_start_def)
  have "lb_script ?w1 = []" by (simp add: lb_start_def)
  note c = loopback_close [OF b this, of "Task 1"]
  have "shutdown_loop loopback (Task 1) WaitingLock (PollMutex_new 0) b (lb_sent F) =
      Some (Done (Ready (Inr ())), ShutDone, PollMutex_new 0, PacketBuffer_clear b, lb_sent (F @ frame (pb_socket_addr b) []))"
    using l c e by (simp add: shutdown_loop.simps) (simp add: loopback_def lb_start_def)
  then show ?thesis by (simp add: WriteInner_poll_shutdown_def PoisonOnPanic_new_def PoisonOnPanic_drop_def shutdown_enter_def)
qed

lemma wr_shutdown:
  "WriteInner_poll_shutdown loopback wr2 (Task 1) ((lb_start [])\<lparr>lb_wire := F\<rparr>) =
   Some (Done (Ready (Inr ())), wr3, (lb_start [])\<lparr>lb_wire := F @ frame addr1 []\<rparr>, [Task 1])"
  using conn_shutdown [of "PacketBuffer_clear wr_buffer" F] by (simp add: wr3_def wr2_conn) (simp add: wr_buffer_def)

definition closed_wire :: "byte list" where
  "closed_wire = frames [(addr1, []), (addr1, [1, 2, 3]), (addr1, [])]"

definition closed_sys :: "((unit, unit, byte list) actor, lb_world, offer) sys" where
  "closed_sys = sample_sys\<lparr>sy_actors := [0 \<mapsto> ActConn True wr3], sy_world := (lb_start [])\<lparr>lb_wire := closed_wire\<rparr>\<rparr>"

lemma closed_sys_run: "(sys_step (actor_step loopback) (fresh_actor 0))\<^sup>*\<^sup>* (sys_start (lb_start [])) closed_sys"
proof -
  have "actor_step loopback (ActConn True wr2) sample_world [] (ActConn True wr3) ((lb_start [])\<lparr>lb_wire := closed_wire\<rparr>)"
    using do_shutdown [OF wr_shutdown [of "frames [(addr1, []), (addr1, [1, 2, 3])]"], of True]
    by (simp add: sample_world_def closed_wire_def)
  then have "sys_step (actor_step loopback) (fresh_actor 0) sample_sys closed_sys"
    using sys_step.actor_acts [of sample_sys 0 "ActConn True wr2" "actor_step loopback" "[]"] sample_sys_facts(2)
    by (auto simp: sample_sys_def closed_sys_def fun_upd_idem)
  with sample_sys_run show ?thesis by (rule rtranclp.rtrancl_into_rtrancl)
qed

lemma closed_sys_facts:
  "sy_actors closed_sys = [0 \<mapsto> ActConn True wr3]" "WriteInner_addr wr3 = addr1" "lb_wire (sy_world closed_sys) = closed_wire"
  "sy_events closed_sys 0 = [([1, 2, 3], Ready (Inr 3), False)]"
  using wr2_facts(2) sample_sys_facts(4)
  by (simp_all add: closed_sys_def wr3_def WriteInner_addr_def PacketBuffer_addr_def)

text \<open>The reading end: the connection after its closing frame, and after its bytes were read.\<close>

definition gone_conn :: "read_buffer \<Rightarrow> (socket_addr \<times> reader_inner) locked_reader" where
  "gone_conn q =
     \<lparr>lr_heap = [0 \<mapsto> \<lparr>ae_strong = 1, ae_weak = 0,
        ae_entry = \<lparr>reader_pipe_waker = Noop, waiting_waker = Task 1, re_buffer = q\<rparr>\<rparr>],
      lr_next = 1, lr_map = Map.empty, lr_state = next_packet\<rparr>"

lemma close_step:
  "ReaderMut_poll_once view_api (mock_api True) (new_conn bs next_packet) (Task 1) (feed (frame addr1 [] @ rest) seen (20 # ks) n out) =
   (Done (Ready (Inr ())), gone_conn (conn_buffer bs), feed rest (seen @ frame addr1 []) ks n out, [Noop])"
  by (subst mock_header_step [where h = "MuxFrameHeader_empty addr1" and rest = rest and ks = ks])
    (simp_all add: feed_def frame_empty packet_header_def MuxFrameHeader_addr_def MuxFrameHeader_len_def MuxFrameHeader_empty_def
      ReaderMut_remove_def upgrade_def drop_weak_def weak_count_def ReaderMut_next_packet_def conn_of_def gone_conn_def)

definition open_reader :: "nat \<Rightarrow> (socket_addr \<times> reader_inner, mock_world) read_sys" where
  "open_reader h = \<lparr>rs_reader = new_conn [1, 2, 3] next_packet,
     rs_world = feed (frame addr1 []) sample_wire [20, 0] 6 ([conn0], h), rs_taken = (\<lambda>i. [])\<rparr>"

definition gone_reader :: "read_buffer \<Rightarrow> byte list \<Rightarrow> (socket_addr \<times> reader_inner, mock_world) read_sys" where
  "gone_reader q bs = \<lparr>rs_reader = gone_conn q, rs_world = feed [] closed_wire [] 5 ([conn0], 1), rs_taken = (\<lambda>i. [])(0 := bs)\<rparr>"

lemma open_reader_run:
  "(read_step view_api (mock_api True) id mine)\<^sup>*\<^sup>* (read_start (feed closed_wire [] [20, 20, 3, 0, 20, 0] 10 ([], 0))) (open_reader 0)"
  using poll_shared [of view_api "mock_api True" "read_start (feed closed_wire [] [20, 20, 3, 0, 20, 0] 10 ([], 0))" "Task 1"]
    sample_poll [of "frame addr1 []" "[20, 0]"]
  by (intro r_into_rtranclp) (simp add: read_start_def open_reader_def closed_wire_def sample_wire_def)

lemma closing_step: "read_step view_api (mock_api True) id mine (open_reader 1) (gone_reader (conn_buffer [1, 2, 3]) [])"
proof -
  let ?p = "\<lambda>s w wk. ReaderMut_poll view_api (mock_api True) s (Task 1) w wk"
  have "?p (new_conn [1, 2, 3] next_packet) (feed (frame addr1 [] @ []) sample_wire [20, 0] 6 ([conn0], 1)) [] =
      ?p (gone_conn (conn_buffer [1, 2, 3])) (feed [] (sample_wire @ frame addr1 []) [0] 5 ([conn0], 1)) ([] @ [Noop])"
    by (rule reader_poll_continue [OF close_step]) (simp add: feed_def)
  also have "\<dots> = Some (Done Pending, gone_conn (conn_buffer [1, 2, 3]), feed [] (sample_wire @ frame addr1 []) [] 5 ([conn0], 1), ([] @ [Noop]) @ [])"
    by (rule reader_poll_stop(1), subst mock_pending_step [where ks = "[]"]) (simp_all add: gone_conn_def feed_def)
  finally show ?thesis
    using poll_shared [of view_api "mock_api True" "open_reader 1" "Task 1"]
    by (simp add: SharedReader_poll_def open_reader_def gone_reader_def closed_wire_def sample_wire_def fun_upd_idem)
qed

definition empty_buf :: rb_view where
  "empty_buf = \<lparr>v_mem = Map.empty, v_cap = 9, v_filled = 0, v_init = 0\<rparr>"

definition full_buf :: rb_view where
  "full_buf = \<lparr>v_mem = mem_write Map.empty 0 [1, 2, 3], v_cap = 9, v_filled = 3, v_init = 3\<rparr>"

definition drained :: read_buffer where
  "drained = (conn_buffer [1, 2, 3])\<lparr>rd_filled := 0\<rparr>"

lemma take_sample: "ReadBuffer_read view_api (conn_buffer [1, 2, 3]) empty_buf = Done (drained, full_buf)"
proof -
  have m: "mem_read (mem_write Map.empty 0 [1, 2, 3]) 0 3 = Some [1, 2, 3 :: byte]"
    using mem_write_same [of Map.empty 0 "[1, 2, 3]"] by (simp add: numeral_3_eq_3)
  have "ReadBuffer_bytes (conn_buffer [1, 2, 3]) = Done [1, 2, 3]" using m by (simp add: ReadBuffer_bytes_def conn_buffer_def numeral_3_eq_3)
  then show ?thesis
    using m
    by (simp add: ReadBuffer_read_def ReadBuffer_advance_def empty_buf_def full_buf_def drained_def view_api_def Let_def)
      (simp add: conn_buffer_def numeral_3_eq_3)
qed

lemma reading_step: "read_step view_api (mock_api True) id mine (gone_reader (conn_buffer [1, 2, 3]) []) (gone_reader drained [1, 2, 3])"
proof -
  let ?R = "gone_reader (conn_buffer [1, 2, 3]) []"
  have poll: "ReaderInner_poll_read view_api (mock_api True) \<lparr>ri_entry = 0\<rparr> (rs_reader ?R) (Task 1) empty_buf (rs_world ?R) =
      Some (Done (Ready (Inr ())), gone_conn drained, full_buf, rs_world ?R, [Task 1])"
    using take_sample
    by (simp add: ReaderInner_poll_read_def gone_reader_def gone_conn_def put_entry_def Let_def)
      (simp add: empty_buf_def full_buf_def)
  have grown: "rb_contents (id full_buf) = rb_contents (id empty_buf) @ [1, 2, 3]"
    using mem_write_same [of Map.empty 0 "[1, 2, 3 :: byte]"]
    by (simp add: rb_contents_def full_buf_def empty_buf_def numeral_3_eq_3)
  have room: "rb_ok (id empty_buf)" "v_filled (id empty_buf) < v_cap (id empty_buf)" by (simp_all add: rb_ok_def empty_buf_def)
  have arc: "lr_heap (rs_reader ?R) (ri_entry \<lparr>ri_entry = 0\<rparr>) = Some (the (lr_heap (rs_reader ?R) 0))"
    "0 < ae_strong (the (lr_heap (rs_reader ?R) 0))"
    by (simp_all add: gone_reader_def gone_conn_def)
  from read_conn [where view = id and mine = mine, OF arc room poll _ grown] show ?thesis by (simp add: gone_reader_def)
qed

lemma eof_read:
  "ReaderInner_poll_read view_api (mock_api True) \<lparr>ri_entry = 0\<rparr> (gone_conn drained) (Task 1) empty_buf w =
   Some (Done (Ready (Inr ())), gone_conn drained, empty_buf, w, [])"
proof -
  have "ReadBuffer_read view_api drained empty_buf = Done (drained, empty_buf)"
    by (simp add: ReadBuffer_read_def ReadBuffer_bytes_def drained_def conn_buffer_def)
  then show ?thesis
    by (simp add: ReaderInner_poll_read_def gone_conn_def put_entry_def weak_count_def Let_def)
qed

section \<open>The way back\<close>

definition wr_buffering :: "byte list \<Rightarrow> ((unit, unit, byte list) actor, lb_world, offer) sys" where
  "wr_buffering F = \<lparr>sy_actors = [0 \<mapsto> ActConn False wr2], sy_world = (lb_start [])\<lparr>lb_wire := F\<rparr>,
     sy_events = (\<lambda>i. [])(0 := [([1, 2, 3], Ready (Inr 3), False)])\<rparr>"

text \<open>The other end accepts the address, writes three bytes and flushes them.\<close>

lemma accepted_run:
  "(sys_step (actor_step loopback) (fresh_actor 0))\<^sup>*\<^sup>* (sys_start (lb_start [])) (wr_buffering (frame addr1 [1, 2, 3]))"
proof -
  let ?st = "sys_step (actor_step loopback) (fresh_actor 0)"
  let ?S = "\<lambda>c w es. \<lparr>sy_actors = [0 \<mapsto> c], sy_world = w, sy_events = (\<lambda>i. [])(0 := es)\<rparr>"
  have act: "?st (?S c w es) (?S c' w' (es @ ev))" if "actor_step loopback c w ev c' w'" for c w es c' w' ev
    using sys_step.actor_acts [of "?S c w es" 0 c "actor_step loopback" ev c' w'] that by simp
  have w: "(lb_start [])\<lparr>lb_wire := []\<rparr> = lb_start []" by (simp add: lb_start_def)
  have 0: "?st (sys_start (lb_start [])) (?S (ActNew wr0) (lb_start []) [])"
    using sys_step.new_actor [of "sys_start (lb_start [])" 0 "fresh_actor 0" "ActNew wr0" "actor_step loopback"]
    by (auto simp: sys_start_def fresh_actor_def wr0_def)
  have 1: "?st (?S (ActNew wr0) (lb_start []) []) (?S (ActConn False wr0) (lb_start []) [])"
    using act [OF do_accept [of loopback wr0 "lb_start []"], of "[]"] by simp
  have 2: "?st (?S (ActConn False wr0) (lb_start []) []) (?S (ActConn False wr1) (lb_start []) [([1, 2, 3], Ready (Inr 3), False)])"
    using act [OF do_write [OF wr_write], of False "lb_start []" "[]"] by (simp add: wr1_unlocked)
  have 3: "?st (?S (ActConn False wr1) (lb_start []) [([1, 2, 3], Ready (Inr 3), False)]) (wr_buffering (frame addr1 [1, 2, 3]))"
    using act [OF do_flush [OF wr_flush [of "[]"]], of False "[([1, 2, 3], Ready (Inr 3), False)]"] w by (simp add: wr_buffering_def)
  from 0 1 2 3 show ?thesis by (auto intro: rtranclp.rtrancl_into_rtrancl)
qed

definition back_world :: mock_world where
  "back_world = feed (frame addr1 [1, 2, 3]) [] [20, 3, 0] 10 ([], 0)"

lemma added_here:
  "SharedReader_add_connection (mock_api True) SharedReader_new addr1 back_world =
   (Inr \<lparr>ri_entry = 0\<rparr>, conn_of Noop [] next_packet, back_world)"
proof -
  have "ReadBuffer_new (r_alloc (mock_api True)) DEFAULT_BUFFER_CAPACITY w = (Inr (conn_buffer []), w)" for w
    by (simp add: ReadBuffer_new_def mock_api_def DEFAULT_BUFFER_CAPACITY_def ISIZE_MAX_def conn_buffer_def)
  then show ?thesis
    by (simp add: SharedReader_add_connection_def ReaderMut_insert_def SharedReader_new_def conn_of_def)
qed

definition back_start :: "(socket_addr \<times> reader_inner, mock_world) read_sys" where
  "back_start = \<lparr>rs_reader = conn_of Noop [] next_packet, rs_world = back_world, rs_taken = (\<lambda>i. [])\<rparr>"

definition back_reader :: "(socket_addr \<times> reader_inner, mock_world) read_sys" where
  "back_reader = \<lparr>rs_reader = conn_of Noop [1, 2, 3] next_packet, rs_world = feed [] (frame addr1 [1, 2, 3]) [] 8 ([], 0), rs_taken = (\<lambda>i. [])\<rparr>"

lemma back_run: "(read_step view_api (mock_api True) id mine)\<^sup>*\<^sup>* back_start back_reader"
proof -
  let ?p = "\<lambda>s w wk. ReaderMut_poll view_api (mock_api True) s (Task 1) w wk"
  let ?h = "take 20 (frame addr1 [1, 2, 3])"
  have "?p (conn_of Noop [] next_packet) (feed (frame addr1 [1, 2, 3] @ []) [] [20, 3, 0] 10 ([], 0)) [] =
      ?p (conn_of Noop [] (Read addr1 3)) (feed ([1, 2, 3] @ []) ([] @ ?h) [3, 0] 9 ([], 0)) ([] @ [])"
    by (rule reader_poll_continue [OF data_header_step]) (simp add: feed_def)
  also have "\<dots> = ?p (conn_of Noop [1, 2, 3] next_packet) (feed [] (([] @ ?h) @ [1, 2, 3]) [0] 8 ([], 0)) (([] @ []) @ [Noop])"
    by (rule reader_poll_continue [OF data_body_step]) (simp add: feed_def)
  also have "\<dots> = Some (Done Pending, conn_of Noop [1, 2, 3] next_packet, feed [] (([] @ ?h) @ [1, 2, 3]) [] 8 ([], 0), (([] @ []) @ [Noop]) @ [])"
    by (rule reader_poll_stop(1) [OF idle_step])
  finally have "SharedReader_poll view_api (mock_api True) (rs_reader back_start) (Task 1) (rs_world back_start) =
      Some (Done Pending, rs_reader back_reader, rs_world back_reader, [Noop])"
    by (simp add: SharedReader_poll_def back_start_def back_world_def back_reader_def) (simp add: frame_def)
  from poll_shared [OF this, of id] show ?thesis
    by (intro r_into_rtranclp) (simp add: back_start_def back_reader_def)
qed

end
