(* ===== verification/Delivery_Props.thy ===== *)
theory Delivery_Props
  imports Delivery_Sample
begin

text \<open>
  The service of the multiplexer at every moment: what the reader of a connection has is a part of
  what its writer accepted, and the end of the stream comes only after all of it. Opened
  from the other end or from this one; with runs of both on the sample streams.
\<close>

lemma sample_facts:
  "wire_laws loopback 0 lb_wire lb_holder id" "lb_wire (lb_start []) = []" "lb_holder (lb_start []) = None"
  "listener_stays (mock_api True)" "listening (mock_api True) True (SharedReader_new :: (socket_addr \<times> reader_inner) locked_reader)"
  by (simp_all add: wire_laws_def loopback_laws lb_start_def lb_holder_def listener_stays_def mock_api_def listening_def)

section \<open>A connection the other end opened\<close>

text \<open>The run of the listening end: it reads the stream, accepts the connection and goes on.\<close>

definition accepted_conn :: "(unit, unit) mux_connection" where
  "accepted_conn = MuxConnection_new (MuxPipe_make_writer uninit_writer \<lparr>mp_write = 0\<rparr> addr1) \<lparr>ri_entry = 0\<rparr>"

lemma accepted_conn_facts: "MuxConnection_addr accepted_conn = addr1" "mc_read accepted_conn = \<lparr>ri_entry = 0\<rparr>"
  by (simp_all add: accepted_conn_def MuxConnection_addr_def MuxConnection_new_def fresh_pipe_writer)

abbreviation (input) sample_listen where
  "sample_listen \<equiv> listen_step view_api (mock_api True) mock_channel uninit_writer id mw_seen mw_sent mw_handed {}"

lemma accepting_run:
  "sample_listen\<^sup>*\<^sup>* (read_start (feed closed_wire [] [20, 20, 3, 0, 20, 0] 10 ([], 0))) (open_reader 0)"
  by (rule mono_rtranclp [rule_format, OF _ open_reader_run]) (rule reader_step)

lemma sample_accept:
  "MuxListener_accept view_api (mock_api True) mock_channel uninit_writer \<lparr>ml_pipe = \<lparr>mp_write = 0\<rparr>\<rparr> AcceptStart
     (rs_reader (open_reader 0)) (Task 1) (rs_world (open_reader 0)) =
   Some (Done (Ready (Inr accepted_conn)), AcceptDone, rs_reader (open_reader 1), rs_world (open_reader 1), [])"
  by (simp add: accept_wait_def mock_channel_def open_reader_def feed_def accepted_conn_def)

lemma accepted_step: "(open_reader 0)\<lparr>rs_reader := rs_reader (open_reader 1), rs_world := rs_world (open_reader 1)\<rparr> = open_reader 1"
  by (simp add: open_reader_def)

lemma reading_run: "sample_listen\<^sup>*\<^sup>* (open_reader 1) (gone_reader drained [1, 2, 3])"
proof -
  have "sample_listen (open_reader 1) (gone_reader (conn_buffer [1, 2, 3]) [])"
    "sample_listen (gone_reader (conn_buffer [1, 2, 3]) []) (gone_reader drained [1, 2, 3])"
    by (rule reader_step, rule closing_step, rule reader_step, rule reading_step)
  then show ?thesis by (rule converse_rtranclp_into_rtranclp [OF _ r_into_rtranclp])
qed

lemma gone_run: "sample_listen\<^sup>*\<^sup>* (read_start (feed closed_wire [] [20, 20, 3, 0, 20, 0] 10 ([], 0))) (gone_reader drained [1, 2, 3])"
proof -
  have "sample_listen (open_reader 0) (open_reader 1)" using accept_step [OF sample_accept] accepted_step by simp
  from rtranclp_trans [OF rtranclp.rtrancl_into_rtrancl [OF accepting_run this] reading_run] show ?thesis .
qed

text \<open>The other end, which wrote three bytes and shut the connection down.\<close>

lemma closed_actor:
  "sy_actors closed_sys 0 = Some (ActConn True wr3)" "actor_addr (ActConn True wr3 :: (unit, unit, byte list) actor) = addr1"
  "actor_shook (ActConn True wr3 :: (unit, unit, byte list) actor) = Some True"
  "\<forall>j d. sy_actors closed_sys j = Some d \<longrightarrow> actor_addr d = addr1 \<longrightarrow> j = 0"
  by (simp_all add: closed_sys_facts)

text \<open>
  C2. At every moment, however far the reading end lags behind, even when a frame is under way: a
  connection that \<open>accept\<close> has returned is the only one of its address that was ever handed to the listener. As long as its reader is
  there, it has got in order and unchanged bytes that its writer accepted, whatever all other connections
  of both ends do short of truncating a frame (an I/O error, a cancelled handshake, a drop in the middle of a shutdown). It loses its place in the map only after the closing frame, and unless its
  writer was dropped before it was shut down, it then has got all the bytes that were accepted.
\<close>

theorem delivered_in_order:
  fixes R R1 :: "('l, 'v) read_sys"
  assumes "wire_laws W m wire holder rest" and "(sys_step (actor_step W) (fresh_actor m))\<^sup>*\<^sup>* (sys_start w) S"
    and "wire w = []" and "holder w = None"
    and "sy_actors S i = Some c" and "actor_addr c = a" and "actor_shook c = Some True"
    and "\<forall>j d. sy_actors S j = Some d \<longrightarrow> actor_addr d = a \<longrightarrow> j = i"
    and "reader_laws B A view src" and "budget_laws A fuel" and "listener_stays A" and "channel_laws A X sent handed" and "recv_laws X src"
    and "a \<notin> mine" and "src v = []" and "sent v = []"
    and "(listen_step B A X u view src sent handed mine)\<^sup>*\<^sup>* (read_start v) R1"
    and "MuxListener_accept B A X u l fut (rs_reader R1) cx (rs_world R1) = Some (Done (Ready (Inr conn)), fut', s', w', wk)"
    and "MuxConnection_addr conn = a"
    and "(listen_step B A X u view src sent handed mine)\<^sup>*\<^sup>* (R1\<lparr>rs_reader := s', rs_world := w'\<rparr>) R"
    and "prefix (src (rs_world R)) (wire (sy_world S))" and "live (rs_reader R) (ri_entry (mc_read conn))"
  shows "filter (\<lambda>m. fst m = a) (sent (rs_world R)) = [(a, mc_read conn)] \<and>
    (\<exists>rest. accepted (sy_events S i) (abs_got (rs_taken R) (rs_reader R) (ri_entry (mc_read conn)) @ rest) \<and>
      (lr_map (rs_reader R) a = Some (ri_entry (mc_read conn)) \<or>
       lr_map (rs_reader R) a = None \<and> ri_entry (mc_read conn) \<notin> ran (lr_map (rs_reader R)) \<and> (\<not> actor_dropped c \<longrightarrow> rest = [])))"
proof -
  obtain F bs where fr: "wire_system.framed wire holder m rest F bs S" by (rule writers_framed [OF assms(1-4)])
  note seen = accepted_seen [OF fr assms(5-21)]
  show ?thesis
    using followed_part [where src = src and R = R and L = True, OF fr assms(5-8) _ assms(21)] seen assms(22)
    by (simp add: got_part_def)
qed

theorem delivered_in_order_witness:
  "\<exists>rest. accepted [([1, 2, 3], Ready (Inr 3), False)] (abs_got (rs_taken (open_reader 1)) (rs_reader (open_reader 1)) 0 @ rest) \<and>
     prefix (mw_seen (rs_world (open_reader 1))) closed_wire \<and> lr_map (rs_reader (open_reader 1)) addr1 = Some 0"
proof -
  let ?R = "open_reader 1"
  have r: "addr1 \<notin> {}" "mw_seen (feed closed_wire [] [20, 20, 3, 0, 20, 0] 10 ([], 0)) = []"
    "mw_sent (feed closed_wire [] [20, 20, 3, 0, 20, 0] 10 ([], 0)) = []"
    by (simp_all add: feed_def)
  have p: "prefix (mw_seen (rs_world ?R)) (lb_wire (sy_world closed_sys))" "live (rs_reader ?R) (ri_entry (mc_read accepted_conn))"
    "lr_map (rs_reader ?R) addr1 = Some 0"
    by (simp_all add: feed_def open_reader_def conn_of_def closed_sys_facts sample_wire_def closed_wire_def live_def accepted_conn_facts)
  have run: "sample_listen\<^sup>*\<^sup>* ((open_reader 0)\<lparr>rs_reader := rs_reader ?R, rs_world := rs_world ?R\<rparr>) ?R"
    unfolding accepted_step by (rule rtranclp.rtrancl_refl)
  from delivered_in_order [OF sample_facts(1) closed_sys_run sample_facts(2,3) closed_actor mock_laws mock_budget sample_facts(4)
      mock_delivery mock_channel_laws r accepting_run sample_accept accepted_conn_facts(1) run p(1,2)] p(1,3)
  show ?thesis by (auto simp: closed_sys_facts accepted_conn_facts)
qed

section \<open>The end of the stream\<close>

text \<open>
  C3. A read with room in its buffer that answers \<open>Ready(Ok)\<close> without a byte means what the \<open>AsyncRead\<close>
  contract says: the connection that \<open>accept\<close> returned has ended, and the bytes that its reads returned until then are all
  the bytes the writer accepted, unless that was dropped before it was shut down, and a part of them without a gap in any case.
\<close>

theorem eof_after_everything:
  fixes R R1 :: "('l, 'v) read_sys"
  assumes "wire_laws W m wire holder rest" and "(sys_step (actor_step W) (fresh_actor m))\<^sup>*\<^sup>* (sys_start w) S"
    and "wire w = []" and "holder w = None"
    and "sy_actors S i = Some c" and "actor_addr c = a" and "actor_shook c = Some True"
    and "\<forall>j d. sy_actors S j = Some d \<longrightarrow> actor_addr d = a \<longrightarrow> j = i"
    and "reader_laws B A view src" and "budget_laws A fuel" and "listener_stays A" and "channel_laws A X sent handed" and "recv_laws X src"
    and "a \<notin> mine" and "src v = []" and "sent v = []"
    and "(listen_step B A X u view src sent handed mine)\<^sup>*\<^sup>* (read_start v) R1"
    and "MuxListener_accept B A X u l fut (rs_reader R1) cx0 (rs_world R1) = Some (Done (Ready (Inr conn)), fut', s1, w1, wk1)"
    and "MuxConnection_addr conn = a"
    and "(listen_step B A X u view src sent handed mine)\<^sup>*\<^sup>* (R1\<lparr>rs_reader := s1, rs_world := w1\<rparr>) R"
    and "prefix (src (rs_world R)) (wire (sy_world S))"
    and "lr_heap (rs_reader R) (ri_entry (mc_read conn)) = Some arc" and "0 < ae_strong arc"
    and "rb_ok (view buf)" and "v_filled (view buf) < v_cap (view buf)"
    and "MuxConnection_poll_read B A conn (rs_reader R) cx buf (rs_world R) = Some (Done (Ready (Inr ())), s', buf', w', wk)"
    and "rb_contents (view buf') = rb_contents (view buf)"
  shows "\<exists>rest. accepted (sy_events S i) (rs_taken R (ri_entry (mc_read conn)) @ rest) \<and> (\<not> actor_dropped c \<longrightarrow> rest = [])"
proof -
  obtain F bs where fr: "wire_system.framed wire holder m rest F bs S" by (rule writers_framed [OF assms(1-4)])
  show ?thesis by (rule accepted_eof [OF fr assms(5-27)])
qed

theorem eof_after_everything_witness:
  "MuxConnection_poll_read view_api (mock_api True) accepted_conn (gone_conn drained) (Task 1) empty_buf (rs_world (gone_reader drained [1, 2, 3])) =
     Some (Done (Ready (Inr ())), gone_conn drained, empty_buf, rs_world (gone_reader drained [1, 2, 3]), []) \<and>
   accepted [([1, 2, 3], Ready (Inr 3), False)] (rs_taken (gone_reader drained [1, 2, 3]) 0)"
proof -
  let ?R = "gone_reader drained [1, 2, 3]" and ?k = "ri_entry (mc_read accepted_conn)"
  have r: "addr1 \<notin> {}" "mw_seen (feed closed_wire [] [20, 20, 3, 0, 20, 0] 10 ([], 0)) = []"
    "mw_sent (feed closed_wire [] [20, 20, 3, 0, 20, 0] 10 ([], 0)) = []"
    by (simp_all add: feed_def)
  have p: "prefix (mw_seen (rs_world ?R)) (lb_wire (sy_world closed_sys))"
    "lr_heap (rs_reader ?R) ?k = Some (the (lr_heap (rs_reader ?R) 0))" "0 < ae_strong (the (lr_heap (rs_reader ?R) 0))"
    by (simp_all add: feed_def closed_sys_facts gone_reader_def gone_conn_def accepted_conn_facts)
  have run: "sample_listen\<^sup>*\<^sup>* ((open_reader 0)\<lparr>rs_reader := rs_reader (open_reader 1), rs_world := rs_world (open_reader 1)\<rparr>) ?R"
    unfolding accepted_step by (rule reading_run)
  have buf: "rb_ok (id empty_buf)" "v_filled (id empty_buf) < v_cap (id empty_buf)" by (simp_all add: rb_ok_def empty_buf_def)
  have eof: "MuxConnection_poll_read view_api (mock_api True) accepted_conn (rs_reader ?R) (Task 1) empty_buf (rs_world ?R) =
      Some (Done (Ready (Inr ())), gone_conn drained, empty_buf, rs_world ?R, [])"
    using eof_read by (simp add: gone_reader_def MuxConnection_poll_read_def accepted_conn_facts)
  from eof_after_everything [OF sample_facts(1) closed_sys_run sample_facts(2,3) closed_actor mock_laws mock_budget sample_facts(4)
      mock_delivery mock_channel_laws r accepting_run sample_accept accepted_conn_facts(1) run p buf eof refl] eof
  show ?thesis by (auto simp: closed_sys_facts accepted_conn_facts gone_reader_def)
qed

section \<open>A connection this end opened\<close>

text \<open>
  C5. The way back: a connection that \<open>add_connection\<close> opened at the reading end before the other end
  had a writer for its address, on a stream with a listener or without. Its reader gets in
  order and unchanged what that writer, which never shakes hands, accepted, at every
  moment and up to the end.
\<close>

theorem delivered_way_back:
  fixes R R1 :: "('l, 'v) read_sys"
  assumes "wire_laws W m wire holder rest" and "(sys_step (actor_step W) (fresh_actor m))\<^sup>*\<^sup>* (sys_start w) S1"
    and "(sys_step (actor_step W) (fresh_actor m))\<^sup>*\<^sup>* S1 S" and "wire w = []" and "holder w = None"
    and "\<forall>j d. sy_actors S1 j = Some d \<longrightarrow> actor_addr d \<noteq> a"
    and "sy_actors S i = Some c" and "actor_addr c = a" and "actor_shook c = Some False"
    and "\<forall>j d. sy_actors S j = Some d \<longrightarrow> actor_addr d = a \<longrightarrow> j = i"
    and "reader_laws B A view src" and "budget_laws A fuel" and "listening A L (SharedReader_new :: 'l locked_reader)"
    and "a \<notin> mine" and "src v = []"
    and "(read_step B A view mine)\<^sup>*\<^sup>* (read_start v) R1" and "prefix (src (rs_world R1)) (wire (sy_world S1))"
    and "SharedReader_add_connection A (rs_reader R1) a (rs_world R1) = (Inr ri, s', w')"
    and "(read_step B A view mine)\<^sup>*\<^sup>* (R1\<lparr>rs_reader := s', rs_world := w'\<rparr>) R"
    and "prefix (src (rs_world R)) (wire (sy_world S))" and "live (rs_reader R) (ri_entry ri)"
  shows "\<exists>rest. accepted (sy_events S i) (abs_got (rs_taken R) (rs_reader R) (ri_entry ri) @ rest) \<and>
    (lr_map (rs_reader R) a = Some (ri_entry ri) \<or>
     lr_map (rs_reader R) a = None \<and> ri_entry ri \<notin> ran (lr_map (rs_reader R)) \<and> (\<not> actor_dropped c \<longrightarrow> rest = []))"
proof -
  obtain F1 bs1 where fr1: "wire_system.framed wire holder m rest F1 bs1 S1" by (rule writers_framed [OF assms(1,2,4,5)])
  obtain F bs where fr: "wire_system.framed wire holder m rest F bs S"
    by (rule writers_framed [OF assms(1) rtranclp_trans [OF assms(2,3)] assms(4,5)])
  note v = opened_here [OF fr1 assms(6) assms(11-18)]
  let ?cv = "\<lambda>R. cv_run L a (src (rs_world R)) (InHeader [], Opened [])"
  let ?R2 = "R1\<lparr>rs_reader := s', rs_world := w'\<rparr>"
  have born: "snd (?cv R) \<noteq> Unborn" for R :: "('l, 'v) read_sys"
    using cv_extends_run [of "(InHeader [], Opened [])" L a "src (rs_world R)"] by auto
  from read_run_view [OF assms(11,12,19,14) v] obtain cs where cs: "src (rs_world R) = src (rs_world ?R2) @ cs"
    "rs_view A L a (ri_entry ri) R (cv_run L a cs (?cv ?R2))"
    using born by blast
  then have "rs_view A L a (ri_entry ri) R (?cv R)" by simp
  with followed_part [where src = src and R = R and L = L, OF fr assms(7-10) _ assms(20)] born [of R] assms(21) show ?thesis
    by (simp add: got_part_def)
qed

theorem delivered_way_back_witness:
  "\<exists>rest. accepted [([1, 2, 3], Ready (Inr 3), False)] (abs_got (rs_taken back_reader) (rs_reader back_reader) 0 @ rest) \<and>
     SharedReader_add_connection (mock_api True) SharedReader_new addr1 back_world =
       (Inr \<lparr>ri_entry = 0\<rparr>, rs_reader back_start, rs_world back_start)"
proof -
  let ?S = "wr_buffering (frame addr1 [1, 2, 3])" and ?c = "ActConn False wr2 :: (unit, unit, byte list) actor"
  let ?R = "read_start back_world :: (socket_addr \<times> reader_inner, mock_world) read_sys"
  have other: "addr1 \<notin> {}" by simp
  have s1: "\<forall>j d. sy_actors (sys_start (lb_start []) :: ((unit, unit, byte list) actor, lb_world, offer) sys) j = Some d \<longrightarrow> actor_addr d \<noteq> addr1"
    by (simp add: sys_start_def)
  have c: "sy_actors ?S 0 = Some ?c" "actor_addr ?c = addr1" "actor_shook ?c = Some False"
    "\<forall>j d. sy_actors ?S j = Some d \<longrightarrow> actor_addr d = addr1 \<longrightarrow> j = 0"
    by (simp_all add: wr_buffering_def wr2_facts)
  have r: "mw_seen back_world = []"
    "prefix (mw_seen (rs_world ?R)) (lb_wire (sy_world (sys_start (lb_start []) :: ((unit, unit, byte list) actor, lb_world, offer) sys)))"
    "prefix (mw_seen (rs_world back_reader)) (lb_wire (sy_world ?S))" "live (rs_reader back_reader) (ri_entry \<lparr>ri_entry = 0\<rparr>)"
    by (simp_all add: back_world_def feed_def read_start_def back_reader_def wr_buffering_def conn_of_def live_def)
  have add: "SharedReader_add_connection (mock_api True) (rs_reader ?R) addr1 (rs_world ?R) =
      (Inr \<lparr>ri_entry = 0\<rparr>, rs_reader back_start, rs_world back_start)"
    using added_here by (simp add: read_start_def back_start_def)
  have run: "(read_step view_api (mock_api True) id {})\<^sup>*\<^sup>* (?R\<lparr>rs_reader := rs_reader back_start, rs_world := rs_world back_start\<rparr>) back_reader"
    using back_run by (simp add: read_start_def back_start_def)
  from delivered_way_back [OF sample_facts(1) rtranclp.rtrancl_refl accepted_run sample_facts(2,3) s1 c mock_laws mock_budget sample_facts(5)
      other r(1) rtranclp.rtrancl_refl r(2) add run r(3,4)] add
  show ?thesis by (auto simp: read_start_def wr_buffering_def)
qed

end
