(* ===== verification/Test_Packet_Buffer.thy ===== *)
theory Test_Packet_Buffer
  imports Packet_Buffer
begin

text \<open>
  The tests of \<open>src/packet_buffer.rs\<close>, and that they pass on every memory in which the buffer may be
  constructed. A test returns \<open>Done ()\<close> or panics at a failed assertion.
\<close>

section \<open>Model\<close>

definition DUMMY_ADDR :: socket_addr where
  "DUMMY_ADDR = SocketAddr_from_std (SockV4 (Ipv4Addr 127 0 0 1) 8080)"

definition assert_then :: "bool \<Rightarrow> unit run \<Rightarrow> unit run" where
  "assert_then p rest = (if p then rest else Panicked)"

definition push_then :: "packet_buffer \<Rightarrow> byte list \<Rightarrow> u32 \<Rightarrow> (u16 \<Rightarrow> packet_buffer \<Rightarrow> unit run) \<Rightarrow> unit run" where
  "push_then buffer data written rest =
     (case PacketBuffer_push buffer data written of
        Done (pushed, buffer') \<Rightarrow> rest pushed buffer'
      | Panicked \<Rightarrow> Panicked
      | Undefined \<Rightarrow> Undefined)"

definition bytes_then :: "byte list run \<Rightarrow> (byte list \<Rightarrow> unit run) \<Rightarrow> unit run" where
  "bytes_then bs rest = (case bs of Done bytes \<Rightarrow> rest bytes | Panicked \<Rightarrow> Panicked | Undefined \<Rightarrow> Undefined)"

text \<open>\<open>&bytes[data_offset..data_offset + n] == expected\<close>, where the slice must be in range.\<close>

definition assert_data :: "nat \<Rightarrow> byte list \<Rightarrow> byte list \<Rightarrow> unit run" where
  "assert_data n expected bytes =
     (let socket_size = 18; len_size = 2; data_offset = socket_size + len_size
      in if data_offset + n \<le> length bytes
         then assert_then (take n (drop data_offset bytes) = expected) (Done ())
         else Panicked)"

definition test_packet_buffer_initialization :: "packet_buffer \<Rightarrow> unit run" where
  "test_packet_buffer_initialization uninit =
     (let buffer = box_new PacketBuffer_init uninit DUMMY_ADDR
      in assert_then (pb_socket_addr buffer = DUMMY_ADDR)
           (assert_then (NetworkOrderU16_get (pb_len buffer) = 0) (Done ())))"

definition test_boxed_construction :: "packet_buffer \<Rightarrow> unit run" where
  "test_boxed_construction uninit =
     (let boxed_buffer = box_new PacketBuffer_init uninit DUMMY_ADDR
      in assert_then (PacketBuffer_addr boxed_buffer = DUMMY_ADDR)
           (assert_then (NetworkOrderU16_eq_u16 (pb_len boxed_buffer) 0) (Done ())))"

definition test_push_data :: "packet_buffer \<Rightarrow> unit run" where
  "test_push_data uninit =
     push_then (box_new PacketBuffer_init uninit DUMMY_ADDR) [1, 2, 3, 4, 5] 0 (\<lambda>pushed buffer.
       assert_then (pushed = 5)
         (assert_then (NetworkOrderU16_get (pb_len buffer) = 5)
           (bytes_then (PacketBuffer_bytes buffer) (assert_data 5 [1, 2, 3, 4, 5]))))"

definition test_push_multiple_times :: "packet_buffer \<Rightarrow> unit run" where
  "test_push_multiple_times uninit =
     push_then (box_new PacketBuffer_init uninit DUMMY_ADDR) [1, 2, 3] 0 (\<lambda>pushed1 buffer1.
       assert_then (pushed1 = 3)
         (assert_then (NetworkOrderU16_get (pb_len buffer1) = 3)
           (push_then buffer1 [4, 5] 0 (\<lambda>pushed2 buffer2.
             assert_then (pushed2 = 2)
               (assert_then (NetworkOrderU16_get (pb_len buffer2) = 5)
                 (bytes_then (PacketBuffer_bytes buffer2) (assert_data 5 [1, 2, 3, 4, 5])))))))"

definition test_current_bytes :: "packet_buffer \<Rightarrow> unit run" where
  "test_current_bytes uninit =
     push_then (box_new PacketBuffer_init uninit DUMMY_ADDR) [1, 2, 3, 4, 5] 0 (\<lambda>pushed buffer.
       bytes_then (PacketBuffer_bytes_from buffer 3) (\<lambda>remaining.
         bytes_then (PacketBuffer_bytes buffer) (\<lambda>bytes.
           assert_then (length remaining = length bytes - 3) (Done ()))))"

definition test_push_limit_with_written :: "packet_buffer \<Rightarrow> unit run" where
  "test_push_limit_with_written uninit =
     push_then (box_new PacketBuffer_init uninit DUMMY_ADDR) [1, 2, 3, 4, 5] 0 (\<lambda>pushed1 buffer1.
       (let socket_size = 18; written = of_nat (socket_size + 1)
        in push_then buffer1 [6, 7, 8, 9, 10] written (\<lambda>pushed buffer2.
             assert_then (0 < pushed)
               (push_then buffer2 [6, 7, 8, 9, 10] (written + ucast pushed) (\<lambda>pushed_after buffer3.
                 assert_then (pushed_after = 0) (Done ()))))))"

section \<open>The tests pass\<close>

lemma push_all:
  assumes "pb_inv b" and "length d \<le> push_room (payload b) w"
  obtains b' where "PacketBuffer_push b d w = Done (of_nat (length d), b')" and "pb_inv b'" and "payload b' = payload b @ d"
    and "pb_socket_addr b' = pb_socket_addr b" and "NetworkOrderU16_get (pb_len b') = of_nat (length (payload b @ d))"
proof -
  obtain n b' where p: "PacketBuffer_push b d w = Done (n, b')" "unat n = min (length d) (push_room (payload b) w)"
    "pb_inv b'" "payload b' = payload b @ take (unat n) d" "pb_socket_addr b' = pb_socket_addr b"
    by (rule push_spec [OF assms(1)])
  then have n: "unat n = length d" using assms(2) by simp
  have of_unat: "of_nat (unat x) = x" for x :: u16 by simp
  from n have "n = of_nat (length d)" by (metis of_unat)
  moreover have "NetworkOrderU16_get (pb_len b') = of_nat (length (payload b @ d))"
    using length_payload [OF p(3)] p(4) n by (metis order_refl take_all of_unat)
  ultimately show ?thesis using p n by (intro that) simp_all
qed

lemma new_buffer:
  fixes u :: packet_buffer
  defines "b \<equiv> box_new PacketBuffer_init u DUMMY_ADDR"
  shows "pb_inv b" and "payload b = []" and "pb_socket_addr b = DUMMY_ADDR" and "NetworkOrderU16_get (pb_len b) = 0"
proof -
  have b: "b = PacketBuffer_init u DUMMY_ADDR" by (simp add: b_def box_new_def)
  show "pb_inv b" "payload b = []" "pb_socket_addr b = DUMMY_ADDR" unfolding b by simp_all
  show "NetworkOrderU16_get (pb_len b) = 0" by (simp add: b PacketBuffer_init_def)
qed

lemma packet_buffer_tests_pass:
  "test_packet_buffer_initialization u = Done ()" "test_boxed_construction u = Done ()" "test_push_data u = Done ()"
  "test_push_multiple_times u = Done ()" "test_current_bytes u = Done ()" "test_push_limit_with_written u = Done ()"
proof -
  let ?b = "box_new PacketBuffer_init u DUMMY_ADDR"
  note b = new_buffer [of u]
  show "test_packet_buffer_initialization u = Done ()" "test_boxed_construction u = Done ()"
    using b by (simp_all add: test_packet_buffer_initialization_def test_boxed_construction_def assert_then_def
        PacketBuffer_addr_def NetworkOrderU16_eq_u16_def NetworkOrderU16_new_def)
  have data: "bytes_then (PacketBuffer_bytes c) (assert_data 5 [1, 2, 3, 4, 5]) = Done ()" if "pb_inv c" "payload c = [1, 2, 3, 4, 5]" for c
    using that by (simp add: bytes_frame bytes_then_def assert_data_def assert_then_def frame_def)
  note steps = push_then_def assert_then_def
  obtain c where c: "PacketBuffer_push ?b [1, 2, 3, 4, 5] 0 = Done (5, c)" "pb_inv c" "payload c = [1, 2, 3, 4, 5]"
      "NetworkOrderU16_get (pb_len c) = 5"
    by (rule push_all [OF b(1), of "[1, 2, 3, 4, 5]" 0]) (simp_all add: b push_room_def)
  then show "test_push_data u = Done ()" using data by (simp add: test_push_data_def steps)
  obtain c1 where c1: "PacketBuffer_push ?b [1, 2, 3] 0 = Done (3, c1)" "pb_inv c1" "payload c1 = [1, 2, 3]"
      "NetworkOrderU16_get (pb_len c1) = 3"
    by (rule push_all [OF b(1), of "[1, 2, 3]" 0]) (simp_all add: b push_room_def)
  obtain c2 where "PacketBuffer_push c1 [4, 5] 0 = Done (2, c2)" "pb_inv c2" "payload c2 = [1, 2, 3, 4, 5]"
      "NetworkOrderU16_get (pb_len c2) = 5"
    by (rule push_all [OF c1(2), of "[4, 5]" 0]) (simp_all add: c1(3) push_room_def)
  with c1 data show "test_push_multiple_times u = Done ()" by (simp add: test_push_multiple_times_def steps)
  from c show "test_current_bytes u = Done ()"
    by (simp add: test_current_bytes_def steps bytes_then_def bytes_frame bytes_from_frame)
  obtain c3 where c3: "PacketBuffer_push c [6, 7, 8, 9, 10] 19 = Done (5, c3)" "pb_inv c3"
    by (rule push_all [OF c(2), of "[6, 7, 8, 9, 10]" 19]) (simp_all add: c(3) push_room_def)
  obtain n c4 where "PacketBuffer_push c3 [6, 7, 8, 9, 10] 24 = Done (n, c4)" "unat n = 0"
    by (rule push_spec [OF c3(2), of "[6, 7, 8, 9, 10]" 24]) (simp add: push_room_def)
  with c(1) c3(1) show "test_push_limit_with_written u = Done ()"
    by (simp add: test_push_limit_with_written_def steps unat_eq_zero)
qed

end
