(* ===== verification/Test_Read_Buffer.thy ===== *)
theory Test_Read_Buffer
  imports Mock_Stream
begin

text \<open>
  The tests of \<open>src/read/read_buffer.rs\<close>: \<open>BuffReader\<close>, a buffered reader made of the two operations of
  \<open>ReadBuffer\<close>, the reader \<open>MockReader\<close> it is tried on, and the tests. The tests try a few sizes; the
  specification proved here covers all of them, and that every test passes follows from it.
\<close>

section \<open>Model\<close>

record 'r buff_reader =
  br_buffer :: read_buffer
  br_reader :: 'r

definition BuffReader_new ::
  "(nat \<Rightarrow> 'w \<Rightarrow> bool \<times> 'w) \<Rightarrow> 'r \<Rightarrow> nat \<Rightarrow> 'w \<Rightarrow> 'r buff_reader io_result \<times> 'w" where
  "BuffReader_new alloc reader capacity w =
     (case ReadBuffer_new alloc capacity w of
        (Inl e, w') \<Rightarrow> (Inl e, w')
      | (Inr buffer, w') \<Rightarrow> (Inr \<lparr>br_buffer = buffer, br_reader = reader\<rparr>, w'))"

partial_function (option) buff_reader_loop ::
  "'b readbuf_api \<Rightarrow> (waker \<Rightarrow> 'b \<Rightarrow> 'r \<Rightarrow> unit io_result poll \<times> 'b \<times> 'r) \<Rightarrow> waker \<Rightarrow> read_buffer \<Rightarrow> 'r \<Rightarrow> 'b \<Rightarrow>
     (unit io_result poll run \<times> read_buffer \<times> 'r \<times> 'b) option" where
  "buff_reader_loop B poll_read cx buffer reader buf =
     (if rb_remaining B buf = 0 then Some (Done (Ready (Inr ())), buffer, reader, buf)
      else case ReadBuffer_fill_buffer B buffer cx poll_read reader of
             (Done Pending, buffer', reader') \<Rightarrow> Some (Done Pending, buffer', reader', buf)
           | (Done (Ready (Inl e)), buffer', reader') \<Rightarrow> Some (Done (Ready (Inl e)), buffer', reader', buf)
           | (Done (Ready (Inr read)), buffer', reader') \<Rightarrow>
               (case ReadBuffer_read B buffer' buf of
                  Done (buffer'', buf') \<Rightarrow>
                    if read = None \<or> read = Some 0
                    then Some (Done (Ready (Inr ())), buffer'', reader', buf')
                    else buff_reader_loop B poll_read cx buffer'' reader' buf'
                | Panicked \<Rightarrow> Some (Panicked, buffer', reader', buf)
                | Undefined \<Rightarrow> Some (Undefined, buffer', reader', buf))
           | (Panicked, buffer', reader') \<Rightarrow> Some (Panicked, buffer', reader', buf)
           | (Undefined, buffer', reader') \<Rightarrow> Some (Undefined, buffer', reader', buf))"

definition BuffReader_poll_read ::
  "'b readbuf_api \<Rightarrow> (waker \<Rightarrow> 'b \<Rightarrow> 'r \<Rightarrow> unit io_result poll \<times> 'b \<times> 'r) \<Rightarrow> 'r buff_reader \<Rightarrow> waker \<Rightarrow> 'b \<Rightarrow>
     (unit io_result poll run \<times> 'r buff_reader \<times> 'b) option" where
  "BuffReader_poll_read B poll_read this cx buf =
     (case buff_reader_loop B poll_read cx (br_buffer this) (br_reader this) buf of
        None \<Rightarrow> None
      | Some (r, buffer, reader, buf') \<Rightarrow> Some (r, \<lparr>br_buffer = buffer, br_reader = reader\<rparr>, buf'))"

text \<open>\<open>MockReader\<close> hands out its bytes one by one, as many as fit.\<close>

record mock_reader =
  mr_data :: "byte list"

definition MockReader_new :: "byte list \<Rightarrow> mock_reader" where
  "MockReader_new data = \<lparr>mr_data = data\<rparr>"

fun mock_reader_loop :: "'b readbuf_api \<Rightarrow> nat \<Rightarrow> 'b \<Rightarrow> mock_reader \<Rightarrow> ('b \<times> mock_reader) run" where
  "mock_reader_loop B 0 buf self = Done (buf, self)"
| "mock_reader_loop B (Suc n) buf self =
     (case mr_data self of
        [] \<Rightarrow> mock_reader_loop B n buf self
      | byte # rest \<Rightarrow>
          (case rb_put_slice B [byte] buf of
             Done buf' \<Rightarrow> mock_reader_loop B n buf' (self\<lparr>mr_data := rest\<rparr>)
           | Panicked \<Rightarrow> Panicked
           | Undefined \<Rightarrow> Undefined))"

definition MockReader_poll_read ::
  "'b readbuf_api \<Rightarrow> waker \<Rightarrow> 'b \<Rightarrow> mock_reader \<Rightarrow> (unit io_result poll \<times> 'b \<times> mock_reader) run" where
  "MockReader_poll_read B cx buf self =
     (let available = length (mr_data self)
      in if available = 0 then Done (Ready (Inr ()), buf, self)
         else
           let can_read = min available (rb_remaining B buf)
           in if can_read = 0 then Done (Ready (Inr ()), buf, self)
              else (case mock_reader_loop B can_read buf self of
                      Done (buf', self') \<Rightarrow> Done (Ready (Inr ()), buf', self')
                    | Panicked \<Rightarrow> Panicked
                    | Undefined \<Rightarrow> Undefined))"

section \<open>Specification\<close>

lemma mock_reader_loop_spec:
  assumes laws: "readbuf_laws B view"
  shows "rb_ok (view b) \<Longrightarrow> n \<le> length (mr_data self) \<Longrightarrow> n \<le> v_cap (view b) - v_filled (view b) \<Longrightarrow>
    \<exists>b'. mock_reader_loop B n b self = Done (b', \<lparr>mr_data = drop n (mr_data self)\<rparr>) \<and>
      rb_grown (view b) (take n (mr_data self)) (view b')"
proof (induction n arbitrary: b self)
  case (Suc n)
  then obtain x xs where d: "mr_data self = x # xs" by (cases "mr_data self") auto
  have "length [x] \<le> v_cap (view b) - v_filled (view b)" using Suc.prems by simp
  then obtain b1 where b1: "rb_put_slice B [x] b = Done b1" and v: "view b1 = rb_put (view b) [x]"
    using readbuf_lawsD(11) [OF laws, of "[x]" b] by (auto simp: rb_put_def)
  have g: "rb_grown (view b) [x] (view b1)" unfolding v using Suc.prems by (intro rb_put_grown) auto
  with Suc.prems d have "rb_ok (view b1)" "n \<le> length xs" "n \<le> v_cap (view b1) - v_filled (view b1)"
    by (simp_all add: rb_grown_def)
  then obtain b2 where "mock_reader_loop B n b1 \<lparr>mr_data = xs\<rparr> = Done (b2, \<lparr>mr_data = drop n xs\<rparr>)"
    "rb_grown (view b1) (take n xs) (view b2)"
    using Suc.IH [of b1 "\<lparr>mr_data = xs\<rparr>"] by auto
  with g b1 d show ?case by (cases self) (auto simp: rb_grown_def)
qed (auto simp: rb_grown_refl)

lemma MockReader_poll_read_spec:
  assumes laws: "readbuf_laws B view" and ok: "rb_ok (view b)"
  defines "n \<equiv> v_cap (view b) - v_filled (view b)"
  shows "\<exists>b'. MockReader_poll_read B cx b self = Done (Ready (Inr ()), b', \<lparr>mr_data = drop n (mr_data self)\<rparr>) \<and>
    rb_grown (view b) (take n (mr_data self)) (view b')"
proof -
  let ?d = "mr_data self"
  let ?k = "min (length ?d) n"
  have rem: "rb_remaining B b = n" by (simp add: readbuf_lawsD(4) [OF laws] n_def)
  have k: "drop ?k ?d = drop n ?d" "take ?k ?d = take n ?d" by (simp_all add: min_def)
  have "?k \<le> v_cap (view b) - v_filled (view b)" by (simp add: n_def)
  from mock_reader_loop_spec [OF laws ok _ this, of self] k obtain b' where
    "mock_reader_loop B ?k b self = Done (b', \<lparr>mr_data = drop n ?d\<rparr>)" "rb_grown (view b) (take n ?d) (view b')"
    by auto
  then show ?thesis using rb_grown_refl [OF ok]
    by (cases self) (auto simp: MockReader_poll_read_def rem Let_def)
qed

text \<open>The mock reader as the reader of \<open>fill_buffer\<close>: it never panics, as \<open>MockReader_poll_read_spec\<close> shows.\<close>

fun done_value :: "'a run \<Rightarrow> 'a" where
  "done_value (Done x) = x"

definition mock_poll :: "'b readbuf_api \<Rightarrow> waker \<Rightarrow> 'b \<Rightarrow> mock_reader \<Rightarrow> unit io_result poll \<times> 'b \<times> mock_reader" where
  "mock_poll B cx buf self = done_value (MockReader_poll_read B cx buf self)"

lemma mock_fill_spec:
  assumes laws: "readbuf_laws B view" and inv: "rd_inv q" and room: "rd_filled q < rd_capacity q"
  defines "n \<equiv> rd_capacity q - rd_filled q"
  obtains q' where "ReadBuffer_fill_buffer B q cx (mock_poll B) \<lparr>mr_data = d\<rparr> =
      (Done (Ready (Inr (Some (length (take n d))))), q', \<lparr>mr_data = drop n d\<rparr>)"
    and "rd_inv q'" and "rd_contents q' = rd_contents q @ take n d" and "rd_capacity q' = rd_capacity q"
proof -
  obtain b where b: "ReadBuffer_readbuf B q = Done b" "view b = rd_view q"
    by (rule ReadBuffer_readbuf_view [OF laws inv])
  have "rb_ok (view b)" using inv by (simp add: b rd_inv_view)
  from MockReader_poll_read_spec [OF laws this, of cx "\<lparr>mr_data = d\<rparr>"] obtain b' where
    p: "mock_poll B cx b \<lparr>mr_data = d\<rparr> = (Ready (Inr ()), b', \<lparr>mr_data = drop n d\<rparr>)" and g: "rb_grown (rd_view q) (take n d) (view b')"
    by (auto simp: b n_def mock_poll_def)
  have "rd_filled q \<noteq> rd_capacity q" using room by simp
  then show ?thesis
    by (rule fill_buffer_ready [where reader = "mock_poll B" and cx = cx and w = "\<lparr>mr_data = d\<rparr>", OF laws inv _ b p g]) (rule that)
qed

lemma two_takes:
  "r \<le> length c \<or> e = e' \<Longrightarrow>
    take (min r (length c)) c @ take (r - min r (length c)) (drop (min r (length c)) c @ e) = take r (c @ e')"
  by (auto simp: min_def)

text \<open>
  One read of a \<open>BuffReader\<close> into room for \<open>n\<close> bytes, with \<open>d\<close> left in its reader: as much as there is room for of what
  is buffered and, unless the buffer is full up to its end, of the reader's bytes behind it. A buffer that is
  not full is filled first.
\<close>

definition reads_off :: "nat \<Rightarrow> read_buffer \<Rightarrow> byte list \<Rightarrow> byte list \<Rightarrow> read_buffer \<Rightarrow> byte list \<Rightarrow> bool" where
  "reads_off n q d bs q' d' \<longleftrightarrow> rd_inv q' \<and> rd_capacity q' = rd_capacity q \<and>
     bs = take n (rd_contents q @ (if rd_filled q < rd_capacity q then d else [])) \<and>
     rd_contents q @ d = bs @ rd_contents q' @ d' \<and>
     length d' \<le> length d - (if n = 0 then 0 else rd_capacity q - rd_filled q)"

lemma reads_offD:
  assumes "reads_off n q d bs q' d'"
  shows "rd_inv q'" and "rd_contents q @ d = bs @ rd_contents q' @ d'"
    and "length d' \<le> length d - (if n = 0 then 0 else rd_capacity q - rd_filled q)"
    and "bs = take n (rd_contents q @ (if rd_filled q < rd_capacity q then d else []))"
  using assms unfolding reads_off_def by blast+

lemma reads_off_buffered:
  assumes "rd_inv q'" and "rd_capacity q' = rd_capacity q" and "m = min n (length (rd_contents q))"
    and "rd_contents q' = drop m (rd_contents q)" and "n = 0 \<or> rd_filled q = rd_capacity q \<or> d = []"
  shows "reads_off n q d (take m (rd_contents q)) q' d"
  using assms by (auto simp: reads_off_def min_def)

text \<open>A round that fills the buffer with the first \<open>k\<close> bytes of the reader and reads it, and the rounds after it.\<close>

lemma reads_off_round:
  assumes "c = rd_contents q @ take k d" and "m = min n (length c)" and "n \<noteq> 0" and "k = rd_capacity q - rd_filled q" and "k \<noteq> 0"
    and "rd_contents q1 = drop m c" and "rd_capacity q1 = rd_capacity q" and "rd_contents q1 = [] \<longrightarrow> rd_filled q1 = 0"
    and "reads_off (n - m) q1 (drop k d) bs q' d'"
  shows "reads_off n q d (take m c @ bs) q' d'"
proof -
  let ?e = "if rd_filled q1 < rd_capacity q then drop k d else []"
  have q: "rd_filled q < rd_capacity q" using assms(4,5) by simp
  have next_round: "rd_inv q'" "rd_capacity q' = rd_capacity q" "bs = take (n - m) (drop m c @ ?e)"
    "drop m c @ drop k d = bs @ rd_contents q' @ d'" "length d' \<le> length (drop k d) - (if n - m = 0 then 0 else rd_capacity q1 - rd_filled q1)"
    using assms(9) unfolding reads_off_def assms(6,7) by simp_all
  have "n \<le> length c \<or> ?e = drop k d" using assms(2,6,8) q by auto
  then have "take m c @ bs = take n (c @ drop k d)" unfolding next_round(3) assms(2) by (rule two_takes)
  then have got: "take m c @ bs = take n (rd_contents q @ d)" by (simp add: assms(1))
  have "rd_contents q @ d = (take m c @ bs) @ rd_contents q' @ d'"
    using next_round(4) unfolding assms(1) by (metis append_assoc append_take_drop_id)
  moreover have "length d' \<le> length d - k" using next_round(5) by simp
  ultimately show ?thesis
    unfolding reads_off_def if_P [OF q] if_not_P [OF assms(3)] assms(4) [symmetric]
    using next_round(1,2) got by (intro conjI)
qed

lemma buff_reader_loop_spec:
  assumes laws: "readbuf_laws B view"
  shows "rd_inv q \<Longrightarrow> rb_ok (view b) \<Longrightarrow>
    \<exists>q' b' d' bs. buff_reader_loop B (mock_poll B) cx q \<lparr>mr_data = d\<rparr> b = Some (Done (Ready (Inr ())), q', \<lparr>mr_data = d'\<rparr>, b') \<and>
      rb_grown (view b) bs (view b') \<and> reads_off (v_cap (view b) - v_filled (view b)) q d bs q' d'"
proof (induction "v_cap (view b) - v_filled (view b)" arbitrary: q b d rule: less_induct)
  case less
  note inv = less.prems(1) and ok = less.prems(2)
  let ?loop = "buff_reader_loop B (mock_poll B) cx" and ?n = "v_cap (view b) - v_filled (view b)" and ?k = "rd_capacity q - rd_filled q"
  have rem: "rb_remaining B b = ?n" by (rule readbuf_lawsD(4) [OF laws])
  consider (empty) "?n = 0" | (full) "?n \<noteq> 0" "rd_filled q = rd_capacity q" | (room) "?n \<noteq> 0" "rd_filled q < rd_capacity q"
    using inv unfolding rd_inv_def by linarith
  then show ?case
  proof cases
    case empty
    have "reads_off ?n q d [] q d" by (subst empty) (simp add: reads_off_def inv)
    moreover have "?loop q \<lparr>mr_data = d\<rparr> b = Some (Done (Ready (Inr ())), q, \<lparr>mr_data = d\<rparr>, b)"
      using empty by (simp add: buff_reader_loop.simps rem)
    ultimately show ?thesis using rb_grown_refl [OF ok] by blast
  next
    case full
    define m where "m = min ?n (length (rd_contents q))"
    obtain q1 b1 where r: "ReadBuffer_read B q b = Done (q1, b1)" "rd_inv q1" "rd_contents q1 = drop m (rd_contents q)"
      "rd_capacity q1 = rd_capacity q" "rb_grown (view b) (take m (rd_contents q)) (view b1)"
      unfolding m_def by (rule read_spec [OF laws inv ok])
    have "?loop q \<lparr>mr_data = d\<rparr> b = Some (Done (Ready (Inr ())), q1, \<lparr>mr_data = d\<rparr>, b1)"
      using full r(1) by (simp add: buff_reader_loop.simps rem fill_buffer_full [OF laws inv])
    with reads_off_buffered [OF r(2,4) m_def r(3), of d] full(2) r(5) show ?thesis by blast
  next
    case room
    define c where "c = rd_contents q @ take ?k d"
    define m where "m = min ?n (length c)"
    obtain q1 where f: "ReadBuffer_fill_buffer B q cx (mock_poll B) \<lparr>mr_data = d\<rparr> =
        (Done (Ready (Inr (Some (length (take ?k d))))), q1, \<lparr>mr_data = drop ?k d\<rparr>)"
      "rd_inv q1" "rd_contents q1 = c" "rd_capacity q1 = rd_capacity q"
      unfolding c_def by (rule mock_fill_spec [OF laws inv room(2)])
    obtain q2 b2 where r: "ReadBuffer_read B q1 b = Done (q2, b2)" "rd_inv q2" "rd_contents q2 = drop m c"
      "rd_capacity q2 = rd_capacity q" "rb_grown (view b) (take m c) (view b2)" "m \<noteq> 0 \<longrightarrow> rd_contents q2 = [] \<longrightarrow> rd_filled q2 = 0"
      by (rule read_spec [OF laws f(2) ok]) (simp add: f(3,4) m_def)
    show ?thesis
    proof (cases "d = []")
      case True
      then have "?loop q \<lparr>mr_data = d\<rparr> b = Some (Done (Ready (Inr ())), q2, \<lparr>mr_data = d\<rparr>, b2)" "c = rd_contents q"
        using room f(1) r(1) by (simp_all add: buff_reader_loop.simps rem c_def)
      with reads_off_buffered [OF r(2,4), of m ?n d] True r(3,5) m_def show ?thesis by auto
    next
      case False
      with room obtain k where k: "length (take ?k d) = Suc k" by (cases "take ?k d") auto
      then have m: "m \<noteq> 0" using room(1) by (simp add: m_def c_def)
      have loop: "?loop q \<lparr>mr_data = d\<rparr> b = ?loop q2 \<lparr>mr_data = drop ?k d\<rparr> b2"
        using room f(1) [unfolded k] r(1) by (subst buff_reader_loop.simps) (simp add: rem)
      have "length (take m c) = m" unfolding length_take m_def by linarith
      with r(5) have rest: "v_cap (view b2) - v_filled (view b2) = ?n - m" "rb_ok (view b2)"
        unfolding rb_grown_def by linarith+
      with m room(1) have "v_cap (view b2) - v_filled (view b2) < ?n" by linarith
      from less.hyps [OF this r(2) rest(2), of "drop ?k d"] obtain q' b' d' bs where
        ih: "?loop q2 \<lparr>mr_data = drop ?k d\<rparr> b2 = Some (Done (Ready (Inr ())), q', \<lparr>mr_data = d'\<rparr>, b')"
          "rb_grown (view b2) bs (view b')" "reads_off (?n - m) q2 (drop ?k d) bs q' d'"
        unfolding rest(1) by (elim exE conjE)
      have "reads_off ?n q d (take m c @ bs) q' d'"
        by (rule reads_off_round [OF c_def m_def room(1) refl _ r(3,4) _ ih(3)]) (use room(2) m r(6) in simp_all)
      moreover have "rb_grown (view b) (take m c @ bs) (view b')" using r(5) ih(2) by (simp add: rb_grown_def)
      ultimately show ?thesis unfolding loop using ih(1) by blast
    qed
  qed
qed

section \<open>The tests\<close>

text \<open>
  A test returns \<open>Done ()\<close> or panics at a failed assertion or \<open>unwrap\<close>. The tests share three steps: a buffered reader over given
  bytes; a read into a new output buffer of \<open>n\<close> zeros (\<open>ReadBuf::new\<close> takes it as initialised), which must be ready
  with exactly the expected bytes; and the end.
\<close>

definition with_reader ::
  "(nat \<Rightarrow> 'w \<Rightarrow> bool \<times> 'w) \<Rightarrow> 'w \<Rightarrow> byte list \<Rightarrow> nat \<Rightarrow> (mock_reader buff_reader \<Rightarrow> unit run option) \<Rightarrow> unit run option" where
  "with_reader alloc w data capacity rest =
     (case BuffReader_new alloc (MockReader_new data) capacity w of
        (Inl e, w') \<Rightarrow> Some Panicked
      | (Inr reader, w') \<Rightarrow> rest reader)"

definition output_buf :: "'b readbuf_api \<Rightarrow> nat \<Rightarrow> 'b" where
  "output_buf B n = rb_assume_init B n (rb_uninit B (\<lambda>i. Some 0) n)"

definition expect_read ::
  "'b readbuf_api \<Rightarrow> nat \<Rightarrow> byte list \<Rightarrow> (mock_reader buff_reader \<Rightarrow> unit run option) \<Rightarrow> mock_reader buff_reader \<Rightarrow> unit run option" where
  "expect_read B n expected rest reader =
     (case BuffReader_poll_read B (mock_poll B) reader Noop (output_buf B n) of
        None \<Rightarrow> None
      | Some (Done (Ready (Inr u)), reader', read_buf) \<Rightarrow>
          if rb_filled B read_buf = expected then rest reader' else Some Panicked
      | Some (Done _, reader', read_buf) \<Rightarrow> Some Panicked
      | Some (Panicked, reader', read_buf) \<Rightarrow> Some Panicked
      | Some (Undefined, reader', read_buf) \<Rightarrow> Some Undefined)"

definition test_end :: "mock_reader buff_reader \<Rightarrow> unit run option" where
  "test_end reader = Some (Done ())"

definition bytes_of_string :: "string \<Rightarrow> byte list" where
  "bytes_of_string s = map of_char s"

definition test_new_buffer :: "(nat \<Rightarrow> 'w \<Rightarrow> bool \<times> 'w) \<Rightarrow> 'w \<Rightarrow> unit run" where
  "test_new_buffer alloc w =
     (case ReadBuffer_new alloc 1024 w of
        (Inl e, w') \<Rightarrow> Panicked
      | (Inr buffer, w') \<Rightarrow>
          if rd_capacity buffer = 1024 \<and> rd_pos buffer = 0 \<and> rd_filled buffer = 0 then Done () else Panicked)"

definition test_capacity :: "(nat \<Rightarrow> 'w \<Rightarrow> bool \<times> 'w) \<Rightarrow> 'w \<Rightarrow> unit run" where
  "test_capacity alloc w =
     (case ReadBuffer_new alloc 2048 w of
        (Inl e, w') \<Rightarrow> Panicked
      | (Inr buffer, w') \<Rightarrow> if rd_capacity buffer = 2048 then Done () else Panicked)"

definition test_buff_reader_simple_read :: "'b readbuf_api \<Rightarrow> (nat \<Rightarrow> 'w \<Rightarrow> bool \<times> 'w) \<Rightarrow> 'w \<Rightarrow> unit run option" where
  "test_buff_reader_simple_read B alloc w =
     (let test_data = bytes_of_string ''Hello, world!''
      in with_reader alloc w test_data (length test_data) (expect_read B (length test_data) test_data test_end))"

definition test_buff_reader_partial_reads :: "'b readbuf_api \<Rightarrow> (nat \<Rightarrow> 'w \<Rightarrow> bool \<times> 'w) \<Rightarrow> 'w \<Rightarrow> unit run option" where
  "test_buff_reader_partial_reads B alloc w =
     (let test_data = bytes_of_string ''Hello, world!''
      in with_reader alloc w test_data (length test_data)
           (expect_read B 5 (bytes_of_string ''Hello'')
             (expect_read B 8 (bytes_of_string '', world!'')
               (expect_read B 10 [] test_end))))"

definition test_buff_reader_multiple_fills :: "'b readbuf_api \<Rightarrow> (nat \<Rightarrow> 'w \<Rightarrow> bool \<times> 'w) \<Rightarrow> 'w \<Rightarrow> unit run option" where
  "test_buff_reader_multiple_fills B alloc w =
     (let test_data = bytes_of_string ''This is a longer string that will require multiple buffer fills''
      in with_reader alloc w test_data 16 (expect_read B (length test_data) test_data test_end))"

definition test_buff_reader_empty_read :: "'b readbuf_api \<Rightarrow> (nat \<Rightarrow> 'w \<Rightarrow> bool \<times> 'w) \<Rightarrow> 'w \<Rightarrow> unit run option" where
  "test_buff_reader_empty_read B alloc w = with_reader alloc w [] 16 (expect_read B 10 [] test_end)"

definition test_buff_reader_exact_size :: "'b readbuf_api \<Rightarrow> (nat \<Rightarrow> 'w \<Rightarrow> bool \<times> 'w) \<Rightarrow> 'w \<Rightarrow> unit run option" where
  "test_buff_reader_exact_size B alloc w =
     with_reader alloc w (bytes_of_string ''12345678'') 8
       (expect_read B 4 (bytes_of_string ''1234'') (expect_read B 4 (bytes_of_string ''5678'') test_end))"

definition test_buff_reader_zero_size_read :: "'b readbuf_api \<Rightarrow> (nat \<Rightarrow> 'w \<Rightarrow> bool \<times> 'w) \<Rightarrow> 'w \<Rightarrow> unit run option" where
  "test_buff_reader_zero_size_read B alloc w =
     with_reader alloc w (bytes_of_string ''Hello'') 16 (expect_read B 0 [] test_end)"

text \<open>A read step passes if it expects what the specification says, and leaves a reader for the next one.\<close>

lemma output_buf_view:
  assumes "readbuf_laws B view"
  shows "rb_ok (view (output_buf B n))" and "v_filled (view (output_buf B n)) = 0" and "v_cap (view (output_buf B n)) = n"
    and "rb_contents (view (output_buf B n)) = []"
proof -
  have v: "view (output_buf B n) = \<lparr>v_mem = (\<lambda>i. Some 0), v_cap = n, v_filled = 0, v_init = n\<rparr>"
    by (simp add: output_buf_def readbuf_lawsD(1,2) [OF assms])
  have "mem_read (\<lambda>i. Some 0) 0 n = Some (replicate n 0)" by (simp add: mem_read_Some_iff)
  then show "rb_ok (view (output_buf B n))" by (simp add: v rb_ok_def)
  show "v_filled (view (output_buf B n)) = 0" "v_cap (view (output_buf B n)) = n" "rb_contents (view (output_buf B n)) = []"
    by (simp_all add: v rb_contents_def)
qed

lemma expect_read_passes:
  assumes laws: "readbuf_laws B view" and inv: "rd_inv q"
    and bs: "bs = take n (rd_contents q @ (if rd_filled q < rd_capacity q then d else []))"
  obtains q' d' where "expect_read B n bs rest \<lparr>br_buffer = q, br_reader = \<lparr>mr_data = d\<rparr>\<rparr> = rest \<lparr>br_buffer = q', br_reader = \<lparr>mr_data = d'\<rparr>\<rparr>"
    and "reads_off n q d bs q' d'"
proof -
  note out = output_buf_view [OF laws, of n]
  obtain q' b' d' cs where l: "buff_reader_loop B (mock_poll B) Noop q \<lparr>mr_data = d\<rparr> (output_buf B n) =
      Some (Done (Ready (Inr ())), q', \<lparr>mr_data = d'\<rparr>, b')"
    "rb_grown (view (output_buf B n)) cs (view b')" "reads_off n q d cs q' d'"
    using buff_reader_loop_spec [OF laws inv out(1), of Noop d] unfolding out(2,3) by auto
  then have cs: "cs = bs" using bs by (simp add: reads_off_def)
  with l(2) out have "rb_ok (view b')" "rb_contents (view b') = bs" by (simp_all add: rb_grown_def)
  then have "rb_filled B b' = bs" using readbuf_lawsD(6) [OF laws, of b'] rb_ok_read by blast
  with l cs show ?thesis by (intro that) (simp_all add: expect_read_def BuffReader_poll_read_def)
qed

lemma with_reader_passes:
  assumes "\<forall>n w. fst (alloc n w)" and "capacity \<le> ISIZE_MAX"
  obtains q where "\<And>rest. with_reader alloc w data capacity rest = rest \<lparr>br_buffer = q, br_reader = \<lparr>mr_data = data\<rparr>\<rparr>"
    and "rd_inv q" and "rd_contents q = []" and "rd_filled q = 0" and "rd_capacity q = capacity"
proof -
  let ?q = "\<lparr>rd_ptr = Map.empty, rd_capacity = capacity, rd_pos = 0, rd_filled = 0, rd_initialized = 0\<rparr>"
  obtain w' where "alloc capacity w = (True, w')" using assms(1) by (metis prod.collapse)
  with assms(2) have new: "ReadBuffer_new alloc capacity w = (Inr ?q, w')" by (simp add: ReadBuffer_new_def)
  with ReadBuffer_new_ok [OF new] show ?thesis
    by (intro that [of ?q]) (simp_all add: with_reader_def BuffReader_new_def MockReader_new_def)
qed

text \<open>One read that empties a new reader, and two reads whose first fills the buffer with all there is.\<close>

lemma one_read_passes:
  assumes "readbuf_laws B view" and "\<forall>n w. fst (alloc n w)" and "0 < capacity" and "capacity \<le> ISIZE_MAX" and "bs = take n data"
  shows "with_reader alloc w data capacity (expect_read B n bs test_end) = Some (Done ())"
proof -
  obtain q where q: "\<And>rest. with_reader alloc w data capacity rest = rest \<lparr>br_buffer = q, br_reader = \<lparr>mr_data = data\<rparr>\<rparr>"
    "rd_inv q" "rd_contents q = []" "rd_filled q = 0" "rd_capacity q = capacity"
    using with_reader_passes [OF assms(2,4), of w data] by metis
  have "bs = take n (rd_contents q @ (if rd_filled q < rd_capacity q then data else []))"
    using assms(3,5) q(3-5) by simp
  then show ?thesis unfolding q(1)
    by (rule expect_read_passes [OF assms(1) q(2), where rest = test_end]) (simp add: test_end_def)
qed

lemma two_reads_pass:
  assumes laws: "readbuf_laws B view" and "\<forall>n w. fst (alloc n w)" and "0 < n" and "length data \<le> capacity" and "capacity \<le> ISIZE_MAX"
    and "bs = take n data" and "cs = take m (drop n data)" and "n \<le> length data"
  obtains q where "with_reader alloc w data capacity (expect_read B n bs (expect_read B m cs rest)) = rest \<lparr>br_buffer = q, br_reader = \<lparr>mr_data = []\<rparr>\<rparr>"
    and "rd_inv q" and "rd_contents q = drop m (drop n data)"
proof -
  obtain q where q: "\<And>rest. with_reader alloc w data capacity rest = rest \<lparr>br_buffer = q, br_reader = \<lparr>mr_data = data\<rparr>\<rparr>"
    "rd_inv q" "rd_contents q = []" "rd_filled q = 0" "rd_capacity q = capacity"
    using with_reader_passes [OF assms(2,5), of w data] by metis
  have "bs = take n (rd_contents q @ (if rd_filled q < rd_capacity q then data else []))"
    using assms(3,4,6,8) q(3-5) by simp
  then obtain q1 d1 where r: "with_reader alloc w data capacity (expect_read B n bs (expect_read B m cs rest)) =
      expect_read B m cs rest \<lparr>br_buffer = q1, br_reader = \<lparr>mr_data = d1\<rparr>\<rparr>" "reads_off n q data bs q1 d1"
    unfolding q(1) by (rule expect_read_passes [OF laws q(2), where rest = "expect_read B m cs rest"])
  have "d1 = []" using reads_offD(3) [OF r(2)] assms(3,4) q(4,5) by simp
  with reads_offD(1,2) [OF r(2)] q(3) have d1: "d1 = []" "rd_inv q1" "data = bs @ rd_contents q1" by simp_all
  then have c: "rd_contents q1 = drop n data" using assms(6,8) by (metis append_eq_conv_conj length_take min.absorb2)
  then have "cs = take m (rd_contents q1 @ (if rd_filled q1 < rd_capacity q1 then d1 else []))" using d1 assms(7) by simp
  then obtain q2 d2 where q2: "expect_read B m cs rest \<lparr>br_buffer = q1, br_reader = \<lparr>mr_data = d1\<rparr>\<rparr> =
      rest \<lparr>br_buffer = q2, br_reader = \<lparr>mr_data = d2\<rparr>\<rparr>" "reads_off m q1 d1 cs q2 d2"
    by (rule expect_read_passes [OF laws d1(2), where rest = rest])
  have d2: "d2 = []" using reads_offD(3) [OF q2(2)] d1(1) by simp
  have "take m (drop n data) @ rd_contents q2 = take m (drop n data) @ drop m (drop n data)"
    using reads_offD(2) [OF q2(2)] unfolding c assms(7) d1(1) d2 by (simp del: drop_drop)
  then have "rd_contents q2 = drop m (drop n data)" by (rule same_append_eq [THEN iffD1])
  with reads_offD(1) [OF q2(2)] d2 r(1) q2(1) show ?thesis by (intro that [of q2]) simp_all
qed

lemma read_buffer_tests_pass:
  assumes laws: "readbuf_laws B view" and alloc: "\<forall>n w. fst (alloc n w)"
  shows "test_new_buffer alloc w = Done ()" and "test_capacity alloc w = Done ()"
    and "test_buff_reader_simple_read B alloc w = Some (Done ())" and "test_buff_reader_partial_reads B alloc w = Some (Done ())"
    and "test_buff_reader_multiple_fills B alloc w = Some (Done ())" and "test_buff_reader_empty_read B alloc w = Some (Done ())"
    and "test_buff_reader_exact_size B alloc w = Some (Done ())" and "test_buff_reader_zero_size_read B alloc w = Some (Done ())"
proof -
  have new: "\<exists>w'. alloc n w = (True, w')" for n by (metis alloc prod.collapse)
  show "test_new_buffer alloc w = Done ()" "test_capacity alloc w = Done ()"
    using new [of 1024] new [of 2048] by (auto simp: test_new_buffer_def test_capacity_def ReadBuffer_new_def ISIZE_MAX_def)
  note one = one_read_passes [OF laws alloc]
  show "test_buff_reader_simple_read B alloc w = Some (Done ())" "test_buff_reader_multiple_fills B alloc w = Some (Done ())"
    "test_buff_reader_empty_read B alloc w = Some (Done ())" "test_buff_reader_zero_size_read B alloc w = Some (Done ())"
    unfolding test_buff_reader_simple_read_def test_buff_reader_multiple_fills_def test_buff_reader_empty_read_def
      test_buff_reader_zero_size_read_def Let_def
    by (rule one; simp add: bytes_of_string_def ISIZE_MAX_def)+
  have isize: "n \<le> 16 \<Longrightarrow> n \<le> ISIZE_MAX" for n by (simp add: ISIZE_MAX_def)
  let ?last = "expect_read B 10 [] test_end" and ?data = "bytes_of_string ''Hello, world!''"
  have len: "length ?data = 13" by (simp add: bytes_of_string_def)
  obtain q where q: "test_buff_reader_partial_reads B alloc w = ?last \<lparr>br_buffer = q, br_reader = \<lparr>mr_data = []\<rparr>\<rparr>" "rd_inv q"
      "rd_contents q = drop 8 (drop 5 ?data)"
    unfolding test_buff_reader_partial_reads_def Let_def
    by (rule two_reads_pass [OF laws alloc _ order_refl isize, where data = ?data and n = 5 and m = 8 and rest = ?last and w = w])
      (simp_all add: len bytes_of_string_def [of "''Hello''"] bytes_of_string_def [of "'', world!''"] bytes_of_string_def [of "''Hello, world!''"])
  have "[] = take 10 (rd_contents q @ (if rd_filled q < rd_capacity q then [] else []))" by (simp add: q(3) bytes_of_string_def)
  then show "test_buff_reader_partial_reads B alloc w = Some (Done ())" unfolding q(1)
    by (rule expect_read_passes [OF laws q(2), where rest = test_end]) (simp add: test_end_def)
  let ?data = "bytes_of_string ''12345678''"
  show "test_buff_reader_exact_size B alloc w = Some (Done ())"
    unfolding test_buff_reader_exact_size_def Let_def
    by (rule two_reads_pass [OF laws alloc _ _ isize, where data = ?data and n = 4 and m = 4 and rest = test_end and w = w])
      (simp_all add: bytes_of_string_def test_end_def)
qed

text \<open>
  C26. One read through a \<open>ReadBuffer\<close>, as the test reader \<open>BuffReader\<close> puts its two operations together, always returns and is ready; it
  appends to the caller's buffer the bytes that are next, buffered ones first, and none is lost or read twice.
  When the buffer is empty it is the same as a read of the underlying reader without a buffer, whatever the sizes of the
  two buffers.
\<close>

theorem buff_reader_contract:
  assumes "readbuf_laws B view" and "rd_inv (br_buffer r)" and "rb_ok (view b)" and "rd_filled (br_buffer r) < rd_capacity (br_buffer r)"
  shows "\<exists>r' b' bs. BuffReader_poll_read B (mock_poll B) r cx b = Some (Done (Ready (Inr ())), r', b') \<and> rd_inv (br_buffer r') \<and>
    rb_grown (view b) bs (view b') \<and>
    bs = take (v_cap (view b) - v_filled (view b)) (rd_contents (br_buffer r) @ mr_data (br_reader r)) \<and>
    rd_contents (br_buffer r) @ mr_data (br_reader r) = bs @ rd_contents (br_buffer r') @ mr_data (br_reader r') \<and>
    (rd_contents (br_buffer r) = [] \<longrightarrow>
      (\<exists>b2 s. MockReader_poll_read B cx b (br_reader r) = Done (Ready (Inr ()), b2, s) \<and>
         rb_contents (view b2) = rb_contents (view b') \<and> mr_data s = rd_contents (br_buffer r') @ mr_data (br_reader r')))"
proof -
  let ?q = "br_buffer r" and ?n = "v_cap (view b) - v_filled (view b)"
  obtain d where d: "br_reader r = \<lparr>mr_data = d\<rparr>" by (metis mock_reader.cases)
  obtain q' b' d' bs where l: "buff_reader_loop B (mock_poll B) cx ?q \<lparr>mr_data = d\<rparr> b = Some (Done (Ready (Inr ())), q', \<lparr>mr_data = d'\<rparr>, b')"
      "rb_grown (view b) bs (view b')" "reads_off ?n ?q d bs q' d'"
    using buff_reader_loop_spec [OF assms(1-3), of cx d] by (elim exE conjE)
  have bs: "bs = take ?n (rd_contents ?q @ d)" using reads_offD(4) [OF l(3)] unfolding if_P [OF assms(4)] .
  obtain b2 where m: "MockReader_poll_read B cx b (br_reader r) = Done (Ready (Inr ()), b2, \<lparr>mr_data = drop ?n d\<rparr>)"
    "rb_grown (view b) (take ?n d) (view b2)"
    using MockReader_poll_read_spec [OF assms(1,3), of cx "br_reader r"] by (auto simp: d)
  have direct: "rb_contents (view b2) = rb_contents (view b')" "drop ?n d = rd_contents q' @ d'" if "rd_contents ?q = []"
  proof -
    have "bs = take ?n d" using bs that by simp
    with l(2) m(2) show "rb_contents (view b2) = rb_contents (view b')" by (simp add: rb_grown_def)
    have "take ?n d @ drop ?n d = take ?n d @ rd_contents q' @ d'"
      using reads_offD(2) [OF l(3)] that \<open>bs = take ?n d\<close> by simp
    then show "drop ?n d = rd_contents q' @ d'" by (rule same_append_eq [THEN iffD1])
  qed
  let ?r = "\<lparr>br_buffer = q', br_reader = \<lparr>mr_data = d'\<rparr>\<rparr>"
  show ?thesis
  proof (intro exI conjI impI)
    show "BuffReader_poll_read B (mock_poll B) r cx b = Some (Done (Ready (Inr ())), ?r, b')"
      by (simp add: BuffReader_poll_read_def d l(1))
    show "rd_inv (br_buffer ?r)" using reads_offD(1) [OF l(3)] by simp
    show "rb_grown (view b) bs (view b')" by (rule l(2))
    show "bs = take ?n (rd_contents ?q @ mr_data (br_reader r))" unfolding d mock_reader.simps by (rule bs)
    show "rd_contents ?q @ mr_data (br_reader r) = bs @ rd_contents (br_buffer ?r) @ mr_data (br_reader ?r)"
      unfolding d mock_reader.simps buff_reader.simps by (rule reads_offD(2) [OF l(3)])
    assume "rd_contents ?q = []"
    note direct [OF this]
    then show "rb_contents (view b2) = rb_contents (view b')"
      "mr_data \<lparr>mr_data = drop ?n d\<rparr> = rd_contents (br_buffer ?r) @ mr_data (br_reader ?r)" by simp_all
  qed (rule m(1))
qed

text \<open>Thirteen bytes through a buffer of five, into room for eight.\<close>

theorem buff_reader_contract_witness:
  "\<exists>r' b'. BuffReader_poll_read view_api (mock_poll view_api)
       \<lparr>br_buffer = \<lparr>rd_ptr = Map.empty, rd_capacity = 5, rd_pos = 0, rd_filled = 0, rd_initialized = 0\<rparr>,
        br_reader = \<lparr>mr_data = bytes_of_string ''Hello, world!''\<rparr>\<rparr> Noop (output_buf view_api 8) =
     Some (Done (Ready (Inr ())), r', b') \<and> rb_contents b' = bytes_of_string ''Hello, w'' \<and>
     rd_contents (br_buffer r') @ mr_data (br_reader r') = bytes_of_string ''orld!''"
proof -
  let ?q = "\<lparr>rd_ptr = Map.empty, rd_capacity = 5, rd_pos = 0, rd_filled = 0, rd_initialized = 0\<rparr>"
  let ?r = "\<lparr>br_buffer = ?q, br_reader = \<lparr>mr_data = bytes_of_string ''Hello, world!''\<rparr>\<rparr>"
  have q: "rd_inv (br_buffer ?r)" "rd_filled (br_buffer ?r) < rd_capacity (br_buffer ?r)" "rd_contents ?q = []"
    by (simp_all add: rd_inv_def rd_contents_def)
  note out = output_buf_view [OF view_api_laws, of 8]
  from buff_reader_contract [OF view_api_laws q(1) out(1) q(2), of Noop] out(2-4) q(3) show ?thesis
    by (auto simp: rb_grown_def bytes_of_string_def)
qed

end
