(* ===== verification/Test_Write.thy ===== *)
theory Test_Write
  imports Delivery_Sample
begin

text \<open>
  The tests of \<open>src/write.rs\<close> check a writer against a small receiver of their own, which reads the frames of one
  connection off a TCP stream. This theory models the receiver, and shows that it gets what the test expects not only for the
  payload and the chunks that a test draws at random, but after every run of a connection
  that was shut down or dropped.
\<close>

section \<open>The receiver\<close>

text \<open>
  The parameters: \<open>read_exact\<close>, \<open>take(n).read_to_end\<close> and \<open>read\<close> of tokio, each run to completion. Documented behaviour, with \<open>left\<close>
  for the bytes up to the end of the stream that have not been read: \<open>read_exact\<close> needs all its bytes, \<open>take\<close> stops at the end.
\<close>

record 's stream_api =
  st_read_exact :: "nat \<Rightarrow> 's \<Rightarrow> byte list io_result \<times> 's"
  st_take_to_end :: "nat \<Rightarrow> 's \<Rightarrow> byte list io_result \<times> 's"
  st_read :: "nat \<Rightarrow> 's \<Rightarrow> byte list io_result \<times> 's"

definition stream_laws :: "'s stream_api \<Rightarrow> ('s \<Rightarrow> byte list) \<Rightarrow> bool" where
  "stream_laws T left \<longleftrightarrow>
     (\<forall>n s. n \<le> length (left s) \<longrightarrow> (\<exists>s'. st_read_exact T n s = (Inr (take n (left s)), s') \<and> left s' = drop n (left s))) \<and>
     (\<forall>n s. \<exists>s'. st_take_to_end T n s = (Inr (take n (left s)), s') \<and> left s' = drop n (left s)) \<and>
     (\<forall>n s. left s = [] \<longrightarrow> (\<exists>s'. st_read T n s = (Inr [], s') \<and> left s' = []))"

definition read_header :: "'s stream_api \<Rightarrow> 's \<Rightarrow> mux_frame_header io_result \<times> 's" where
  "read_header T s =
     (case st_read_exact T MuxFrameHeader_size s of
        (Inl e, s') \<Rightarrow> (Inl e, s')
      | (Inr init_bytes, s') \<Rightarrow> (Inr (MuxFrameHeader_of_bytes init_bytes), s'))"

partial_function (option) receive_loop ::
  "'s stream_api \<Rightarrow> socket_addr \<Rightarrow> byte list \<Rightarrow> 's \<Rightarrow> (byte list \<times> 's) run option" where
  "receive_loop T addr received_payload s =
     (case read_header T s of
        (Inl e, s') \<Rightarrow> Some Panicked
      | (Inr header, s') \<Rightarrow>
          if MuxFrameHeader_addr header \<noteq> addr then Some Panicked
          else let n = MuxFrameHeader_len header
               in if n = 0 then Some (Done (received_payload, s'))
                  else (case st_take_to_end T (unat n) s' of
                          (Inl e, s'') \<Rightarrow> Some Panicked
                        | (Inr rcv, s'') \<Rightarrow>
                            if length rcv \<noteq> unat n then Some Panicked
                            else receive_loop T addr (received_payload @ rcv) s''))"

definition at_eof :: "'s stream_api \<Rightarrow> 's \<Rightarrow> 'r run \<Rightarrow> 'r run" where
  "at_eof T s result = (case st_read T 1 s of (Inl e, s') \<Rightarrow> Panicked | (Inr bs, s') \<Rightarrow> if bs = [] then result else Panicked)"

definition test_write_receive :: "'s stream_api \<Rightarrow> 's \<Rightarrow> (socket_addr \<times> byte list) run option" where
  "test_write_receive T s =
     (case read_header T s of
        (Inl e, s') \<Rightarrow> Some Panicked
      | (Inr handshake_header, s') \<Rightarrow>
          let addr = MuxFrameHeader_addr handshake_header
          in if MuxFrameHeader_len handshake_header \<noteq> 0 then Some Panicked
             else (case receive_loop T addr [] s' of
                     None \<Rightarrow> None
                   | Some (Done (received_payload, s'')) \<Rightarrow> Some (at_eof T s'' (Done (addr, received_payload)))
                   | Some Panicked \<Rightarrow> Some Panicked
                   | Some Undefined \<Rightarrow> Some Undefined))"

definition test_drop_receive :: "'s stream_api \<Rightarrow> 's \<Rightarrow> unit run" where
  "test_drop_receive T s =
     (case read_header T s of
        (Inl e, s') \<Rightarrow> Panicked
      | (Inr handshake_header, s') \<Rightarrow>
          let start_addr = MuxFrameHeader_addr handshake_header
          in if MuxFrameHeader_len handshake_header \<noteq> 0 then Panicked
             else (case read_header T s' of
                     (Inl e, s'') \<Rightarrow> Panicked
                   | (Inr shutdown_header, s'') \<Rightarrow>
                       if start_addr \<noteq> MuxFrameHeader_addr shutdown_header then Panicked
                       else if MuxFrameHeader_len shutdown_header \<noteq> 0 then Panicked
                       else at_eof T s'' (Done ())))"

section \<open>What it receives\<close>

lemma read_header_frame:
  assumes laws: "stream_laws T left" and left: "left s = frame a p @ bs" and len: "length p \<le> 65535"
  obtains s' where "read_header T s = (Inr \<lparr>socket = a, len = NetworkOrderU16_new (of_nat (length p))\<rparr>, s')" and "left s' = p @ bs"
proof -
  let ?h = "\<lparr>socket = a, len = NetworkOrderU16_new (of_nat (length p))\<rparr>"
  have "take 20 (left s) = MuxFrameHeader_bytes ?h" "drop 20 (left s) = p @ bs" "20 \<le> length (left s)"
    by (simp_all add: left frame_def)
  with laws obtain s' where "st_read_exact T 20 s = (Inr (MuxFrameHeader_bytes ?h), s')" "left s' = p @ bs"
    unfolding stream_laws_def by metis
  then show ?thesis
    using MuxFrameHeader_of_bytes_append [of ?h "[]"] by (intro that) (simp_all add: read_header_def)
qed

lemma header_of_length [simp]:
  "MuxFrameHeader_addr \<lparr>socket = a, len = NetworkOrderU16_new k\<rparr> = a" "MuxFrameHeader_len \<lparr>socket = a, len = NetworkOrderU16_new k\<rparr> = k"
  by (simp_all add: MuxFrameHeader_addr_def MuxFrameHeader_len_def)

lemma receive_loop_frames:
  assumes laws: "stream_laws T left"
  shows "proper_frames ds \<Longrightarrow> left s = frames (tagged a (ds @ [[]])) @ bs \<Longrightarrow>
    \<exists>s'. receive_loop T a acc s = Some (Done (acc @ concat ds, s')) \<and> left s' = bs"
proof (induction ds arbitrary: s acc)
  case Nil
  then obtain s' where "read_header T s = (Inr \<lparr>socket = a, len = NetworkOrderU16_new 0\<rparr>, s')" "left s' = bs"
    using read_header_frame [OF laws, of s a "[]" bs] by auto
  then show ?case by (simp add: receive_loop.simps Let_def)
next
  case (Cons p ds)
  then have p: "p \<noteq> []" "length p \<le> 65535" by simp_all
  let ?rest = "frames (tagged a (ds @ [[]])) @ bs"
  have "left s = frame a p @ ?rest" using Cons.prems(2) by simp
  then obtain s1 where s1: "read_header T s = (Inr \<lparr>socket = a, len = NetworkOrderU16_new (of_nat (length p))\<rparr>, s1)" "left s1 = p @ ?rest"
    by (rule read_header_frame [OF laws _ p(2)])
  have n: "unat (of_nat (length p) :: u16) = length p" using p(2) by (simp add: unat_of_nat)
  moreover from n p(1) have "(of_nat (length p) :: u16) \<noteq> 0" by (metis length_0_conv unat_0)
  moreover from laws obtain s2 where "st_take_to_end T (length p) s1 = (Inr p, s2)" and s2: "left s2 = ?rest"
    unfolding stream_laws_def using s1(2) by (metis append_eq_conv_conj)
  ultimately have "receive_loop T a acc s = receive_loop T a (acc @ p) s2"
    using s1(1) by (subst receive_loop.simps) (simp add: Let_def)
  with Cons.IH [OF _ s2, of "acc @ p"] Cons.prems(1) show ?case by simp
qed

lemma at_eof_passes: "stream_laws T left \<Longrightarrow> left s = [] \<Longrightarrow> at_eof T s r = r"
  unfolding stream_laws_def at_eof_def by (metis (mono_tags, lifting) prod.case sum.case(2))

text \<open>The frames of one complete session.\<close>

lemma test_write_receive_session:
  assumes laws: "stream_laws T left" and left: "left s = frames (tagged a fs)" and fs: "ended_session True fs"
  shows "test_write_receive T s = Some (Done (a, concat fs))"
proof -
  from fs obtain ds where ds: "fs = [[]] @ ds @ [[]]" "proper_frames ds" by (auto simp: ended_session_def session_def)
  then have "left s = frame a [] @ frames (tagged a (ds @ [[]]))" using left by simp
  from read_header_frame [OF laws this] obtain s1 where
    s1: "read_header T s = (Inr \<lparr>socket = a, len = NetworkOrderU16_new 0\<rparr>, s1)" "left s1 = frames (tagged a (ds @ [[]])) @ []"
    by auto
  from receive_loop_frames [OF laws ds(2) s1(2), of "[]"] obtain s2 where
    "receive_loop T a [] s1 = Some (Done (concat ds, s2))" "left s2 = []" by auto
  with s1(1) ds(1) show ?thesis by (simp add: test_write_receive_def Let_def at_eof_passes [OF laws])
qed

lemma test_drop_receive_session:
  assumes laws: "stream_laws T left" and left: "left s = frames (tagged a fs)" and fs: "ended_session True fs" "concat fs = []"
  shows "test_drop_receive T s = Done ()"
proof -
  from fs obtain ds where ds: "fs = [[]] @ ds @ [[]]" "proper_frames ds" by (auto simp: ended_session_def session_def)
  with fs(2) have "ds = []" by (cases ds) (auto simp: proper_frames_def)
  with ds(1) left have "left s = frame a [] @ frame a []" by simp
  from read_header_frame [OF laws this] obtain s1 where
    s1: "read_header T s = (Inr \<lparr>socket = a, len = NetworkOrderU16_new 0\<rparr>, s1)" "left s1 = frame a [] @ []" by auto
  from read_header_frame [OF laws s1(2)] obtain s2 where
    "read_header T s1 = (Inr \<lparr>socket = a, len = NetworkOrderU16_new 0\<rparr>, s2)" "left s2 = []" by auto
  with s1(1) show ?thesis by (simp add: test_drop_receive_def Let_def at_eof_passes [OF laws])
qed

text \<open>The whole log of a stream with one writer.\<close>

lemma log_of_one:
  assumes "\<forall>f \<in> set F. fst f \<in> dom [i \<mapsto> c]"
  shows "log_bytes addr [i \<mapsto> c] F = frames (tagged (addr c) (share i F))"
  using assms by (induction F) (auto simp: log_bytes_def share_def)

text \<open>What a connection that is through with the stream has left there.\<close>

lemma finished_session:
  assumes laws: "wire_laws W m wire holder rest" "(sys_step (actor_step W) (fresh_actor m))\<^sup>*\<^sup>* (sys_start w) S"
      "wire w = []" "holder w = None" "holder (sy_world S) = None"
    and one: "sy_actors S = [i \<mapsto> act]"
    and ended: "act = ActTask True a TaskDone \<or> (\<exists>c. act = ActConn True c \<and> wi_state c = Shutdown ShutDone \<and> WriteInner_addr c = a)"
  obtains fs lost where "wire (sy_world S) = frames (tagged a fs)" and "ended_session True fs"
    and "accepted (sy_events S i) (concat fs @ lost)" and "act \<noteq> ActTask True a TaskDone \<longrightarrow> lost = []"
proof -
  obtain F bs where fr: "wire_system.framed wire holder m rest F bs S" by (rule writers_framed [OF laws(1-4)])
  note F = wire_system.framedD [OF fr]
  have a: "actor_addr act = a" using ended by auto
  have l: "wire (sy_world S) = frames (tagged a (share i F))"
    using F(1,2,5) laws(5) log_of_one [of F i act actor_addr] by (simp add: one a)
  have ok: "actor_ok m holder rest act (sy_world S) (if actor_guard act = None then [] else bs) (share i F) (sy_events S i)"
    by (rule F(3)) (simp add: one)
  from ended show ?thesis
  proof
    assume t: "act = ActTask True a TaskDone"
    with ok obtain ps lost where ps: "[] = frames (tagged a ps)" "accepted (sy_events S i) (concat (share i F) @ concat ps @ lost)"
      "ended_session True (share i F @ ps)" by auto
    from ps(1) have "ps = []" by (rule frames_tagged_Nil [OF sym])
    with t ps l show ?thesis by (intro that [of "share i F" lost]) auto
  next
    assume "\<exists>c. act = ActConn True c \<and> wi_state c = Shutdown ShutDone \<and> WriteInner_addr c = a"
    then obtain c where c: "act = ActConn True c" "wi_state c = Shutdown ShutDone" by blast
    with ok have "wi_payload c = []" by (simp add: wi_inv_def wi_payload_def)
    with ok c l show ?thesis by (intro that [of "share i F" "[]"]) auto
  qed
qed

text \<open>
  C23. A writer against the receiver of the tests, for every payload and every sequence of writes and flushes: when a connection
  that shook hands and had the stream for itself has been shut down, or dropped and its task is done, the
  receiver reads a handshake, the frames of this address, an empty frame and the end of the stream, and the payload it puts together is
  what the writer accepted; after a drop it may be a prefix of that. With nothing written it is what \<open>test_drop\<close> expects.
\<close>

theorem test_receivers:
  assumes "wire_laws W m wire holder rest" and "(sys_step (actor_step W) (fresh_actor m))\<^sup>*\<^sup>* (sys_start w) S"
    and "wire w = []" and "holder w = None" and "holder (sy_world S) = None"
    and one: "sy_actors S = [i \<mapsto> act]"
    and ended: "act = ActTask True a TaskDone \<or> (\<exists>c. act = ActConn True c \<and> wi_state c = Shutdown ShutDone \<and> WriteInner_addr c = a)"
    and laws: "stream_laws T left" and left: "left s = wire (sy_world S)"
  shows "\<exists>bs lost. test_write_receive T s = Some (Done (a, bs)) \<and> accepted (sy_events S i) (bs @ lost) \<and>
    (act \<noteq> ActTask True a TaskDone \<longrightarrow> lost = []) \<and> (sy_events S i = [] \<longrightarrow> test_drop_receive T s = Done ())"
proof -
  obtain fs lost where fs: "wire (sy_world S) = frames (tagged a fs)" "ended_session True fs"
    "accepted (sy_events S i) (concat fs @ lost)" "act \<noteq> ActTask True a TaskDone \<longrightarrow> lost = []"
    by (rule finished_session [OF assms(1-7)])
  have l: "left s = frames (tagged a fs)" using fs(1) left by simp
  have "test_drop_receive T s = Done ()" if "sy_events S i = []"
    using accepted_NilD [OF fs(3) [unfolded that]] by (intro test_drop_receive_session [OF laws l fs(2)]) simp
  with fs(3,4) test_write_receive_session [OF laws l fs(2)] show ?thesis by blast
qed

section \<open>A sample run\<close>

text \<open>A list of bytes as a stream, and the sample connection after its shutdown.\<close>

definition list_stream :: "byte list stream_api" where
  "list_stream = \<lparr>st_read_exact = (\<lambda>n s. if n \<le> length s then (Inr (take n s), drop n s) else (Inl (IoError UnexpectedEof []), [])),
     st_take_to_end = (\<lambda>n s. (Inr (take n s), drop n s)), st_read = (\<lambda>n s. (Inr (take n s), drop n s))\<rparr>"

lemma list_stream_laws: "stream_laws list_stream id"
  by (simp add: stream_laws_def list_stream_def)

theorem test_receivers_witness:
  "\<exists>bs. test_write_receive list_stream closed_wire = Some (Done (addr1, bs)) \<and>
     accepted [([1, 2, 3], Ready (Inr 3), False)] bs"
proof -
  have laws: "wire_laws loopback 0 lb_wire lb_holder id" by (simp add: wire_laws_def loopback_laws)
  have start: "lb_wire (lb_start []) = []" "lb_holder (lb_start []) = None" "lb_holder (sy_world closed_sys) = None"
    by (simp_all add: lb_start_def lb_holder_def closed_sys_def)
  have ended: "ActConn True wr3 = ActTask True addr1 TaskDone \<or>
      (\<exists>c. ActConn True wr3 = (ActConn True c :: (unit, unit, byte list) actor) \<and> wi_state c = Shutdown ShutDone \<and> WriteInner_addr c = addr1)"
    using closed_sys_facts(2) by (simp add: wr3_def)
  have left: "id closed_wire = lb_wire (sy_world closed_sys)" by (simp add: closed_sys_facts)
  from test_receivers [OF laws closed_sys_run start closed_sys_facts(1) ended list_stream_laws left] show ?thesis
    by (auto simp: closed_sys_facts)
qed

end
