(* ===== verification/Test_Send.thy ===== *)
theory Test_Send
  imports Test_Write Lone_Writer
begin

text \<open>
  The sending halves of \<open>test_write\<close> and \<open>test_parallel_independent_sockets\<close> in \<open>src/write.rs\<close>, and the tests as a whole:
  they pass for every payload and everything they draw at random, whatever pieces the stream takes the bytes in and
  however often a call is pending. Each writer of these tests has a stream of its own.
\<close>

section \<open>The senders\<close>

text \<open>\<open>generate_payload\<close>: \<open>N\<close> times the byte that was drawn.\<close>

definition generate_payload :: "nat \<Rightarrow> byte \<Rightarrow> byte list" where
  "generate_payload n byte = replicate n byte"

text \<open>
  What a sender awaits, in order. The loop draws a split point of at most \<open>bound\<close> of what is left, and whether
  to flush; a draw out of range is none that \<open>random_range\<close> makes.
\<close>

datatype send_op = SendFlush | SendAll "byte list" | SendShutdown

fun send_chunks :: "(nat \<Rightarrow> nat) \<Rightarrow> (nat \<times> bool) list \<Rightarrow> byte list \<Rightarrow> send_op list option" where
  "send_chunks bound draws [] = Some []"
| "send_chunks bound [] (x # data) = None"
| "send_chunks bound ((split_point, flush) # draws) (x # data) =
     (if 1 \<le> split_point \<and> split_point \<le> bound (length (x # data))
      then (case send_chunks bound draws (drop split_point (x # data)) of
              None \<Rightarrow> None
            | Some ops \<Rightarrow> Some (SendAll (take split_point (x # data)) # (if flush then [SendFlush] else []) @ ops))
      else None)"

definition test_write_send :: "(nat \<times> bool) list \<Rightarrow> byte list \<Rightarrow> send_op list option" where
  "test_write_send draws data =
     (case send_chunks (\<lambda>n. max (n div 2) 1) draws data of
        None \<Rightarrow> None
      | Some ops \<Rightarrow> Some (SendFlush # ops @ [SendShutdown]))"

definition parallel_send :: "(nat \<times> bool) list \<Rightarrow> byte list \<Rightarrow> send_op list option" where
  "parallel_send draws data =
     (case send_chunks (\<lambda>n. min n 1024) draws data of
        None \<Rightarrow> None
      | Some ops \<Rightarrow> Some (ops @ [SendShutdown]))"

definition parallel_payload :: "nat \<Rightarrow> byte \<Rightarrow> byte list" where
  "parallel_payload i byte = (generate_payload 8192 byte)[0 := of_nat (i mod 256)]"

text \<open>
  Documented behaviour of tokio's \<open>write_all\<close>: it offers what is left until all of it has been accepted, and offers the same
  again after \<open>Pending\<close>. \<open>flush\<close> and \<open>shutdown\<close> offer nothing.
\<close>

inductive writes_all :: "byte list \<Rightarrow> offer list \<Rightarrow> bool" where
  all_written: "writes_all [] []"
| offer_pending: "writes_all buf es \<Longrightarrow> buf \<noteq> [] \<Longrightarrow> writes_all buf ((buf, Pending, waits) # es)"
| offer_taken: "writes_all (drop k buf) es \<Longrightarrow> 0 < k \<Longrightarrow> k \<le> length buf \<Longrightarrow> writes_all buf ((buf, Ready (Inr k), waits) # es)"

inductive sends :: "send_op list \<Rightarrow> offer list \<Rightarrow> bool" where
  sends_Nil: "sends [] []"
| sends_flush: "sends ops es \<Longrightarrow> sends (SendFlush # ops) es"
| sends_shutdown: "sends ops es \<Longrightarrow> sends (SendShutdown # ops) es"
| sends_all: "writes_all buf es1 \<Longrightarrow> sends ops es \<Longrightarrow> sends (SendAll buf # ops) (es1 @ es)"

section \<open>The tests\<close>

definition test_write_check :: "'s stream_api \<Rightarrow> byte list \<Rightarrow> 's \<Rightarrow> unit run option" where
  "test_write_check T data s =
     (case test_write_receive T s of
        None \<Rightarrow> None
      | Some (Done (addr, received_payload)) \<Rightarrow>
          Some (if length data \<noteq> length received_payload then Panicked
                else if data \<noteq> received_payload then Panicked else Done ())
      | Some Panicked \<Rightarrow> Some Panicked
      | Some Undefined \<Rightarrow> Some Undefined)"

definition parallel_receive :: "'s stream_api \<Rightarrow> nat \<Rightarrow> 's \<Rightarrow> (nat \<times> byte list) run option" where
  "parallel_receive T i s =
     (case read_header T s of
        (Inl e, s') \<Rightarrow> Some Panicked
      | (Inr handshake_header, s') \<Rightarrow>
          let addr = MuxFrameHeader_addr handshake_header
          in if MuxFrameHeader_len handshake_header \<noteq> 0 then Some Panicked
             else (case receive_loop T addr [] s' of
                     None \<Rightarrow> None
                   | Some (Done (received_payload, s'')) \<Rightarrow> Some (at_eof T s'' (Done (i, received_payload)))
                   | Some Panicked \<Rightarrow> Some Panicked
                   | Some Undefined \<Rightarrow> Some Undefined))"

fun parallel_check :: "byte list list \<Rightarrow> (nat \<times> byte list) list \<Rightarrow> unit run" where
  "parallel_check sent_payloads [] = Done ()"
| "parallel_check sent_payloads ((conn_idx, received_payload) # received_data) =
     (if length sent_payloads \<le> conn_idx then Panicked
      else let sent_payload = sent_payloads ! conn_idx
           in if length sent_payload \<noteq> length received_payload then Panicked
              else if sent_payload \<noteq> received_payload then Panicked
              else parallel_check sent_payloads received_data)"

section \<open>What is sent is what is received\<close>

lemma answered_append [simp]: "answered (es @ es') = answered es @ answered es'"
  by (simp add: answered_def)

lemma writes_all_answered: "writes_all buf es \<Longrightarrow> answered es = buf"
  by (induction rule: writes_all.induct) (simp_all add: answered_def)

fun op_bytes :: "send_op \<Rightarrow> byte list" where
  "op_bytes (SendAll buf) = buf"
| "op_bytes op = []"

lemma sends_answered: "sends ops es \<Longrightarrow> answered es = concat (map op_bytes ops)"
  by (induction rule: sends.induct) (simp_all add: writes_all_answered, simp add: answered_def)

lemma send_chunks_bytes: "send_chunks bound draws data = Some ops \<Longrightarrow> concat (map op_bytes ops) = data"
proof (induction bound draws data arbitrary: ops rule: send_chunks.induct)
  case (3 bound split_point flush draws x data)
  from "3.prems" obtain ops1 where ops1: "send_chunks bound draws (drop split_point (x # data)) = Some ops1"
    "ops = SendAll (take split_point (x # data)) # (if flush then [SendFlush] else []) @ ops1"
    "1 \<le> split_point \<and> split_point \<le> bound (length (x # data))"
    by (auto split: if_splits option.splits)
  from "3.IH" [OF ops1(3,1)] have "concat (map op_bytes ops) = take split_point (x # data) @ drop split_point (x # data)"
    by (simp add: ops1(2))
  then show ?case by simp
qed simp_all

text \<open>A writer that was alone on its stream, wrote with \<open>write_all\<close> and shut down.\<close>

lemma sender_received:
  assumes laws: "wire_laws W m wire holder rest" and free: "try_lock_succeeds W m holder waits" "waits w = []"
    and run: "(sys_step (actor_step W) (fresh_actor m))\<^sup>*\<^sup>* (sys_start w) S" "wire w = []" "holder w = None" "holder (sy_world S) = None"
    and one: "sy_actors S = [i \<mapsto> ActConn True c]" "wi_state c = Shutdown ShutDone" "WriteInner_addr c = a"
    and sent: "sends ops (sy_events S i)" "concat (map op_bytes ops) = data"
  shows "\<exists>fs. wire (sy_world S) = frames (tagged a fs) \<and> ended_session True fs \<and> concat fs = data"
proof -
  obtain fs where fs: "wire (sy_world S) = frames (tagged a fs)" "ended_session True fs" "accepted (sy_events S i) (concat fs)"
    by (rule finished_session [OF laws run one(1)]) (use one(2,3) in auto)
  have "\<forall>e \<in> set (sy_events S i). settled e" using lone_run [OF laws free(1) run(1-3) free(2)] one(1) by blast
  from accepted_answered [OF fs(3) this] sends_answered [OF sent(1)] sent(2) fs(1,2) show ?thesis by auto
qed

lemma parallel_receive_session:
  assumes laws: "stream_laws T left" and left: "left s = frames (tagged a fs)" and fs: "ended_session True fs"
  shows "parallel_receive T i s = Some (Done (i, concat fs))"
proof -
  from fs obtain ds where ds: "fs = [[]] @ ds @ [[]]" "proper_frames ds" by (auto simp: ended_session_def session_def)
  then have "left s = frame a [] @ frames (tagged a (ds @ [[]]))" using left by simp
  from read_header_frame [OF laws this] obtain s1 where
    s1: "read_header T s = (Inr \<lparr>socket = a, len = NetworkOrderU16_new 0\<rparr>, s1)" "left s1 = frames (tagged a (ds @ [[]])) @ []"
    by auto
  from receive_loop_frames [OF laws ds(2) s1(2), of "[]"] obtain s2 where
    "receive_loop T a [] s1 = Some (Done (concat ds, s2))" "left s2 = []" by auto
  with s1(1) ds(1) show ?thesis by (simp add: parallel_receive_def Let_def at_eof_passes [OF laws])
qed

section \<open>A sample run\<close>

text \<open>The sample connection sends one byte and is shut down with the byte still in its buffer.\<close>

definition byte_buffer :: packet_buffer where
  "byte_buffer = \<lparr>pb_socket_addr = addr1, pb_len = NetworkOrderU16_new 1, pb_data = mem_write Map.empty 0 [7]\<rparr>"

definition byte_writer :: "(unit, unit) write_inner" where
  "byte_writer = wr0\<lparr>wi_state := Writing (Task 1) Buffering, wi_buffer := byte_buffer\<rparr>"

definition byte_done :: "(unit, unit) write_inner" where
  "byte_done = wr0\<lparr>wi_state := Shutdown ShutDone, wi_buffer := PacketBuffer_clear (PacketBuffer_clear byte_buffer)\<rparr>"

lemma byte_buffer_payload: "pb_inv byte_buffer" "payload byte_buffer = [7]" "pb_socket_addr byte_buffer = addr1"
proof -
  have "mem_read (pb_data byte_buffer) 0 1 = Some [7]"
    using mem_write_same [of Map.empty 0 "[7]"] by (simp add: byte_buffer_def)
  then show "pb_inv byte_buffer" "payload byte_buffer = [7]"
    by (simp_all add: pb_inv_def payload_def PacketBuffer_packet_size_def byte_buffer_def)
qed (simp add: byte_buffer_def)

lemma byte_write: "WriteInner_poll_write loopback wr0 (Task 1) [7] w = Some (Done (Ready (Inr 1)), byte_writer, w)"
proof -
  have "PacketBuffer_push (wi_buffer wr0) [7] 0 = Done (1, byte_buffer)"
    by (simp add: PacketBuffer_push_def wr0_def byte_buffer_def box_new_def WriteInner_init_def PacketBuffer_init_def
        LEN_FIELD_CUTOFF_def PACKET_SIZE_def cmp_word_def uninit_writer_def uninit_packet_def)
  moreover have "\<not> PacketBuffer_is_full (wi_buffer wr0)"
    by (simp add: PacketBuffer_is_full_def PacketBuffer_packet_size_def wr0_def box_new_def WriteInner_init_def
        PacketBuffer_init_def PACKET_SIZE_def)
  ultimately have "poll_write_loop loopback (Task 1) Buffering (wi_write_lock wr0) (wi_buffer wr0) [7] 0 w =
      Some (Done (Ready (Inr 1)), Buffering, wi_write_lock wr0, byte_buffer, w)"
    by (subst poll_write_loop.simps, subst poll_write_loop.simps) simp
  then show ?thesis
    by (simp add: WriteInner_poll_write_def PoisonOnPanic_new_def PoisonOnPanic_drop_def byte_writer_def wr0_def box_new_def
        WriteInner_init_def)
qed

lemma byte_shutdown:
  "WriteInner_poll_shutdown loopback byte_writer (Task 1) ((lb_start [])\<lparr>lb_wire := F\<rparr>) =
   Some (Done (Ready (Inr ())), byte_done, (lb_start [])\<lparr>lb_wire := F @ frame addr1 [7] @ frame addr1 []\<rparr>, [Task 1])"
proof -
  let ?w1 = "(lb_start [])\<lparr>lb_wire := F, lb_held := True\<rparr>" and ?lk = "wi_write_lock wr0"
  let ?w2 = "?w1\<lparr>lb_wire := F @ frame addr1 [7]\<rparr>" and ?b = "PacketBuffer_clear byte_buffer"
  have ne: "\<not> PacketBuffer_is_empty byte_buffer" and e: "PacketBuffer_is_empty ?b"
    by (simp_all add: is_empty_payload byte_buffer_payload)
  have lock: "PollMutex_poll_lock loopback ?lk (Task 1) ((lb_start [])\<lparr>lb_wire := F\<rparr>) = (Ready (), ?lk, ?w1)"
    by (simp add: PollMutex_poll_lock_def wr0_def box_new_def WriteInner_init_def PollMutex_new_def loopback_def lb_try_lock_def lb_start_def)
  have script: "lb_script ?w1 = []" "lb_script ?w2 = []" by (simp_all add: lb_start_def)
  from loopback_flush [OF byte_buffer_payload(1) script(1), of "Task 1"] obtain k where
    1: "flush_buf loopback (Task 1) byte_buffer () (CounterU32 0) ?w1 = Some (Done (Ready (Inr ())), ?b, CounterU32 k, ?w2)"
    by (auto simp: byte_buffer_payload)
  have b: "pb_inv ?b" "payload ?b = []" "pb_socket_addr ?b = addr1" by (simp_all add: byte_buffer_payload)
  have "flush_buf loopback (Task 1) ?b () (CounterU8 0) ?w2 = Some (Done (Ready (Inr ())), PacketBuffer_clear ?b, CounterU8 20,
      ?w2\<lparr>lb_wire := (F @ frame addr1 [7]) @ frame addr1 []\<rparr>)"
    using loopback_close [OF b(1,2) script(2), of "Task 1"] b(3) by simp
  with lock 1 ne e have "shutdown_loop loopback (Task 1) WaitingLock ?lk byte_buffer ((lb_start [])\<lparr>lb_wire := F\<rparr>) =
      Some (Done (Ready (Inr ())), ShutDone, ?lk, PacketBuffer_clear ?b, (lb_start [])\<lparr>lb_wire := F @ frame addr1 [7] @ frame addr1 []\<rparr>)"
    by (simp add: shutdown_loop.simps) (simp add: loopback_def lb_start_def)
  then show ?thesis
    by (simp add: WriteInner_poll_shutdown_def PoisonOnPanic_new_def PoisonOnPanic_drop_def shutdown_enter_def byte_writer_def byte_done_def)
qed

definition byte_sys :: "((unit, unit, byte list) actor, lb_world, offer) sys" where
  "byte_sys = \<lparr>sy_actors = [0 \<mapsto> ActConn True byte_done],
     sy_world = (lb_start [])\<lparr>lb_wire := frames [(addr1, []), (addr1, [7]), (addr1, [])]\<rparr>, sy_events = (\<lambda>i. [])(0 := [([7], Ready (Inr 1), False)])\<rparr>"

lemma byte_sys_run: "(sys_step (actor_step loopback) (fresh_actor 0))\<^sup>*\<^sup>* (sys_start (lb_start [])) byte_sys"
proof -
  let ?st = "sys_step (actor_step loopback) (fresh_actor 0)" and ?w1 = "(lb_start [])\<lparr>lb_wire := frame addr1 []\<rparr>"
  let ?S = "\<lambda>c w es. \<lparr>sy_actors = [0 \<mapsto> c], sy_world = w, sy_events = (\<lambda>i. [])(0 := es)\<rparr>"
  have act: "?st (?S c w es) (?S c' w' (es @ ev))" if "actor_step loopback c w ev c' w'" for c w es c' w' ev
    using sys_step.actor_acts [of "?S c w es" 0 c "actor_step loopback" ev c' w'] that by simp
  have 0: "?st (sys_start (lb_start [])) (?S (ActNew wr0) (lb_start []) [])"
    using sys_step.new_actor [of "sys_start (lb_start [])" 0 "fresh_actor 0" "ActNew wr0" "actor_step loopback"]
    by (auto simp: sys_start_def fresh_actor_def wr0_def)
  note 1 = act [OF do_handshake [OF wr_handshake], of "lb_start []" "[]"]
  note 2 = act [OF do_shaken [OF wr_shaken], of "[]"]
  have "pm_fut (wi_write_lock byte_writer) = None" by (simp add: byte_writer_def wr0_def box_new_def WriteInner_init_def PollMutex_new_def)
  then have 3: "?st (?S (ActConn True wr0) ?w1 []) (?S (ActConn True byte_writer) ?w1 [([7], Ready (Inr 1), False)])"
    using act [OF do_write [OF byte_write], of True ?w1 "[]"] by simp
  have 4: "?st (?S (ActConn True byte_writer) ?w1 [([7], Ready (Inr 1), False)]) byte_sys"
    using act [OF do_shutdown [OF byte_shutdown [of "frame addr1 []"]], of True "[([7], Ready (Inr 1), False)]"] by (simp add: byte_sys_def)
  from 0 1 2 3 4 show ?thesis by (auto intro: rtranclp.rtrancl_into_rtrancl)
qed

lemma loopback_try_lock: "try_lock_succeeds loopback m lb_holder (\<lambda>w. [])"
  by (simp add: try_lock_succeeds_def loopback_def lb_try_lock_def lb_holder_def)

section \<open>The properties\<close>

text \<open>
  C24. \<open>test_write\<close> passes: for every payload, every split point and flush it draws, and every way the stream takes the bytes, when the
  sender has awaited all its calls on a connection that has its stream for itself, the receiver puts together exactly the payload and none of the
  assertions of the test fails.
\<close>

theorem test_write_passes:
  assumes "wire_laws W m wire holder rest" and "try_lock_succeeds W m holder waits" and "waits w = []"
    and "(sys_step (actor_step W) (fresh_actor m))\<^sup>*\<^sup>* (sys_start w) S" and "wire w = []" and "holder w = None" and "holder (sy_world S) = None"
    and "sy_actors S = [i \<mapsto> ActConn True c]" and "wi_state c = Shutdown ShutDone"
    and "test_write_send draws data = Some ops" and "sends ops (sy_events S i)"
    and "stream_laws T left" and "left s = wire (sy_world S)"
  shows "test_write_check T data s = Some (Done ())"
proof -
  from assms(10) obtain ops1 where ops: "send_chunks (\<lambda>n. max (n div 2) 1) draws data = Some ops1" "ops = SendFlush # ops1 @ [SendShutdown]"
    by (auto simp: test_write_send_def split: option.splits)
  have "concat (map op_bytes ops) = data" using send_chunks_bytes [OF ops(1)] by (simp add: ops(2))
  from sender_received [OF assms(1-9) refl assms(11) this] obtain fs where
    fs: "wire (sy_world S) = frames (tagged (WriteInner_addr c) fs)" "ended_session True fs" "concat fs = data" by blast
  have "left s = frames (tagged (WriteInner_addr c) fs)" using assms(13) fs(1) by simp
  from test_write_receive_session [OF assms(12) this fs(2)] fs(3) show ?thesis by (simp add: test_write_check_def)
qed

theorem test_write_passes_witness:
  "test_write_send [(1, True)] [7] = Some [SendFlush, SendAll [7], SendFlush, SendShutdown] \<and>
   test_write_check list_stream [7] (frames [(addr1, []), (addr1, [7]), (addr1, [])]) = Some (Done ())"
proof -
  have laws: "wire_laws loopback 0 lb_wire lb_holder id" by (simp add: wire_laws_def loopback_laws)
  have start: "lb_wire (lb_start []) = []" "lb_holder (lb_start []) = None" "lb_holder (sy_world byte_sys) = None"
    by (simp_all add: lb_start_def lb_holder_def byte_sys_def)
  have one: "sy_actors byte_sys = [0 \<mapsto> ActConn True byte_done]" "wi_state byte_done = Shutdown ShutDone"
    by (simp_all add: byte_sys_def byte_done_def)
  have send: "test_write_send [(1, True)] [7] = Some [SendFlush, SendAll [7], SendFlush, SendShutdown]"
    by (simp add: test_write_send_def)
  have "writes_all [7] [([7], Ready (Inr 1), False)]"
    by (rule offer_taken) (simp_all add: all_written)
  from sends_flush [OF sends_all [OF this sends_flush [OF sends_shutdown [OF sends_Nil]]]]
  have offers: "sends [SendFlush, SendAll [7], SendFlush, SendShutdown] (sy_events byte_sys 0)" by (simp add: byte_sys_def)
  have left: "id (frames [(addr1, []), (addr1, [7]), (addr1, [])]) = lb_wire (sy_world byte_sys)" by (simp add: byte_sys_def)
  from test_write_passes [OF laws loopback_try_lock refl byte_sys_run start one send offers list_stream_laws left] send show ?thesis by simp
qed

text \<open>
  The parallel test: every connection has its own stream, so that each receiver gets the payload of the connection with its number,
  and the final comparison succeeds.
\<close>

lemma parallel_check_same: "\<forall>x \<in> set ixs. fst x < length sent \<and> sent ! fst x = snd x \<Longrightarrow> parallel_check sent ixs = Done ()"
  by (induction sent ixs rule: parallel_check.induct) auto

lemma parallel_passes:
  assumes laws: "wire_laws W m wire holder rest" "try_lock_succeeds W m holder waits" "stream_laws T left"
    and conn: "\<And>j. j < n \<Longrightarrow> \<exists>w S i c draws ops. (sys_step (actor_step W) (fresh_actor m))\<^sup>*\<^sup>* (sys_start w) S \<and>
      waits w = [] \<and> wire w = [] \<and> holder w = None \<and> holder (sy_world S) = None \<and> sy_actors S = [i \<mapsto> ActConn True c] \<and> wi_state c = Shutdown ShutDone \<and>
      parallel_send draws (parallel_payload j (byte j)) = Some ops \<and> sends ops (sy_events S i) \<and> left (s j) = wire (sy_world S)"
  shows "j < n \<Longrightarrow> parallel_receive T j (s j) = Some (Done (j, parallel_payload j (byte j)))"
    and "parallel_check (map (\<lambda>j. parallel_payload j (byte j)) [0..<n]) (map (\<lambda>j. (j, parallel_payload j (byte j))) [0..<n]) = Done ()"
proof -
  assume "j < n"
  from conn [OF this] obtain w S i c draws ops where run: "waits w = []" "(sys_step (actor_step W) (fresh_actor m))\<^sup>*\<^sup>* (sys_start w) S"
    "wire w = []" "holder w = None" "holder (sy_world S) = None" "sy_actors S = [i \<mapsto> ActConn True c]" "wi_state c = Shutdown ShutDone"
    and ops: "parallel_send draws (parallel_payload j (byte j)) = Some ops" "sends ops (sy_events S i)" "left (s j) = wire (sy_world S)"
    by blast
  from ops(1) obtain ops1 where "send_chunks (\<lambda>n. min n 1024) draws (parallel_payload j (byte j)) = Some ops1" "ops = ops1 @ [SendShutdown]"
    by (auto simp: parallel_send_def split: option.splits)
  then have "concat (map op_bytes ops) = parallel_payload j (byte j)" using send_chunks_bytes by fastforce
  from sender_received [OF laws(1,2) run refl ops(2) this] ops(3) show "parallel_receive T j (s j) = Some (Done (j, parallel_payload j (byte j)))"
    using parallel_receive_session [OF laws(3), of "s j" "WriteInner_addr c" _ j] by auto
next
  show "parallel_check (map (\<lambda>j. parallel_payload j (byte j)) [0..<n]) (map (\<lambda>j. (j, parallel_payload j (byte j))) [0..<n]) = Done ()"
    by (rule parallel_check_same) auto
qed

end
