(* ===== verification/First_Write.thy ===== *)
theory First_Write
  imports Write_System
begin

text \<open>
  The first write of a connection finds an empty buffer: an offer that fits into one packet is accepted at once and completely,
  whoever has the lock of the stream. A connection that only writes once therefore knows what was accepted.
\<close>

section \<open>An empty buffer takes a packet\<close>

lemma first_poll_write:
  assumes inv: "wi_inv holder m c w" and idle: "wi_state c = Writing wk Buffering" "wi_payload c = []" and len: "length buf \<le> 65535"
  shows "\<exists>c'. WriteInner_poll_write W c cx buf w = Some (Done (Ready (Inr (length buf))), c', w)"
proof -
  let ?b = "wi_buffer c"
  have pb: "pb_inv ?b" "payload ?b = []" using inv idle by (simp_all add: wi_inv_def ws_inv_def wi_payload_def)
  obtain n b' where push: "PacketBuffer_push ?b buf 0 = Done (n, b')" and n: "unat n = min (length buf) (push_room (payload ?b) 0)"
    by (rule push_spec [OF pb(1), of buf 0])
  have all: "unat n = length buf" using n pb(2) len by (simp add: push_room_def)
  have "\<not> PacketBuffer_is_full ?b" using is_full_payload [OF pb(1)] pb(2) by simp
  then have "poll_write_loop W cx Buffering (wi_write_lock c) ?b buf 0 w =
      Some (Done (Ready (Inr (length buf))), Buffering, wi_write_lock c, if buf = [] then ?b else b', w)"
    using push all by (subst poll_write_loop.simps, subst poll_write_loop.simps) simp
  then show ?thesis using idle(1) by (simp add: WriteInner_poll_write_def PoisonOnPanic_new_def PoisonOnPanic_drop_def)
qed

text \<open>A flush of an empty buffer leaves no flush under way.\<close>

lemma idle_poll_flush:
  assumes laws: "wire_laws W m wire holder rest" and inv: "wi_inv holder m c w" and idle: "wi_state c = Writing wk Buffering" "wi_payload c = []"
    and eq: "WriteInner_poll_flush W c cx w = Some (Done q, c', w')"
  shows "wi_state c' = Writing cx Buffering"
proof -
  have pb: "PacketBuffer_is_empty (wi_buffer c)"
    using inv idle is_empty_payload by (simp add: wi_inv_def ws_inv_def wi_payload_def)
  obtain st' lk b where c': "wi_state c' = Writing cx st'"
    and f: "flush_writer W cx Buffering (wi_write_lock c) (wi_buffer c) w = (Done q, st', lk, b, w')"
    using eq pb idle(1)
    by (auto simp: WriteInner_poll_flush_def PoisonOnPanic_new_def PoisonOnPanic_drop_def poll_flush_body_def
        split: prod.splits run.splits)
  have "fst (poll_flush_w W g cx w1) \<noteq> Pending" for g w1 using wire_lawsD(3) [OF laws] by (simp add: flush_always_ready_def)
  then have "st' = Buffering"
    using f by (auto simp: flush_writer_def poll_locked_def split: prod.splits poll.splits) (metis fst_conv)+
  with c' show ?thesis by simp
qed

section \<open>The first offer of a run\<close>

text \<open>Until a connection has made an offer, its buffer is empty and no flush is under way.\<close>

fun actor_idle :: "('g, 'f, 'a) actor \<Rightarrow> bool" where
  "actor_idle (ActConn i c) \<longleftrightarrow> (\<forall>wk st. wi_state c = Writing wk st \<longrightarrow> st = Buffering)"
| "actor_idle c \<longleftrightarrow> True"

fun first_offer :: "offer list \<Rightarrow> ('g, 'f, 'a) actor \<Rightarrow> bool" where
  "first_offer [] c \<longleftrightarrow> actor_idle c"
| "first_offer ((buf, r, waits) # es) c \<longleftrightarrow> (length buf \<le> 65535 \<longrightarrow> r = Ready (Inr (length buf)))"

lemma first_offer_more: "es \<noteq> [] \<Longrightarrow> first_offer es c \<Longrightarrow> first_offer (es @ es') c'"
  by (cases es) auto

lemma shutdown_leaves_writing:
  "WriteInner_poll_shutdown W c cx w = Some (Done q, c', w', wk) \<Longrightarrow> wi_state c' \<noteq> Writing wk' st"
  by (cases "wi_state c")
    (auto simp: WriteInner_poll_shutdown_def PoisonOnPanic_new_def PoisonOnPanic_drop_def split: option.splits prod.splits run.splits)

lemma first_step:
  assumes laws: "wire_laws W m wire holder rest" and step: "actor_step W c w ev c' w'"
    and ok: "actor_ok m holder rest c w bs fs []" and idle: "actor_idle c"
  shows "first_offer ev c'"
  using step
proof (cases rule: actor_step.cases)
  case (do_write d cx buf r d' i)
  with ok have inv: "wi_inv holder m d w" and "accepted [] (concat fs @ wi_payload d)" by simp_all
  then have empty: "wi_payload d = []" using accepted_NilD by blast
  from do_write(4,5) obtain wk st where st: "wi_state d = Writing wk st"
    by (cases "wi_state d") (auto simp: WriteInner_poll_write_def PoisonOnPanic_new_def)
  with idle do_write(1) have "wi_state d = Writing wk Buffering" by simp
  with first_poll_write [OF inv _ empty, of wk buf W cx] do_write show ?thesis by auto
next
  case (do_flush d cx q d' i)
  with ok have inv: "wi_inv holder m d w" and "accepted [] (concat fs @ wi_payload d)" by simp_all
  then have empty: "wi_payload d = []" using accepted_NilD by blast
  from do_flush(4,5) obtain wk st where st: "wi_state d = Writing wk st"
    by (cases "wi_state d") (auto simp: WriteInner_poll_flush_def PoisonOnPanic_new_def)
  with idle do_flush(1) have "wi_state d = Writing wk Buffering" by simp
  from idle_poll_flush [OF laws inv this empty do_flush(4)] do_flush show ?thesis by simp
next
  case do_shutdown
  then show ?thesis using shutdown_leaves_writing by fastforce
qed (use ok in auto)

lemma first_offers:
  assumes laws: "wire_laws W m wire holder rest" and start: "wire w = []" "holder w = None"
    and run: "(sys_step (actor_step W) (fresh_actor m))\<^sup>*\<^sup>* (sys_start w) S"
  shows "sy_actors S i = Some c \<Longrightarrow> first_offer (sy_events S i) c"
  using run
proof (induction arbitrary: i c rule: rtranclp_induct)
  case base
  then show ?case by (simp add: sys_start_def)
next
  case (step S1 S2)
  from step.hyps(2) show ?case
  proof (cases rule: sys_step.cases)
    case (new_actor j d)
    with step.prems step.IH show ?thesis by (cases "i = j") (auto simp: fresh_actor_def)
  next
    case (actor_acts j d ev d' w')
    obtain F bs where fr: "wire_system.framed wire holder m rest F bs S1" by (rule writers_framed [OF laws step.hyps(1) start])
    show ?thesis
    proof (cases "i = j")
      case True
      with actor_acts step.prems have S2: "c = d'" "sy_events S2 i = sy_events S1 i @ ev" by auto
      note old = step.IH [OF actor_acts(2)]
      show ?thesis
      proof (cases "sy_events S1 i = []")
        case True
        with wire_system.framedD(3) [OF fr actor_acts(2)] \<open>i = j\<close> first_step [OF laws actor_acts(3)] old S2 show ?thesis by auto
      next
        case False
        with first_offer_more old \<open>i = j\<close> S2 show ?thesis by auto
      qed
    qed (use actor_acts step.prems step.IH in auto)
  qed
qed

end
