(* ===== verification/Test_Mux.thy ===== *)
theory Test_Mux
  imports Test_Send First_Write
begin

text \<open>
  The tests of \<open>src/lib.rs\<close>: a client opens connections on a \<open>MuxPipe\<close>, writes to each, flushes and shuts down; the server accepts them from
  a \<open>MuxListener\<close> and reads each to its end. This theory models the tests and the calls they await, and shows what is read.
\<close>

section \<open>The tests\<close>

definition unwrap :: "'e + 'a \<Rightarrow> 'a run" where
  "unwrap r = (case r of Inl e \<Rightarrow> Panicked | Inr x \<Rightarrow> Done x)"

definition byte_string :: "string \<Rightarrow> byte list" where
  "byte_string s = map of_char s"

definition dummy_addr :: "(string \<Rightarrow> 'e + std_socket_addr) \<Rightarrow> socket_addr run" where
  "dummy_addr parse = unwrap (SocketAddr_from_str parse ''127.0.0.1:12345'')"

text \<open>What a client awaits after \<open>add_connection\<close>: the closure \<open>handle\<close>, and the client of the first test with its bytes.\<close>

definition handle :: "byte list \<Rightarrow> send_op list" where
  "handle bytes = [SendAll bytes, SendFlush, SendShutdown]"

definition accept_test_client :: "send_op list" where
  "accept_test_client = [SendAll (byte_string ''hello world''), SendFlush, SendShutdown]"

text \<open>
  The calls that the server awaits, each run to completion while everything else goes on: \<open>accept\<close>, and tokio's \<open>read_to_end\<close>, which
  appends to a vector and returns how many bytes it has read.
\<close>

record ('s, 'c) await_api =
  aw_accept :: "'s \<Rightarrow> 'c io_result \<times> 's"
  aw_read_to_end :: "'c \<Rightarrow> byte list \<Rightarrow> 's \<Rightarrow> nat io_result \<times> byte list \<times> 's"

text \<open>\<open>assert_eq!(&buf[..n], expected)\<close>\<close>

definition assert_slice :: "byte list \<Rightarrow> nat \<Rightarrow> byte list \<Rightarrow> unit run" where
  "assert_slice buf n expected = (if length buf < n then Panicked else if take n buf \<noteq> expected then Panicked else Done ())"

definition accept_test_server :: "('s, ('g, 'f) mux_connection) await_api \<Rightarrow> 's \<Rightarrow> unit run \<times> 's" where
  "accept_test_server aw s =
     (case aw_accept aw s of
        (Inl e, s1) \<Rightarrow> (Panicked, s1)
      | (Inr conn, s1) \<Rightarrow>
          (case aw_read_to_end aw conn [] s1 of
             (Inl e, buf, s2) \<Rightarrow> (Panicked, s2)
           | (Inr n, buf, s2) \<Rightarrow> (assert_slice buf n (byte_string ''hello world''), s2)))"

definition match_connections ::
  "socket_addr \<Rightarrow> socket_addr \<Rightarrow> ('g, 'f) mux_connection \<Rightarrow> ('g, 'f) mux_connection \<Rightarrow> (('g, 'f) mux_connection \<times> ('g, 'f) mux_connection) run" where
  "match_connections a1 a2 conn1 conn2 =
     (if MuxConnection_addr conn1 = a1 \<and> MuxConnection_addr conn2 = a2 then Done (conn1, conn2)
      else if MuxConnection_addr conn1 = a2 \<and> MuxConnection_addr conn2 = a1 then Done (conn2, conn1)
      else Panicked)"

text \<open>A read to the end and the assertion on it, with \<open>?\<close> on an error.\<close>

definition read_and_assert ::
  "('s, 'c) await_api \<Rightarrow> 'c \<Rightarrow> byte list \<Rightarrow> 's \<Rightarrow> unit io_result run \<times> 's" where
  "read_and_assert aw conn expected s =
     (case aw_read_to_end aw conn [] s of
        (Inl e, buf, s') \<Rightarrow> (Done (Inl e), s')
      | (Inr n, buf, s') \<Rightarrow> (case assert_slice buf n expected of Done u \<Rightarrow> Done (Inr ()) | Panicked \<Rightarrow> Panicked | Undefined \<Rightarrow> Undefined, s'))"

definition multiple_test_server ::
  "('s, ('g, 'f) mux_connection) await_api \<Rightarrow> socket_addr \<Rightarrow> socket_addr \<Rightarrow> 's \<Rightarrow> unit io_result run \<times> 's" where
  "multiple_test_server aw a1 a2 s =
     (case aw_accept aw s of
        (Inl e, s1) \<Rightarrow> (Done (Inl e), s1)
      | (Inr c1, s1) \<Rightarrow>
          (case aw_accept aw s1 of
             (Inl e, s2) \<Rightarrow> (Done (Inl e), s2)
           | (Inr c2, s2) \<Rightarrow>
               (case match_connections a1 a2 c1 c2 of
                  Panicked \<Rightarrow> (Panicked, s2)
                | Undefined \<Rightarrow> (Undefined, s2)
                | Done (conn1, conn2) \<Rightarrow>
                    (case read_and_assert aw conn1 (byte_string ''first connection'') s2 of
                       (Done (Inr u), s3) \<Rightarrow> read_and_assert aw conn2 (byte_string ''second connection'') s3
                     | (r, s3) \<Rightarrow> (r, s3)))))"

section \<open>What the awaited calls do\<close>

text \<open>
  While \<open>accept\<close> is awaited the listening end makes its steps, none of which reads from a connection, until a poll of the future is ready;
  while \<open>read_to_end\<close> is awaited, reads of this connection return the bytes \<open>bs\<close>, until one with room in its buffer returns none.
\<close>

definition accept_awaited where
  "accept_awaited B A X u l view src sent handed R conn R' \<longleftrightarrow>
     (\<exists>R1 fut cx fut' s' w' wk. (listen_step B A X u view src sent handed {})\<^sup>*\<^sup>* R R1 \<and> rs_taken R1 = rs_taken R \<and>
        MuxListener_accept B A X u l fut (rs_reader R1) cx (rs_world R1) = Some (Done (Ready (Inr conn)), fut', s', w', wk) \<and>
        R' = R1\<lparr>rs_reader := s', rs_world := w'\<rparr>)"

definition end_awaited where
  "end_awaited B A X u view src sent handed conn bs R R' \<longleftrightarrow>
     (\<exists>R1 arc b cx s' b' w' wk. (listen_step B A X u view src sent handed {})\<^sup>*\<^sup>* R R1 \<and>
        rs_taken R1 = (rs_taken R)(ri_entry (mc_read conn) := rs_taken R (ri_entry (mc_read conn)) @ bs) \<and>
        lr_heap (rs_reader R1) (ri_entry (mc_read conn)) = Some arc \<and> 0 < ae_strong arc \<and> rb_ok (view b) \<and> v_filled (view b) < v_cap (view b) \<and>
        MuxConnection_poll_read B A conn (rs_reader R1) cx b (rs_world R1) = Some (Done (Ready (Inr ())), s', b', w', wk) \<and>
        rb_contents (view b') = rb_contents (view b) \<and> R' = R1\<lparr>rs_reader := s', rs_world := w'\<rparr>)"

definition await_laws where
  "await_laws B A X u l view src sent handed aw \<longleftrightarrow>
     (\<forall>R conn R'. aw_accept aw R = (Inr conn, R') \<longrightarrow> accept_awaited B A X u l view src sent handed R conn R') \<and>
     (\<forall>conn buf R n buf' R'. aw_read_to_end aw conn buf R = (Inr n, buf', R') \<longrightarrow>
        (\<exists>bs. end_awaited B A X u view src sent handed conn bs R R' \<and> buf' = buf @ bs \<and> n = length bs))"

section \<open>What is read\<close>

lemma end_run:
  assumes "end_awaited B A X u view src sent handed conn bs R R'"
  obtains R1 arc b cx s' b' w' wk where "(listen_step B A X u view src sent handed {})\<^sup>*\<^sup>* R R1"
    and "(listen_step B A X u view src sent handed {})\<^sup>*\<^sup>* R1 R'" and "rs_taken R' = rs_taken R1"
    and "rs_taken R1 = (rs_taken R)(ri_entry (mc_read conn) := rs_taken R (ri_entry (mc_read conn)) @ bs)"
    and "lr_heap (rs_reader R1) (ri_entry (mc_read conn)) = Some arc" "0 < ae_strong arc" "rb_ok (view b)" "v_filled (view b) < v_cap (view b)"
    and "MuxConnection_poll_read B A conn (rs_reader R1) cx b (rs_world R1) = Some (Done (Ready (Inr ())), s', b', w', wk)"
    and "rb_contents (view b') = rb_contents (view b)"
proof -
  from assms obtain R1 arc b cx s' b' w' wk where R1: "(listen_step B A X u view src sent handed {})\<^sup>*\<^sup>* R R1"
    "rs_taken R1 = (rs_taken R)(ri_entry (mc_read conn) := rs_taken R (ri_entry (mc_read conn)) @ bs)"
    "lr_heap (rs_reader R1) (ri_entry (mc_read conn)) = Some arc" "0 < ae_strong arc" "rb_ok (view b)" "v_filled (view b) < v_cap (view b)"
    "MuxConnection_poll_read B A conn (rs_reader R1) cx b (rs_world R1) = Some (Done (Ready (Inr ())), s', b', w', wk)"
    "rb_contents (view b') = rb_contents (view b)" "R' = R1\<lparr>rs_reader := s', rs_world := w'\<rparr>"
    unfolding end_awaited_def by blast
  have "read_step B A view {} R1 (R1\<lparr>rs_reader := s', rs_world := w',
      rs_taken := (rs_taken R1)(ri_entry (mc_read conn) := rs_taken R1 (ri_entry (mc_read conn)) @ [])\<rparr>)"
    using R1(7,8) by (intro read_conn [where view = view and buf = b and buf' = b' and r = "Ready (Inr ())" and cx = cx and wk = wk, OF R1(3-6)]) (simp_all add: MuxConnection_poll_read_def)
  then have "listen_step B A X u view src sent handed {} R1 R'" by (intro reader_step) (simp add: R1(9))
  then show ?thesis by (intro that [OF R1(1) _ _ R1(2-8)]) (simp_all add: R1(9))
qed

text \<open>A client that ran \<open>handle\<close> has had all its bytes accepted by its one write.\<close>

lemma writes_all_once:
  assumes "writes_all data es" and "data \<noteq> []" and "length data \<le> 65535" and "first_offer es c"
  obtains waits where "es = [(data, Ready (Inr (length data)), waits)]"
  using assms(1)
proof cases
  case (offer_taken k es' waits)
  with assms(3,4) have "k = length data" by simp
  with offer_taken have "writes_all [] es'" by simp
  then have "es' = []" by cases auto
  with offer_taken \<open>k = length data\<close> that show ?thesis by simp
qed (use assms in auto)

lemma handled:
  assumes laws: "wire_laws W m wire holder rest" and run: "(sys_step (actor_step W) (fresh_actor m))\<^sup>*\<^sup>* (sys_start w) S"
    and start: "wire w = []" "holder w = None" and c: "sy_actors S i = Some c"
    and data: "sends (handle data) (sy_events S i)" "data \<noteq> []" "length data \<le> 65535" and acc: "accepted (sy_events S i) g"
  shows "g = data"
proof -
  from data(1) have "writes_all data (sy_events S i)" unfolding handle_def by (auto elim!: sends.cases)
  from writes_all_once [OF this data(2,3) first_offers [OF laws start run c]] obtain waits
    where es: "sy_events S i = [(data, Ready (Inr (length data)), waits)]" .
  from acc show ?thesis unfolding es by (cases rule: accepted.cases) (auto dest: accepted_NilD)
qed

text \<open>The connection was returned by \<open>accept\<close> on the way to this state.\<close>

definition was_accepted where
  "was_accepted B A X u l view src sent handed v conn Q \<longleftrightarrow>
     (\<exists>R1 fut cx fut' s' w' wk. (listen_step B A X u view src sent handed {})\<^sup>*\<^sup>* (read_start v) R1 \<and>
        MuxListener_accept B A X u l fut (rs_reader R1) cx (rs_world R1) = Some (Done (Ready (Inr conn)), fut', s', w', wk) \<and>
        (listen_step B A X u view src sent handed {})\<^sup>*\<^sup>* (R1\<lparr>rs_reader := s', rs_world := w'\<rparr>) Q)"

lemma was_acceptedI:
  assumes "(listen_step B A X u view src sent handed {})\<^sup>*\<^sup>* (read_start v) R" and "accept_awaited B A X u l view src sent handed R conn R'"
  shows "was_accepted B A X u l view src sent handed v conn R'" and "rs_taken R' = rs_taken R"
  using assms unfolding was_accepted_def accept_awaited_def by (blast intro: rtranclp_trans, auto)

lemma was_accepted_later:
  "was_accepted B A X u l view src sent handed v conn Q \<Longrightarrow> (listen_step B A X u view src sent handed {})\<^sup>*\<^sup>* Q R \<Longrightarrow>
    was_accepted B A X u l view src sent handed v conn R"
  unfolding was_accepted_def by (blast intro: rtranclp_trans)

lemma was_accepted_run:
  assumes "was_accepted B A X u l view src sent handed v conn Q"
  shows "(listen_step B A X u view src sent handed {})\<^sup>*\<^sup>* (read_start v) Q"
proof -
  from assms obtain R1 fut cx fut' s' w' wk where R1: "(listen_step B A X u view src sent handed {})\<^sup>*\<^sup>* (read_start v) R1"
    and acc: "MuxListener_accept B A X u l fut (rs_reader R1) cx (rs_world R1) = Some (Done (Ready (Inr conn)), fut', s', w', wk)"
    and R2: "(listen_step B A X u view src sent handed {})\<^sup>*\<^sup>* (R1\<lparr>rs_reader := s', rs_world := w'\<rparr>) Q"
    unfolding was_accepted_def by blast
  have "listen_step B A X u view src sent handed {} R1 (R1\<lparr>rs_reader := s', rs_world := w'\<rparr>)" by (rule accept_step [OF acc]) simp
  with R1 R2 show ?thesis by (meson rtranclp.rtrancl_into_rtrancl rtranclp_trans)
qed

lemma accept_awaited_run:
  assumes "accept_awaited B A X u l view src sent handed R conn R'"
  shows "(listen_step B A X u view src sent handed {})\<^sup>*\<^sup>* R R'"
proof -
  from assms obtain R1 fut cx fut' s' w' wk where run: "(listen_step B A X u view src sent handed {})\<^sup>*\<^sup>* R R1"
    and acc: "MuxListener_accept B A X u l fut (rs_reader R1) cx (rs_world R1) = Some (Done (Ready (Inr conn)), fut', s', w', wk)"
    and R': "R' = R1\<lparr>rs_reader := s', rs_world := w'\<rparr>"
    unfolding accept_awaited_def by blast
  have "listen_step B A X u view src sent handed {} R1 R'" unfolding R' by (rule accept_step [OF acc]) simp
  with run show ?thesis by (rule rtranclp.rtrancl_into_rtrancl)
qed

text \<open>Its address is that of a writer of the other end.\<close>

lemma was_accepted_addr:
  fixes Q :: "('l, 'v) read_sys"
  assumes fr: "wire_system.framed wire holder m rest F fs S"
    and reader: "reader_laws B A view src" "budget_laws A fuel" "listener_stays A" "channel_laws A X sent handed" "recv_laws X src"
    and start: "src v = []" "sent v = []" and Q: "was_accepted B A X u l view src sent handed v conn Q"
    and lag: "prefix (src (rs_world Q)) (wire (sy_world S))"
  shows "\<exists>j d. sy_actors S j = Some d \<and> actor_addr d = MuxConnection_addr conn"
proof (rule ccontr)
  let ?b = "MuxConnection_addr conn"
  assume "\<nexists>j d. sy_actors S j = Some d \<and> actor_addr d = ?b"
  then have none: "\<forall>j d. sy_actors S j = Some d \<longrightarrow> actor_addr d \<noteq> ?b" by blast
  from Q obtain R1 fut cx fut' s' w' wk where R1: "(listen_step B A X u view src sent handed {})\<^sup>*\<^sup>* (read_start v) R1"
    and acc: "MuxListener_accept B A X u l fut (rs_reader R1) cx (rs_world R1) = Some (Done (Ready (Inr conn)), fut', s', w', wk)"
    and R2: "(listen_step B A X u view src sent handed {})\<^sup>*\<^sup>* (R1\<lparr>rs_reader := s', rs_world := w'\<rparr>) Q"
    unfolding was_accepted_def by blast
  have "listen_step B A X u view src sent handed {} R1 (R1\<lparr>rs_reader := s', rs_world := w'\<rparr>)" by (rule accept_step [OF acc]) simp
  then have "(listen_step B A X u view src sent handed {})\<^sup>*\<^sup>* R1 Q" using R2 by (rule converse_rtranclp_into_rtranclp)
  then have "prefix (src (rs_world R1)) (wire (sy_world S))"
    using listen_run_prefix(2) [OF reader _ start(2) R1] lag prefix_order.trans by blast
  from accepted_known [OF fr none reader _ start R1 this] accept_message(1,2) [OF reader(4,5) acc]
  show False by (metis empty_iff fst_conv nth_mem)
qed

lemma conn_read_to_end:
  fixes Q R :: "('l, 'v) read_sys"
  assumes laws: "wire_laws W m wire holder rest" and run: "(sys_step (actor_step W) (fresh_actor m))\<^sup>*\<^sup>* (sys_start w) S"
    and start: "wire w = []" "holder w = None"
    and c: "sy_actors S i = Some c" "actor_addr c = a" "actor_shook c = Some True" "\<not> actor_dropped c"
    and only: "\<forall>j d. sy_actors S j = Some d \<longrightarrow> actor_addr d = a \<longrightarrow> j = i"
    and data: "sends (handle data) (sy_events S i)" "data \<noteq> []" "length data \<le> 65535"
    and reader: "reader_laws B A view src" "budget_laws A fuel" "listener_stays A" "channel_laws A X sent handed" "recv_laws X src"
    and start': "src v = []" "sent v = []"
    and a: "MuxConnection_addr conn = a" and Q: "was_accepted B A X u l view src sent handed v conn Q"
    and read: "end_awaited B A X u view src sent handed conn bs Q R"
    and lag: "prefix (src (rs_world R)) (wire (sy_world S))"
  shows "rs_taken Q (ri_entry (mc_read conn)) @ bs = data"
proof -
  obtain F fs where fr: "wire_system.framed wire holder m rest F fs S" by (rule writers_framed [OF laws run start])
  from Q obtain R1 fut cx fut' s' w' wk where run1: "(listen_step B A X u view src sent handed {})\<^sup>*\<^sup>* (read_start v) R1"
    and acc: "MuxListener_accept B A X u l fut (rs_reader R1) cx (rs_world R1) = Some (Done (Ready (Inr conn)), fut', s', w', wk)"
    and run2: "(listen_step B A X u view src sent handed {})\<^sup>*\<^sup>* (R1\<lparr>rs_reader := s', rs_world := w'\<rparr>) Q"
    unfolding was_accepted_def by blast
  from read obtain R2 arc b cx2 s2 b' w2 wk2 where R2: "(listen_step B A X u view src sent handed {})\<^sup>*\<^sup>* Q R2"
    "(listen_step B A X u view src sent handed {})\<^sup>*\<^sup>* R2 R"
    "rs_taken R2 = (rs_taken Q)(ri_entry (mc_read conn) := rs_taken Q (ri_entry (mc_read conn)) @ bs)"
    and eof: "lr_heap (rs_reader R2) (ri_entry (mc_read conn)) = Some arc" "0 < ae_strong arc" "rb_ok (view b)" "v_filled (view b) < v_cap (view b)"
    "MuxConnection_poll_read B A conn (rs_reader R2) cx2 b (rs_world R2) = Some (Done (Ready (Inr ())), s2, b', w2, wk2)"
    "rb_contents (view b') = rb_contents (view b)"
    by (rule end_run)
  have other: "a \<notin> {}" by simp
  note to2 = rtranclp_trans [OF run2 R2(1)]
  have "prefix (src (rs_world R2)) (src (rs_world R))"
    by (rule listen_run_prefix(2) [OF reader other start'(2) rtranclp_trans [OF was_accepted_run [OF Q] R2(1)] R2(2)])
  then have lag2: "prefix (src (rs_world R2)) (wire (sy_world S))" using lag by (rule prefix_order.trans)
  from accepted_eof [OF fr c(1-3) only reader other start' run1 acc a to2 lag2 eof] c(4)
  have "accepted (sy_events S i) (rs_taken R2 (ri_entry (mc_read conn)))" by auto
  from handled [OF laws run start c(1) data this] R2(3) show ?thesis by simp
qed

end
