(* ===== verification/Mux_Run.thy ===== *)
theory Mux_Run
  imports Delivery_Sample
begin

text \<open>
  Whole sessions on the sample streams, for any address and payload: a connection that shakes hands, writes, flushes, shuts down and is dropped, the reader
  that takes its frames, and the connection that is read to its end.
\<close>

section \<open>A session of the writing end\<close>

abbreviation (input) lb_step where
  "lb_step \<equiv> sys_step (actor_step loopback) (fresh_actor 0)"

lemma session_run:
  assumes new: "sy_actors S i = None" and w: "sy_world S = lb_sent F" and p: "p \<noteq> []" "length p \<le> 65535"
  shows "lb_step\<^sup>*\<^sup>* S (S\<lparr>sy_actors := (sy_actors S)(i \<mapsto> ActGone True a), sy_world := lb_sent (F @ frames [(a, []), (a, p), (a, [])]),
    sy_events := (sy_events S)(i := [(p, Ready (Inr (length p)), False)])\<rparr>)"
proof -
  let ?S = "\<lambda>c w es. S\<lparr>sy_actors := (sy_actors S)(i \<mapsto> c), sy_world := w, sy_events := (sy_events S)(i := es)\<rparr>"
  let ?b = "PacketBuffer_init uninit_packet a" and ?e = "[(p, Ready (Inr (length p)), False)] :: offer list"
  let ?F1 = "F @ frame a []" and ?F2 = "(F @ frame a []) @ frame a p" and ?F3 = "((F @ frame a []) @ frame a p) @ frame a []"
  have act: "lb_step (?S c w es) (?S c' w' (es @ ev))" if "actor_step loopback c w ev c' w'" for c w es c' w' ev
    using sys_step.actor_acts [of "?S c w es" i c "actor_step loopback" ev c' w'] that by simp
  obtain n b where push: "PacketBuffer_push ?b p 0 = Done (n, b)" and n: "unat n = length p"
    and b: "pb_inv b" "payload b = p" "pb_socket_addr b = a"
    by (rule push_spec [OF fresh_packet(1), of uninit_packet a p 0]) (use p in \<open>auto simp: push_room_def\<close>)
  have "\<not> PacketBuffer_is_full ?b" by (simp add: is_full_payload)
  with push n p(1) have "poll_write_loop loopback (Task 1) Buffering (PollMutex_new 0) ?b p 0 w =
      Some (Done (Ready (Inr (length p))), Buffering, PollMutex_new 0, b, w)" for w
    by (subst poll_write_loop.simps, subst poll_write_loop.simps) simp
  then have wrote: "WriteInner_poll_write loopback (conn_with (Writing Noop Buffering) ?b) (Task 1) p w =
      Some (Done (Ready (Inr (length p))), conn_with (Writing (Task 1) Buffering) b, w)" for w
    by (simp add: WriteInner_poll_write_def PoisonOnPanic_new_def PoisonOnPanic_drop_def)
  have c: "pb_inv (PacketBuffer_clear b)" "payload (PacketBuffer_clear b) = []" "pb_socket_addr (PacketBuffer_clear b) = a"
    using b by simp_all
  have fresh: "fresh_actor 0 (ActNew (conn_with (Writing Noop Buffering) ?b))"
    by (auto simp: fresh_actor_def box_new_def WriteInner_init_def uninit_writer_def intro!: exI [of _ uninit_writer] exI [of _ a])
  have same: "S\<lparr>sy_actors := X, sy_world := lb_sent F, sy_events := Y\<rparr> = S\<lparr>sy_actors := X, sy_events := Y\<rparr>" for X Y
    by (rule sys.equality) (simp_all add: w)
  from sys_step.new_actor [of S i "fresh_actor 0", OF new fresh, of "actor_step loopback"]
  have 0: "lb_step S (?S (ActNew (conn_with (Writing Noop Buffering) ?b)) (lb_sent F) [])" unfolding same .
  note fp = fresh_packet(1) [of uninit_packet a] fresh_packet(2) [of uninit_packet a]
  have 1: "lb_step (?S (ActNew (conn_with (Writing Noop Buffering) ?b)) (lb_sent F) [])
      (?S (ActShake (conn_with (Writing Noop Buffering) ?b) (HandshakeLock (AwaitBorrowed ()))) (lb_sent F) [])"
    using act [where es = "[]", OF do_handshake [OF conn_handshake [OF fp, of "lb_sent F"]]] by simp
  have 2: "lb_step (?S (ActShake (conn_with (Writing Noop Buffering) ?b) (HandshakeLock (AwaitBorrowed ()))) (lb_sent F) [])
      (?S (ActConn True (conn_with (Writing Noop Buffering) ?b)) (lb_sent ?F1) [])"
    using act [where es = "[]", OF do_shaken [OF conn_shaken [OF fp, of "Writing Noop Buffering" F]]] by simp
  have 3: "lb_step (?S (ActConn True (conn_with (Writing Noop Buffering) ?b)) (lb_sent ?F1) [])
      (?S (ActConn True (conn_with (Writing (Task 1) Buffering) b)) (lb_sent ?F1) ?e)"
    using act [where es = "[]", OF do_write [OF wrote [of "lb_sent ?F1"], of True]] by (simp add: PollMutex_new_def)
  have 4: "lb_step (?S (ActConn True (conn_with (Writing (Task 1) Buffering) b)) (lb_sent ?F1) ?e)
      (?S (ActConn True (conn_with (Writing (Task 1) Buffering) (PacketBuffer_clear b))) (lb_sent ?F2) ?e)"
    using act [where es = ?e, OF do_flush [OF conn_flush [OF b(1), of "Task 1" ?F1], of True]] b p(1) by simp
  have 5: "lb_step (?S (ActConn True (conn_with (Writing (Task 1) Buffering) (PacketBuffer_clear b))) (lb_sent ?F2) ?e)
      (?S (ActConn True (conn_with (Shutdown ShutDone) (PacketBuffer_clear (PacketBuffer_clear b)))) (lb_sent ?F3) ?e)"
    using act [where es = ?e, OF do_shutdown [OF conn_shutdown [OF c(1,2), of ?F2], of True]] c(3) by simp
  have "WriteInner_drop loopback (conn_with (Shutdown ShutDone) (PacketBuffer_clear (PacketBuffer_clear b))) (lb_sent ?F3) = (Done None, lb_sent ?F3)"
    by (simp add: WriteInner_drop_def PollMutex_new_def drop_fut_opt_def drop_state_def Let_def)
  from act [where es = ?e, OF do_forget [OF this, of True]]
  have 6: "lb_step (?S (ActConn True (conn_with (Shutdown ShutDone) (PacketBuffer_clear (PacketBuffer_clear b)))) (lb_sent ?F3) ?e)
      (?S (ActGone True a) (lb_sent ?F3) ?e)"
    using b(3) by (simp add: WriteInner_addr_def PacketBuffer_addr_def)
  from 0 1 2 3 4 5 6 show ?thesis by (auto intro: rtranclp.rtrancl_into_rtrancl)
qed

section \<open>A session at the reading end\<close>

text \<open>The connection that a session leaves behind, with its bytes in the buffer.\<close>

definition arc_with :: "nat \<Rightarrow> byte list \<Rightarrow> arc_entry" where
  "arc_with weak p = \<lparr>ae_strong = 1, ae_weak = weak,
     ae_entry = \<lparr>reader_pipe_waker = Noop, waiting_waker = Task 1, re_buffer = conn_buffer p\<rparr>\<rparr>"

abbreviation (input) conn_at :: "socket_addr \<Rightarrow> (socket_addr \<times> reader_inner) locked_reader \<Rightarrow> socket_addr \<times> reader_inner" where
  "conn_at a s \<equiv> (a, \<lparr>ri_entry = lr_next s\<rparr>)"

abbreviation (input) with_conn ::
  "socket_addr \<Rightarrow> byte list \<Rightarrow> (socket_addr \<times> reader_inner) shared_reader_state \<Rightarrow> (socket_addr \<times> reader_inner) locked_reader \<Rightarrow>
     (socket_addr \<times> reader_inner) locked_reader" where
  "with_conn a p st s \<equiv> s\<lparr>lr_heap := (lr_heap s)(lr_next s \<mapsto> arc_with 1 p), lr_next := Suc (lr_next s),
     lr_map := (lr_map s)(a \<mapsto> lr_next s), lr_state := st\<rparr>"

abbreviation (input) after_session where
  "after_session p s \<equiv> s\<lparr>lr_heap := (lr_heap s)(lr_next s \<mapsto> arc_with 0 p), lr_next := Suc (lr_next s)\<rparr>"

abbreviation (input) sample_round where
  "sample_round s w \<equiv> ReaderMut_poll_once view_api (mock_api True) s (Task 1) w"

lemma opening_round:
  assumes "lr_state s = next_packet" and "lr_map s a = None"
  shows "sample_round s (feed (frame a [] @ rest) seen (20 # ks) n (ms, h)) =
    (Done (Ready (Inr ())), with_conn a [] (SendSocket (conn_at a s)) s, feed rest (seen @ frame a []) ks n (ms @ [conn_at a s], h), [])"
proof -
  have "ReadBuffer_new (r_alloc (mock_api True)) DEFAULT_BUFFER_CAPACITY w = (Inr (conn_buffer []), w)" for w
    by (simp add: ReadBuffer_new_def mock_api_def DEFAULT_BUFFER_CAPACITY_def ISIZE_MAX_def conn_buffer_def)
  then show ?thesis
    using assms
    by (subst mock_header_step [where h = "MuxFrameHeader_empty a" and rest = rest and ks = ks])
      (simp_all add: feed_def frame_empty packet_header_def MuxFrameHeader_addr_def MuxFrameHeader_len_def MuxFrameHeader_empty_def
        ReaderMut_insert_def mock_api_def arc_with_def Let_def)
qed

lemma sending_round:
  "lr_state s = SendSocket m \<Longrightarrow> sample_round s (feed left seen ks n out) =
    (Done (Ready (Inr ())), s\<lparr>lr_state := next_packet\<rparr>, feed left seen ks n out, [])"
  by (simp add: ReaderMut_poll_once_def feed_def mock_api_def ReaderMut_next_packet_def)

lemma header_round:
  assumes "lr_state s = next_packet" and p: "p \<noteq> []" "length p \<le> 100"
  shows "sample_round s (feed (frame a p @ rest) seen (20 # ks) n out) =
    (Done (Ready (Inr ())), s\<lparr>lr_state := Read a (of_nat (length p))\<rparr>, feed (p @ rest) (seen @ take 20 (frame a p)) ks n out, [])"
proof -
  have "unat (of_nat (length p) :: u16) = length p" using p(2) by (simp add: unat_of_nat)
  then have ne: "(of_nat (length p) :: u16) \<noteq> 0" using p(1) by (metis length_0_conv unat_0)
  show ?thesis
    by (subst mock_header_step [where h = "\<lparr>socket = a, len = NetworkOrderU16_new (of_nat (length p))\<rparr>" and rest = "p @ rest" and ks = ks])
      (use assms(1) ne in \<open>simp_all add: feed_def frame_def packet_header_def MuxFrameHeader_addr_def MuxFrameHeader_len_def ReaderMut_read_def Let_def\<close>)
qed

lemma body_round:
  assumes st: "lr_state s = Read a (of_nat (length p))" and p: "p \<noteq> []" "length p \<le> 100"
    and i: "lr_map s a = Some i" "lr_heap s i = Some (arc_with 1 [])"
  shows "sample_round s (feed (p @ rest) seen (length p # ks) n out) =
    (Done (Ready (Inr ())), s\<lparr>lr_heap := (lr_heap s)(i \<mapsto> arc_with 1 p), lr_state := next_packet\<rparr>, feed rest (seen @ p) ks n out, [Noop])"
proof -
  have u: "unat (of_nat (length p) :: u16) = length p" using p(2) by (simp add: unat_of_nat)
  have "ReadBuffer_fill_buffer view_api (conn_buffer []) (Task 1) (mock_read (Some (length p))) (feed (p @ rest) seen (length p # ks) n out) =
      (Done (Ready (Inr (Some (length p)))), conn_buffer p, feed rest (seen @ p) ks n out)"
    using p by (simp add: ReadBuffer_fill_buffer_def ReadBuffer_readbuf_def conn_buffer_def mock_read_def mock_take_def feed_def
        DEFAULT_BUFFER_CAPACITY_def Let_def)
  then show ?thesis
    using st i p u
    by (simp add: ReaderMut_poll_once_def ReaderMut_poll_read_def upgrade_def put_entry_def arc_with_def read_finish_def
        ReaderMut_next_packet_def Let_def)
qed

lemma closing_round:
  assumes "lr_state s = next_packet" and "lr_map s a = Some i" and "lr_heap s i = Some (arc_with 1 p)"
  shows "sample_round s (feed (frame a [] @ rest) seen (20 # ks) n out) =
    (Done (Ready (Inr ())), s\<lparr>lr_heap := (lr_heap s)(i \<mapsto> arc_with 0 p), lr_map := (lr_map s)(a := None)\<rparr>,
      feed rest (seen @ frame a []) ks n out, [Noop])"
  using assms
  by (subst mock_header_step [where h = "MuxFrameHeader_empty a" and rest = rest and ks = ks])
    (simp_all add: feed_def frame_empty packet_header_def MuxFrameHeader_addr_def MuxFrameHeader_len_def MuxFrameHeader_empty_def
      ReaderMut_remove_def upgrade_def drop_weak_def weak_count_def ReaderMut_next_packet_def arc_with_def Let_def)

lemma feed_budget: "r_consume_budget (mock_api True) cx (feed left seen ks (Suc n) out) = (Ready (), feed left seen ks n out)"
  by (simp add: feed_def)

text \<open>Five rounds of the loop.\<close>

lemma session_poll:
  assumes st: "lr_state s = next_packet" "lr_map s a = None" and p: "p \<noteq> []" "length p \<le> 100"
  shows "ReaderMut_poll view_api (mock_api True) s (Task 1)
      (feed (frames [(a, []), (a, p), (a, [])] @ rest) seen (20 # 20 # length p # 20 # ks) (Suc (Suc (Suc (Suc (Suc n))))) (ms, h)) wk =
    ReaderMut_poll view_api (mock_api True) (after_session p s) (Task 1)
      (feed rest (seen @ frames [(a, []), (a, p), (a, [])]) ks n (ms @ [conn_at a s], h)) (wk @ [Noop, Noop])"
proof -
  let ?p = "\<lambda>s w wk. ReaderMut_poll view_api (mock_api True) s (Task 1) w wk" and ?out = "(ms @ [conn_at a s], h)"
  let ?s1 = "with_conn a [] (SendSocket (conn_at a s)) s" and ?s2 = "with_conn a [] next_packet s"
  let ?s3 = "with_conn a [] (Read a (of_nat (length p))) s" and ?s4 = "with_conn a p next_packet s"
  let ?seen2 = "(seen @ frame a []) @ take 20 (frame a p)" and ?d = "frame a p @ frame a [] @ rest"
  have 2: "sample_round ?s1 (feed left seen ks n out) = (Done (Ready (Inr ())), ?s2, feed left seen ks n out, [])" for left seen ks n out
    using sending_round [of ?s1 "conn_at a s"] by simp
  have 3: "sample_round ?s2 (feed (frame a p @ rest) seen (20 # ks) n out) =
      (Done (Ready (Inr ())), ?s3, feed (p @ rest) (seen @ take 20 (frame a p)) ks n out, [])" for rest seen ks n out
    using header_round [of ?s2 p a rest seen ks n out] p by simp
  have 4: "sample_round ?s3 (feed (p @ rest) seen (length p # ks) n out) = (Done (Ready (Inr ())), ?s4, feed rest (seen @ p) ks n out, [Noop])"
    for rest seen ks n out
    using body_round [of ?s3 a p "lr_next s" rest seen ks n out] p by simp
  have 5: "sample_round ?s4 (feed (frame a [] @ rest) seen (20 # ks) n out) =
      (Done (Ready (Inr ())), after_session p s, feed rest (seen @ frame a []) ks n out, [Noop])" for rest seen ks n out
    using closing_round [of ?s4 a "lr_next s" p rest seen ks n out] st by (simp add: fun_upd_idem)
  have "?p s (feed (frame a [] @ ?d) seen (20 # 20 # length p # 20 # ks) (Suc (Suc (Suc (Suc (Suc n))))) (ms, h)) wk =
      ?p ?s1 (feed ?d (seen @ frame a []) (20 # length p # 20 # ks) (Suc (Suc (Suc (Suc n)))) ?out) (wk @ [])"
    by (rule reader_poll_continue [OF opening_round [OF st] feed_budget])
  also have "\<dots> = ?p ?s2 (feed ?d (seen @ frame a []) (20 # length p # 20 # ks) (Suc (Suc (Suc n))) ?out) ((wk @ []) @ [])"
    by (rule reader_poll_continue [OF 2 feed_budget])
  also have "\<dots> = ?p ?s3 (feed (p @ frame a [] @ rest) ?seen2 (length p # 20 # ks) (Suc (Suc n)) ?out) (((wk @ []) @ []) @ [])"
    by (rule reader_poll_continue [OF 3 feed_budget])
  also have "\<dots> = ?p ?s4 (feed (frame a [] @ rest) (?seen2 @ p) (20 # ks) (Suc n) ?out) ((((wk @ []) @ []) @ []) @ [Noop])"
    by (rule reader_poll_continue [OF 4 feed_budget])
  also have "\<dots> = ?p (after_session p s) (feed rest ((?seen2 @ p) @ frame a []) ks n ?out) (((((wk @ []) @ []) @ []) @ [Noop]) @ [Noop])"
    by (rule reader_poll_continue [OF 5 feed_budget])
  finally show ?thesis by (simp add: frame_def)
qed

section \<open>Reading a connection to its end\<close>

definition drained_arc :: "byte list \<Rightarrow> arc_entry" where
  "drained_arc p = (arc_with 0 p)\<lparr>ae_entry := (ae_entry (arc_with 0 p))\<lparr>re_buffer := (conn_buffer p)\<lparr>rd_filled := 0\<rparr>\<rparr>\<rparr>"

definition room :: rb_view where
  "room = \<lparr>v_mem = Map.empty, v_cap = 200, v_filled = 0, v_init = 0\<rparr>"

definition room_with :: "byte list \<Rightarrow> rb_view" where
  "room_with p = \<lparr>v_mem = mem_write Map.empty 0 p, v_cap = 200, v_filled = length p, v_init = length p\<rparr>"

lemma take_all:
  assumes "p \<noteq> []" and "length p \<le> 100"
  shows "ReadBuffer_read view_api (conn_buffer p) room = Done ((conn_buffer p)\<lparr>rd_filled := 0\<rparr>, room_with p)"
proof -
  have "ReadBuffer_bytes (conn_buffer p) = Done p" by (simp add: ReadBuffer_bytes_def conn_buffer_def)
  with assms show ?thesis
    by (simp add: ReadBuffer_read_def ReadBuffer_advance_def room_def room_with_def view_api_def Let_def) (simp add: conn_buffer_def)
qed

lemma reading_all:
  assumes "p \<noteq> []" and "length p \<le> 100" and "lr_heap s (ri_entry rd) = Some (arc_with 0 p)"
  shows "ReaderInner_poll_read view_api (mock_api True) rd s (Task 1) room w =
    Some (Done (Ready (Inr ())), s\<lparr>lr_heap := (lr_heap s)(ri_entry rd \<mapsto> drained_arc p)\<rparr>, room_with p, w, [Task 1])"
proof -
  have "rb_remaining view_api room = 200" by (simp add: room_def)
  moreover have "rb_remaining view_api (room_with p) \<noteq> 200"
    using assms(1,2) by (cases p) (simp_all add: room_with_def)
  ultimately show ?thesis
    using take_all [OF assms(1,2)] assms(3)
    by (simp add: ReaderInner_poll_read_def arc_with_def put_entry_def drained_arc_def Let_def del: view_api_simps)
qed

lemma reading_end:
  assumes "lr_heap s (ri_entry rd) = Some (drained_arc p)"
  shows "ReaderInner_poll_read view_api (mock_api True) rd s (Task 1) room w = Some (Done (Ready (Inr ())), s, room, w, [])"
proof -
  have "ReadBuffer_read view_api ((conn_buffer p)\<lparr>rd_filled := 0\<rparr>) room = Done ((conn_buffer p)\<lparr>rd_filled := 0\<rparr>, room)"
    by (simp add: ReadBuffer_read_def ReadBuffer_bytes_def conn_buffer_def)
  with assms show ?thesis
    by (simp add: ReaderInner_poll_read_def drained_arc_def arc_with_def put_entry_def weak_count_def Let_def fun_upd_idem)
qed

end
