(* ===== verification/Test_Mux_Props.thy ===== *)
theory Test_Mux_Props
  imports Delivery_Props Test_Mux Mux_Run
begin

text \<open>
  The tests of \<open>src/lib.rs\<close> pass, however the tasks of both sides and the network are interleaved; with runs of them on
  the sample streams.
\<close>

section \<open>The tests pass\<close>

lemma assert_slice_own: "assert_slice data (length data) data = Done ()"
  by (simp add: assert_slice_def)

lemma byte_string_facts: "length (byte_string s) = length s" "byte_string s = [] \<longleftrightarrow> s = []"
  by (simp_all add: byte_string_def)

text \<open>
  C25. \<open>test_mux_listener_accept_connection\<close> passes: when the client has opened one connection, written, flushed and shut down, then what the
  server accepts and reads to its end is \<open>hello world\<close>, whatever pieces the network moves and however the two sides are scheduled.
\<close>

theorem accept_test_passes:
  fixes v :: 'v and aw :: "(('l, 'v) read_sys, ('g, 'f) mux_connection) await_api"
  assumes "wire_laws W m wire holder rest" and "(sys_step (actor_step W) (fresh_actor m))\<^sup>*\<^sup>* (sys_start w) S"
    and "wire w = []" and "holder w = None"
    and "dummy_addr parse = Done a" and "sy_actors S = [i \<mapsto> c]" and "actor_addr c = a" and "actor_shook c = Some True"
    and "\<not> actor_dropped c" and "sends accept_test_client (sy_events S i)"
    and "reader_laws B A view src" and "budget_laws A fuel" and "listener_stays A" and "channel_laws A X sent handed" and "recv_laws X src"
    and "src v = []" and "sent v = []" and "await_laws B A X u l view src sent handed aw"
    and "aw_accept aw (read_start v) = (Inr conn, R1)" and "aw_read_to_end aw conn [] R1 = (Inr n, buf, R)"
    and "prefix (src (rs_world R)) (wire (sy_world S))"
  shows "accept_test_server aw (read_start v) = (Done (), R)"
proof -
  obtain F fs where fr: "wire_system.framed wire holder m rest F fs S" by (rule writers_framed [OF assms(1-4)])
  let ?data = "byte_string ''hello world''"
  have c: "sy_actors S i = Some c" "\<forall>j d. sy_actors S j = Some d \<longrightarrow> actor_addr d = a \<longrightarrow> j = i"
    using assms(6,7) by (simp_all split: if_splits)
  have data: "sends (handle ?data) (sy_events S i)" "?data \<noteq> []" "length ?data \<le> 65535"
    using assms(10) by (simp_all add: handle_def accept_test_client_def byte_string_facts)
  have "accept_awaited B A X u l view src sent handed (read_start v) conn R1" using assms(18,19) unfolding await_laws_def by blast
  note R1 = was_acceptedI [OF rtranclp.rtrancl_refl this]
  from assms(18,20) obtain bs where read: "end_awaited B A X u view src sent handed conn bs R1 R" and bs: "buf = [] @ bs" "n = length bs"
    unfolding await_laws_def by blast
  then have "(listen_step B A X u view src sent handed {})\<^sup>*\<^sup>* R1 R" by (auto elim!: end_run)
  note R = was_accepted_later [OF R1(1) this]
  have addr: "MuxConnection_addr conn = a"
    using was_accepted_addr [OF fr assms(11-17) R assms(21)] assms(6,7) by (auto split: if_splits)
  have "rs_taken R1 = (\<lambda>i. [])" using R1(2) by (simp add: read_start_def)
  with conn_read_to_end [OF assms(1-4) c(1) assms(7-9) c(2) data assms(11-17) addr R1(1) read assms(21)]
  have "bs = ?data" by simp
  with assms(19,20) bs show ?thesis by (simp add: accept_test_server_def assert_slice_own)
qed

text \<open>The two connections of the other test: different ones, with different addresses.\<close>

lemma two_accepted:
  fixes s1 s2 :: "('l, 'v) read_sys"
  assumes reader: "reader_laws B A view src" "budget_laws A fuel" "listener_stays A" "channel_laws A X sent handed" "recv_laws X src"
    and start: "src v = []" "sent v = []"
    and 1: "accept_awaited B A X u l view src sent handed (read_start v) conn1 s1"
    and 2: "accept_awaited B A X u l view src sent handed s1 conn2 s2"
  shows "ri_entry (mc_read conn1) \<noteq> ri_entry (mc_read conn2)"
    and "wire_system.framed wire holder m rest F fs S \<Longrightarrow> sy_actors S i = Some c \<Longrightarrow> actor_addr c = MuxConnection_addr conn1 \<Longrightarrow>
      actor_shook c = Some True \<Longrightarrow> \<forall>j d. sy_actors S j = Some d \<longrightarrow> actor_addr d = MuxConnection_addr conn1 \<longrightarrow> j = i \<Longrightarrow>
      prefix (src (rs_world s2)) (wire (sy_world S)) \<Longrightarrow> MuxConnection_addr conn2 \<noteq> MuxConnection_addr conn1"
proof -
  let ?step = "listen_step B A X u view src sent handed {}"
  from 1 obtain R1 fut1 cx1 fut1' t1 w1 wk1 where
    R1: "?step\<^sup>*\<^sup>* (read_start v) R1"
    and acc1: "MuxListener_accept B A X u l fut1 (rs_reader R1) cx1 (rs_world R1) = Some (Done (Ready (Inr conn1)), fut1', t1, w1, wk1)"
    and s1: "s1 = R1\<lparr>rs_reader := t1, rs_world := w1\<rparr>"
    unfolding accept_awaited_def by blast
  from 2 obtain R2 fut2 cx2 fut2' t2 w2 wk2 where
    R2: "?step\<^sup>*\<^sup>* (R1\<lparr>rs_reader := t1, rs_world := w1\<rparr>) R2"
    and acc2: "MuxListener_accept B A X u l fut2 (rs_reader R2) cx2 (rs_world R2) = Some (Done (Ready (Inr conn2)), fut2', t2, w2, wk2)"
    and s2: "s2 = R2\<lparr>rs_reader := t2, rs_world := w2\<rparr>"
    unfolding accept_awaited_def s1 by blast
  have last: "?step\<^sup>*\<^sup>* (R2\<lparr>rs_reader := t2, rs_world := w2\<rparr>) s2" by (simp add: s2)
  note differ = accepts_differ [OF reader _ start(2) R1 acc1 R2 acc2 last]
  show "ri_entry (mc_read conn1) \<noteq> ri_entry (mc_read conn2)" by (rule differ(1)) simp
  have "?step R2 s2" unfolding s2 by (rule accept_step [OF acc2]) simp
  with R2 have run: "?step\<^sup>*\<^sup>* (R1\<lparr>rs_reader := t1, rs_world := w1\<rparr>) s2" by (rule rtranclp.rtrancl_into_rtrancl)
  assume fr: "wire_system.framed wire holder m rest F fs S" and c: "sy_actors S i = Some c" "actor_addr c = MuxConnection_addr conn1"
      "actor_shook c = Some True" "\<forall>j d. sy_actors S j = Some d \<longrightarrow> actor_addr d = MuxConnection_addr conn1 \<longrightarrow> j = i"
    and lag: "prefix (src (rs_world s2)) (wire (sy_world S))"
  show "MuxConnection_addr conn2 \<noteq> MuxConnection_addr conn1"
    by (rule differ(2) [OF _ accepted_seen(3) [OF fr c reader _ start R1 acc1 refl run lag] refl]) simp_all
qed

lemma read_and_assert_cases:
  assumes laws: "await_laws B A X u l view src sent handed aw" and eq: "read_and_assert aw conn data Q = (r, R)"
  obtains (failed) e where "r = Done (Inl e)"
    | (read) bs where "end_awaited B A X u view src sent handed conn bs Q R" and "r = (if bs = data then Done (Inr ()) else Panicked)"
proof -
  obtain x buf R' where x: "aw_read_to_end aw conn [] Q = (x, buf, R')" by (metis prod_cases3)
  show ?thesis
  proof (cases x)
    case (Inl e)
    with eq x show ?thesis by (intro failed [of e]) (simp add: read_and_assert_def)
  next
    case (Inr n)
    with laws x obtain bs where bs: "end_awaited B A X u view src sent handed conn bs Q R'" "buf = bs" "n = length bs"
      unfolding await_laws_def by fastforce
    with eq x Inr show ?thesis by (intro read [of bs]) (auto simp: read_and_assert_def assert_slice_def)
  qed
qed

text \<open>Two connections that are read one after the other, each of which has the bytes that are expected of it.\<close>

lemma read_both:
  assumes laws: "await_laws B A X u l view src sent handed aw"
    and acc: "was_accepted B A X u l view src sent handed v conn1 Q" "was_accepted B A X u l view src sent handed v conn2 Q"
    and ne: "ri_entry (mc_read conn1) \<noteq> ri_entry (mc_read conn2)" and fresh: "rs_taken Q = (\<lambda>i. [])"
    and exp: "\<And>bs P R. was_accepted B A X u l view src sent handed v conn1 P \<Longrightarrow> end_awaited B A X u view src sent handed conn1 bs P R \<Longrightarrow>
        ok R \<Longrightarrow> rs_taken P (ri_entry (mc_read conn1)) @ bs = d1"
      "\<And>bs P R. was_accepted B A X u l view src sent handed v conn2 P \<Longrightarrow> end_awaited B A X u view src sent handed conn2 bs P R \<Longrightarrow>
        ok R \<Longrightarrow> rs_taken P (ri_entry (mc_read conn2)) @ bs = d2"
    and eq: "(case read_and_assert aw conn1 d1 Q of (Done (Inr u), s3) \<Rightarrow> read_and_assert aw conn2 d2 s3 | (r, s3) \<Rightarrow> (r, s3)) = (r, R)"
    and ok: "ok R"
  shows "r = Done (Inr ()) \<or> (\<exists>e. r = Done (Inl e))"
proof -
  obtain r1 s3 where 1: "read_and_assert aw conn1 d1 Q = (r1, s3)" by fastforce
  from laws 1 show ?thesis
  proof (cases rule: read_and_assert_cases)
    case (failed e)
    with eq 1 show ?thesis by auto
  next
    case (read bs)
    show ?thesis
    proof (cases "bs = d1")
      case False
      with eq 1 read have "s3 = R" by auto
      with exp(1) [OF acc(1) read(1)] ok fresh False show ?thesis by simp
    next
      case True
      with eq 1 read have 2: "read_and_assert aw conn2 d2 s3 = (r, R)" by simp
      from read(1) have run: "(listen_step B A X u view src sent handed {})\<^sup>*\<^sup>* Q s3" and taken: "rs_taken s3 (ri_entry (mc_read conn2)) = []"
        using ne fresh by (auto elim!: end_run)
      from laws 2 show ?thesis
      proof (cases rule: read_and_assert_cases)
        case (read bs2)
        from exp(2) [OF was_accepted_later [OF acc(2) run] read(1) ok] taken read(2) show ?thesis by simp
      qed simp
    qed
  qed
qed

text \<open>The addresses of the tests, as the standard library reads them.\<close>

definition parses_test_addrs :: "(string \<Rightarrow> 'e + std_socket_addr) \<Rightarrow> bool" where
  "parses_test_addrs parse \<longleftrightarrow> parse ''127.0.0.1:12345'' = Inr (SockV4 (Ipv4Addr 127 0 0 1) 12345) \<and>
     parse ''127.0.0.1:12346'' = Inr (SockV4 (Ipv4Addr 127 0 0 1) 12346)"

lemma test_addrs_differ:
  assumes "parses_test_addrs parse" and "dummy_addr parse = Done a1" and "SocketAddr_from_str parse ''127.0.0.1:12346'' = Inr a2"
  shows "a1 \<noteq> a2"
proof -
  from assms have "NetworkOrderU16_get (port a1) = 12345" "NetworkOrderU16_get (port a2) = 12346"
    by (auto simp: parses_test_addrs_def dummy_addr_def SocketAddr_from_str_def unwrap_def SocketAddr_from_std_def)
  then show ?thesis by auto
qed

text \<open>
  C6. \<open>test_mux_pipe_add_connection_multiple_times\<close>: with two connections open at once on one stream, each client task running \<open>handle\<close>, the server gets
  one connection of each address, in whichever order, so that \<open>unreachable!\<close> is not reached, and reads from each
  exactly the bytes of its client: it returns without a panic, with \<open>Ok\<close> unless one of its calls failed.
\<close>

theorem multiple_test_passes:
  fixes v :: 'v and aw :: "(('l, 'v) read_sys, ('g, 'f) mux_connection) await_api"
  assumes "wire_laws W m wire holder rest" and "(sys_step (actor_step W) (fresh_actor m))\<^sup>*\<^sup>* (sys_start w) S"
    and "wire w = []" and "holder w = None"
    and "parses_test_addrs parse" and "dummy_addr parse = Done a1" and "SocketAddr_from_str parse ''127.0.0.1:12346'' = Inr a2"
    and "sy_actors S = [i \<mapsto> c1, j \<mapsto> c2]" and "i \<noteq> j"
    and "actor_addr c1 = a1" and "actor_shook c1 = Some True" and "\<not> actor_dropped c1"
    and "sends (handle (byte_string ''first connection'')) (sy_events S i)"
    and "actor_addr c2 = a2" and "actor_shook c2 = Some True" and "\<not> actor_dropped c2"
    and "sends (handle (byte_string ''second connection'')) (sy_events S j)"
    and "reader_laws B A view src" and "budget_laws A fuel" and "listener_stays A" and "channel_laws A X sent handed" and "recv_laws X src"
    and "src v = []" and "sent v = []" and "await_laws B A X u l view src sent handed aw"
    and "multiple_test_server aw a1 a2 (read_start v) = (r, R)" and "prefix (src (rs_world R)) (wire (sy_world S))"
  shows "r = Done (Inr ()) \<or> (\<exists>e. r = Done (Inl e))"
proof -
  let ?step = "listen_step B A X u view src sent handed {}" and ?acc = "accept_awaited B A X u l view src sent handed"
  let ?was = "was_accepted B A X u l view src sent handed v"
  let ?d1 = "byte_string ''first connection''" and ?d2 = "byte_string ''second connection''"
  note reader = assms(18-22)
  obtain F fs where fr: "wire_system.framed wire holder m rest F fs S" by (rule writers_framed [OF assms(1-4)])
  have ne: "a1 \<noteq> a2" by (rule test_addrs_differ [OF assms(5-7)])
  have c1: "sy_actors S i = Some c1" "\<forall>k d. sy_actors S k = Some d \<longrightarrow> actor_addr d = a1 \<longrightarrow> k = i"
    and c2: "sy_actors S j = Some c2" "\<forall>k d. sy_actors S k = Some d \<longrightarrow> actor_addr d = a2 \<longrightarrow> k = j"
    using assms(8-10,14) ne by (auto split: if_splits)
  have d: "?d1 \<noteq> []" "length ?d1 \<le> 65535" "?d2 \<noteq> []" "length ?d2 \<le> 65535" by (simp_all add: byte_string_facts)
  note read1 = conn_read_to_end [OF assms(1-4) c1(1) assms(10-12) c1(2) assms(13) d(1,2) reader assms(23,24)]
  note read2 = conn_read_to_end [OF assms(1-4) c2(1) assms(14-16) c2(2) assms(17) d(3,4) reader assms(23,24)]
  show ?thesis
  proof (cases "fst (aw_accept aw (read_start v))")
    case (Inl e)
    with assms(26) show ?thesis by (auto simp: multiple_test_server_def split: prod.splits)
  next
    case (Inr conn1)
    then obtain s1 where ac1: "aw_accept aw (read_start v) = (Inr conn1, s1)" by (metis prod.collapse)
    show ?thesis
    proof (cases "fst (aw_accept aw s1)")
      case (Inl e)
      with assms(26) ac1 show ?thesis by (auto simp: multiple_test_server_def split: prod.splits)
    next
      case (Inr conn2)
      then obtain s2 where ac2: "aw_accept aw s1 = (Inr conn2, s2)" by (metis prod.collapse)
      have aw: "?acc (read_start v) conn1 s1" "?acc s1 conn2 s2" using ac1 ac2 assms(25) unfolding await_laws_def by blast+
      note w1 = was_acceptedI [OF rtranclp.rtrancl_refl aw(1)]
      note w2 = was_acceptedI [OF was_accepted_run [OF w1(1)] aw(2)]
      have w12: "?was conn1 s2" by (rule was_accepted_later [OF w1(1) accept_awaited_run [OF aw(2)]])
      have fresh: "rs_taken s2 = (\<lambda>i. [])" using w1(2) w2(2) by (simp add: read_start_def)
      note differ = two_accepted [OF reader assms(23,24) aw]
      have known: "MuxConnection_addr conn \<in> {a1, a2}" if "?was conn s2" "prefix (src (rs_world s2)) (wire (sy_world S))" for conn
        using was_accepted_addr [OF fr reader assms(23,24) that] assms(8-10,14) by (auto split: if_splits)
      consider (straight) "MuxConnection_addr conn1 = a1" "MuxConnection_addr conn2 = a2"
        | (crossed) "MuxConnection_addr conn1 = a2" "MuxConnection_addr conn2 = a1"
        | (none) "\<not> (MuxConnection_addr conn1 = a1 \<and> MuxConnection_addr conn2 = a2)"
            "\<not> (MuxConnection_addr conn1 = a2 \<and> MuxConnection_addr conn2 = a1)"
        by blast
      then show ?thesis
      proof cases
        case straight
        show ?thesis
          by (rule read_both [where ok = "\<lambda>R. prefix (src (rs_world R)) (wire (sy_world S))", 
              OF assms(25) w12 w2(1) differ(1) fresh read1 [OF straight(1)] read2 [OF straight(2)] _ assms(27)])
            (use straight ne assms(26) ac1 ac2 in \<open>simp_all add: multiple_test_server_def match_connections_def\<close>)
      next
        case crossed
        show ?thesis
          by (rule read_both [where ok = "\<lambda>R. prefix (src (rs_world R)) (wire (sy_world S))", 
              OF assms(25) w2(1) w12 differ(1) [symmetric] fresh read1 [OF crossed(2)] read2 [OF crossed(1)] _ assms(27)])
            (use crossed ne assms(26) ac1 ac2 in \<open>simp_all add: multiple_test_server_def match_connections_def\<close>)
      next
        case none
        with assms(26) ac1 ac2 have "R = s2" by (auto simp: multiple_test_server_def match_connections_def)
        with assms(27) have lag: "prefix (src (rs_world s2)) (wire (sy_world S))" by simp
        from known [OF w12 lag] known [OF w2(1) lag] none differ(2) [OF fr c1(1) _ assms(11) _ lag] differ(2) [OF fr c2(1) _ assms(15) _ lag] c1(2) c2(2)
          assms(10,14) show ?thesis by auto
      qed
    qed
  qed
qed

section \<open>The tests on the sample streams\<close>

definition test_addr :: "u16 \<Rightarrow> socket_addr" where
  "test_addr p = SocketAddr_from_std (SockV4 (Ipv4Addr 127 0 0 1) p)"

definition test_parse :: "string \<Rightarrow> unit + std_socket_addr" where
  "test_parse s = (if s = ''127.0.0.1:12345'' then Inr (SockV4 (Ipv4Addr 127 0 0 1) 12345)
     else if s = ''127.0.0.1:12346'' then Inr (SockV4 (Ipv4Addr 127 0 0 1) 12346) else Inl ())"

lemma test_parse_facts:
  "parses_test_addrs test_parse" "dummy_addr test_parse = Done (test_addr 12345)" "SocketAddr_from_str test_parse ''127.0.0.1:12346'' = Inr (test_addr 12346)"
  by (simp_all add: parses_test_addrs_def test_parse_def dummy_addr_def SocketAddr_from_str_def unwrap_def test_addr_def)

definition test_conn :: "socket_addr \<Rightarrow> nat \<Rightarrow> (unit, unit) mux_connection" where
  "test_conn a k = MuxConnection_new (MuxPipe_make_writer uninit_writer \<lparr>mp_write = 0\<rparr> a) \<lparr>ri_entry = k\<rparr>"

lemma test_conn_facts [simp]: "MuxConnection_addr (test_conn a k) = a" "mc_read (test_conn a k) = \<lparr>ri_entry = k\<rparr>"
  by (simp_all add: test_conn_def MuxConnection_addr_def MuxConnection_new_def fresh_pipe_writer)

text \<open>A server after it has read the sessions on the wire: the connections \<open>ms\<close>, of which \<open>h\<close> are accepted.\<close>

definition served ::
  "byte list \<Rightarrow> (socket_addr \<times> reader_inner) list \<Rightarrow> nat \<Rightarrow> (nat \<rightharpoonup> arc_entry) \<Rightarrow> (nat \<Rightarrow> byte list) \<Rightarrow> (socket_addr \<times> reader_inner, mock_world) read_sys" where
  "served wire ms h H t = \<lparr>rs_reader = \<lparr>lr_heap = H, lr_next = length ms, lr_map = Map.empty, lr_state = next_packet\<rparr>,
     rs_world = feed [] wire [] 0 (ms, h), rs_taken = t\<rparr>"

abbreviation (input) sample_awaited where
  "sample_awaited \<equiv> accept_awaited view_api (mock_api True) mock_channel uninit_writer \<lparr>ml_pipe = \<lparr>mp_write = 0\<rparr>\<rparr> id mw_seen mw_sent mw_handed"

abbreviation (input) sample_end where
  "sample_end \<equiv> end_awaited view_api (mock_api True) mock_channel uninit_writer id mw_seen mw_sent mw_handed"

lemma served_accept:
  assumes run: "sample_listen\<^sup>*\<^sup>* R (served wire ms h H t)" "rs_taken R = t" and m: "h < length ms" "ms ! h = (a, \<lparr>ri_entry = k\<rparr>)"
  shows "sample_awaited R (test_conn a k) (served wire ms (Suc h) H t)"
proof -
  let ?R = "served wire ms h H t" and ?R' = "served wire ms (Suc h) H t"
  have "MuxListener_accept view_api (mock_api True) mock_channel uninit_writer \<lparr>ml_pipe = \<lparr>mp_write = 0\<rparr>\<rparr> AcceptStart
      (rs_reader ?R) (Task 1) (rs_world ?R) = Some (Done (Ready (Inr (test_conn a k))), AcceptDone, rs_reader ?R', rs_world ?R', [])"
    using m by (simp add: accept_wait_def mock_channel_def served_def feed_def test_conn_def)
  moreover have "?R' = ?R\<lparr>rs_reader := rs_reader ?R', rs_world := rs_world ?R'\<rparr>" "rs_taken ?R = rs_taken R"
    using run(2) by (simp_all add: served_def)
  ultimately show ?thesis unfolding accept_awaited_def using run(1) by blast
qed

lemma served_read:
  assumes p: "p \<noteq> []" "length p \<le> 100" and k: "H k = Some (arc_with 0 p)" "t k = []"
  shows "sample_end (test_conn a k) p (served wire ms h H t) (served wire ms h (H(k \<mapsto> drained_arc p)) (t(k := p)))"
proof -
  let ?R = "served wire ms h H t" and ?R' = "served wire ms h (H(k \<mapsto> drained_arc p)) (t(k := p))" and ?rd = "\<lparr>ri_entry = k\<rparr>"
  have h: "lr_heap (rs_reader ?R) (ri_entry ?rd) = Some (arc_with 0 p)" "lr_heap (rs_reader ?R') (ri_entry ?rd) = Some (drained_arc p)"
    using k by (simp_all add: served_def)
  have s: "0 < ae_strong (arc_with 0 p)" "0 < ae_strong (drained_arc p)" by (simp_all add: drained_arc_def arc_with_def)
  have b: "rb_ok (id room)" "v_filled (id room) < v_cap (id room)" "rb_contents (id (room_with p)) = rb_contents (id room) @ p"
    using mem_write_same [of Map.empty 0 p] by (simp_all add: rb_ok_def room_def rb_contents_def room_with_def)
  have r1: "ReaderInner_poll_read view_api (mock_api True) ?rd (rs_reader ?R) (Task 1) room (rs_world ?R) =
      Some (Done (Ready (Inr ())), rs_reader ?R', room_with p, rs_world ?R', [Task 1])"
    using reading_all [OF p h(1)] by (simp add: served_def)
  have r2: "ReaderInner_poll_read view_api (mock_api True) ?rd (rs_reader ?R') (Task 1) room (rs_world ?R') =
      Some (Done (Ready (Inr ())), rs_reader ?R', room, rs_world ?R', [])"
    using reading_end [OF h(2)] by simp
  have "read_step view_api (mock_api True) id {} ?R (?R\<lparr>rs_reader := rs_reader ?R', rs_world := rs_world ?R',
      rs_taken := (rs_taken ?R)(ri_entry ?rd := rs_taken ?R (ri_entry ?rd) @ p)\<rparr>)"
    by (rule read_conn [where view = id, OF h(1) s(1) b(1,2) r1 _ b(3)]) simp
  then have "sample_listen ?R ?R'" using k by (intro reader_step) (simp add: served_def)
  moreover have "rs_taken ?R' = (rs_taken ?R)(k := rs_taken ?R k @ p)" "?R' = ?R'\<lparr>rs_reader := rs_reader ?R', rs_world := rs_world ?R'\<rparr>"
    using k(2) by (simp_all add: served_def)
  ultimately show ?thesis
    unfolding end_awaited_def using h(2) s(2) b(1,2) r2
    by (intro exI [of _ ?R'] exI [of _ "drained_arc p"] exI [of _ room] exI [of _ "Task 1"] exI [of _ "rs_reader ?R'"] exI [of _ room]
        exI [of _ "rs_world ?R'"] exI [of _ "[]"])
      (simp add: MuxConnection_poll_read_def r_into_rtranclp)
qed

text \<open>Calls that return as given, and fail everywhere else.\<close>

definition calls where
  "calls accepts reads =
     \<lparr>aw_accept = (\<lambda>R. case accepts R of None \<Rightarrow> (Inl (IoError OtherKind []), R) | Some (c, R') \<Rightarrow> (Inr c, R')),
      aw_read_to_end = (\<lambda>c buf R. case reads (c, R) of None \<Rightarrow> (Inl (IoError OtherKind []), buf, R) | Some (bs, R') \<Rightarrow> (Inr (length bs), buf @ bs, R'))\<rparr>"

lemma calls_laws:
  assumes "\<And>R c R'. accepts R = Some (c, R') \<Longrightarrow> sample_awaited R c R'" and "\<And>c R bs R'. reads (c, R) = Some (bs, R') \<Longrightarrow> sample_end c bs R R'"
  shows "await_laws view_api (mock_api True) mock_channel uninit_writer \<lparr>ml_pipe = \<lparr>mp_write = 0\<rparr>\<rparr> id mw_seen mw_sent mw_handed (calls accepts reads)"
  using assms by (auto simp: await_laws_def calls_def split: option.splits)

lemma served_poll:
  assumes "ReaderMut_poll view_api (mock_api True) SharedReader_new (Task 1) v [] =
      ReaderMut_poll view_api (mock_api True) (rs_reader (served wire ms 0 H (\<lambda>i. []))) (Task 1) (feed [] wire [0] 0 (ms, 0)) wk"
  shows "sample_listen\<^sup>*\<^sup>* (read_start v) (served wire ms 0 H (\<lambda>i. []))"
proof -
  let ?R = "served wire ms 0 H (\<lambda>i. [])"
  have "sample_round (rs_reader ?R) (feed [] wire [0] 0 (ms, 0)) = (Done Pending, rs_reader ?R, rs_world ?R, [])"
    by (subst mock_pending_step [where ks = "[]"]) (simp_all add: served_def feed_def)
  from reader_poll_stop(1) [OF this, of wk] assms
  have "SharedReader_poll view_api (mock_api True) (rs_reader (read_start v)) (Task 1) (rs_world (read_start v)) =
      Some (Done Pending, rs_reader ?R, rs_world ?R, wk @ [])"
    by (simp add: SharedReader_poll_def read_start_def)
  from poll_shared [where view = id and mine = "{}", OF this] show ?thesis
    by (intro r_into_rtranclp reader_step) (simp add: read_start_def served_def)
qed

lemma new_reader_fields: "lr_heap SharedReader_new = Map.empty" "lr_next SharedReader_new = 0" "lr_map SharedReader_new = Map.empty"
  "lr_state SharedReader_new = next_packet"
  by (simp_all add: SharedReader_new_def)

abbreviation (input) session_frames :: "socket_addr \<Rightarrow> byte list \<Rightarrow> byte list" where
  "session_frames a p \<equiv> frames [(a, []), (a, p), (a, [])]"

text \<open>One connection.\<close>

definition hello :: "byte list" where
  "hello = byte_string ''hello world''"

definition hello_sys :: "((unit, unit, byte list) actor, lb_world, offer) sys" where
  "hello_sys = \<lparr>sy_actors = [0 \<mapsto> ActGone True (test_addr 12345)], sy_world = lb_sent (session_frames (test_addr 12345) hello),
     sy_events = (\<lambda>i. [])(0 := [(hello, Ready (Inr (length hello)), False)])\<rparr>"

definition hello_feed :: mock_world where
  "hello_feed = feed (session_frames (test_addr 12345) hello) [] [20, 20, length hello, 20, 0] 5 ([], 0)"

definition hello_served where
  "hello_served = served (session_frames (test_addr 12345) hello) [(test_addr 12345, \<lparr>ri_entry = 0\<rparr>)]"

definition hello_calls where
  "hello_calls = calls [read_start hello_feed \<mapsto> (test_conn (test_addr 12345) 0, hello_served 1 [0 \<mapsto> arc_with 0 hello] (\<lambda>i. []))]
     [(test_conn (test_addr 12345) 0, hello_served 1 [0 \<mapsto> arc_with 0 hello] (\<lambda>i. [])) \<mapsto>
        (hello, hello_served 1 [0 \<mapsto> drained_arc hello] ((\<lambda>i. [])(0 := hello)))]"

lemma hello_facts: "hello \<noteq> []" "length hello \<le> 100" "length hello \<le> 65535"
  by (simp_all add: hello_def byte_string_facts)

lemma hello_run: "lb_step\<^sup>*\<^sup>* (sys_start (lb_start [])) hello_sys"
proof -
  have "sy_world (sys_start (lb_start [])) = lb_sent []" by (simp add: sys_start_def lb_start_def)
  from session_run [where i = 0 and a = "test_addr 12345", OF _ this hello_facts(1,3)] show ?thesis
    by (simp add: sys_start_def hello_sys_def)
qed

lemma hello_poll: "sample_listen\<^sup>*\<^sup>* (read_start hello_feed) (hello_served 0 [0 \<mapsto> arc_with 0 hello] (\<lambda>i. []))"
  unfolding hello_served_def
proof (rule served_poll)
  show "ReaderMut_poll view_api (mock_api True) SharedReader_new (Task 1) hello_feed [] =
      ReaderMut_poll view_api (mock_api True) (rs_reader (served (session_frames (test_addr 12345) hello) [(test_addr 12345, \<lparr>ri_entry = 0\<rparr>)] 0
        [0 \<mapsto> arc_with 0 hello] (\<lambda>i. []))) (Task 1)
        (feed [] (session_frames (test_addr 12345) hello) [0] 0 ([(test_addr 12345, \<lparr>ri_entry = 0\<rparr>)], 0)) [Noop, Noop]"
    using session_poll [of SharedReader_new "test_addr 12345", OF _ _ hello_facts(1,2), of "[]" "[]" "[0]" 0 "[]" 0 "[]"]
    by (simp add: new_reader_fields hello_feed_def served_def eval_nat_numeral)
      (simp add: SharedReader_new_def)
qed

theorem accept_test_passes_witness:
  "accept_test_server hello_calls (read_start hello_feed) = (Done (), hello_served 1 [0 \<mapsto> drained_arc hello] ((\<lambda>i. [])(0 := hello)))"
proof -
  let ?a = "test_addr 12345" and ?R1 = "hello_served 1 [0 \<mapsto> arc_with 0 hello] (\<lambda>i. [])"
  let ?R = "hello_served 1 [0 \<mapsto> drained_arc hello] ((\<lambda>i. [])(0 := hello))" and ?c = "ActGone True (test_addr 12345) :: (unit, unit, byte list) actor"
  have acc: "sample_awaited (read_start hello_feed) (test_conn ?a 0) ?R1"
    using served_accept [OF hello_poll [unfolded hello_served_def]] by (simp add: read_start_def hello_served_def)
  have end1: "sample_end (test_conn ?a 0) hello ?R1 ?R"
    using served_read [OF hello_facts(1,2), of "[0 \<mapsto> arc_with 0 hello]" 0 "\<lambda>i. []"] by (simp add: hello_served_def)
  have laws: "await_laws view_api (mock_api True) mock_channel uninit_writer \<lparr>ml_pipe = \<lparr>mp_write = 0\<rparr>\<rparr> id mw_seen mw_sent mw_handed hello_calls"
    unfolding hello_calls_def by (rule calls_laws) (use acc end1 in \<open>auto split: if_splits\<close>)
  have c: "sy_actors hello_sys = [0 \<mapsto> ?c]" "actor_addr ?c = ?a" "actor_shook ?c = Some True" "\<not> actor_dropped ?c"
    by (simp_all add: hello_sys_def)
  have "writes_all hello [(hello, Ready (Inr (length hello)), False)]"
    using hello_facts(1) by (intro offer_taken) (simp_all add: all_written)
  from sends_all [OF this sends_flush [OF sends_shutdown [OF sends_Nil]]]
  have sent: "sends accept_test_client (sy_events hello_sys 0)" by (simp add: accept_test_client_def hello_sys_def hello_def)
  have v: "mw_seen hello_feed = []" "mw_sent hello_feed = []" by (simp_all add: hello_feed_def feed_def)
  have calls: "aw_accept hello_calls (read_start hello_feed) = (Inr (test_conn ?a 0), ?R1)"
    "aw_read_to_end hello_calls (test_conn ?a 0) [] ?R1 = (Inr (length hello), hello, ?R)"
    by (simp_all add: hello_calls_def calls_def)
  have lag: "prefix (mw_seen (rs_world ?R)) (lb_wire (sy_world hello_sys))" by (simp add: hello_served_def served_def feed_def hello_sys_def)
  show ?thesis
    by (rule accept_test_passes [OF sample_facts(1) hello_run sample_facts(2,3) test_parse_facts(2) c sent mock_laws mock_budget sample_facts(4)
          mock_delivery mock_channel_laws v laws calls lag])
qed

text \<open>Two connections: the second client was faster, so that the server gets its connection first.\<close>

definition first :: "byte list" where
  "first = byte_string ''first connection''"

definition second :: "byte list" where
  "second = byte_string ''second connection''"

definition both_wire :: "byte list" where
  "both_wire = session_frames (test_addr 12346) second @ session_frames (test_addr 12345) first"

definition both_sys :: "((unit, unit, byte list) actor, lb_world, offer) sys" where
  "both_sys = \<lparr>sy_actors = [1 \<mapsto> ActGone True (test_addr 12346), 0 \<mapsto> ActGone True (test_addr 12345)], sy_world = lb_sent both_wire,
     sy_events = (\<lambda>i. [])(1 := [(second, Ready (Inr (length second)), False)], 0 := [(first, Ready (Inr (length first)), False)])\<rparr>"

definition both_feed :: mock_world where
  "both_feed = feed both_wire [] [20, 20, length second, 20, 20, 20, length first, 20, 0] 10 ([], 0)"

definition both_served where
  "both_served = served both_wire [(test_addr 12346, \<lparr>ri_entry = 0\<rparr>), (test_addr 12345, \<lparr>ri_entry = 1\<rparr>)]"

abbreviation (input) both_heap where
  "both_heap \<equiv> [0 \<mapsto> arc_with 0 second, 1 \<mapsto> arc_with 0 first]"

abbreviation (input) half_heap where
  "half_heap \<equiv> [0 \<mapsto> arc_with 0 second, 1 \<mapsto> drained_arc first]"

definition both_calls where
  "both_calls = calls
     [read_start both_feed \<mapsto> (test_conn (test_addr 12346) 0, both_served 1 both_heap (\<lambda>i. [])),
      both_served 1 both_heap (\<lambda>i. []) \<mapsto> (test_conn (test_addr 12345) 1, both_served 2 both_heap (\<lambda>i. []))]
     [(test_conn (test_addr 12345) 1, both_served 2 both_heap (\<lambda>i. [])) \<mapsto>
        (first, both_served 2 half_heap ((\<lambda>i. [])(1 := first))),
      (test_conn (test_addr 12346) 0, both_served 2 half_heap ((\<lambda>i. [])(1 := first))) \<mapsto>
        (second, both_served 2 (half_heap(0 \<mapsto> drained_arc second)) ((\<lambda>i. [])(1 := first, 0 := second)))]"

lemma both_facts: "first \<noteq> []" "length first \<le> 100" "length first \<le> 65535" "second \<noteq> []" "length second \<le> 100" "length second \<le> 65535"
  by (simp_all add: first_def second_def byte_string_facts)

lemma both_run: "lb_step\<^sup>*\<^sup>* (sys_start (lb_start [])) both_sys"
proof -
  let ?S1 = "(sys_start (lb_start []))\<lparr>sy_actors := [1 \<mapsto> ActGone True (test_addr 12346)],
    sy_world := lb_sent (session_frames (test_addr 12346) second), sy_events := (\<lambda>i. [])(1 := [(second, Ready (Inr (length second)), False)])\<rparr>"
  have "sy_world (sys_start (lb_start [])) = lb_sent []" by (simp add: sys_start_def lb_start_def)
  from session_run [where i = 1 and a = "test_addr 12346", OF _ this both_facts(4,6)] have 1: "lb_step\<^sup>*\<^sup>* (sys_start (lb_start [])) ?S1"
    by (simp add: sys_start_def)
  have "sy_world ?S1 = lb_sent (session_frames (test_addr 12346) second)" by simp
  from session_run [where i = 0 and a = "test_addr 12345", OF _ this both_facts(1,3)] have "lb_step\<^sup>*\<^sup>* ?S1 both_sys"
    by (simp add: sys_start_def both_sys_def both_wire_def)
  with 1 show ?thesis by (rule rtranclp_trans)
qed

lemma both_poll: "sample_listen\<^sup>*\<^sup>* (read_start both_feed) (both_served 0 both_heap (\<lambda>i. []))"
  unfolding both_served_def
proof (rule served_poll)
  let ?p = "\<lambda>s w wk. ReaderMut_poll view_api (mock_api True) s (Task 1) w wk" and ?m = "(test_addr 12346, \<lparr>ri_entry = 0\<rparr>)"
  let ?s1 = "after_session second SharedReader_new"
  have "?p SharedReader_new both_feed [] =
      ?p ?s1 (feed (session_frames (test_addr 12345) first) (session_frames (test_addr 12346) second) [20, 20, length first, 20, 0] 5 ([?m], 0)) [Noop, Noop]"
    using session_poll [of SharedReader_new "test_addr 12346", OF _ _ both_facts(4,5), of "session_frames (test_addr 12345) first" "[]"
        "[20, 20, length first, 20, 0]" 5 "[]" 0 "[]"]
    by (simp add: new_reader_fields both_feed_def both_wire_def eval_nat_numeral)
  also have "\<dots> = ?p (after_session first ?s1) (feed [] both_wire [0] 0 ([?m, (test_addr 12345, \<lparr>ri_entry = 1\<rparr>)], 0)) [Noop, Noop, Noop, Noop]"
    using session_poll [of ?s1 "test_addr 12345", OF _ _ both_facts(1,2), of "[]" "session_frames (test_addr 12346) second" "[0]" 0 "[?m]" 0
        "[Noop, Noop]"]
    by (simp add: new_reader_fields both_wire_def eval_nat_numeral)
  also have "after_session first ?s1 = rs_reader (served both_wire [?m, (test_addr 12345, \<lparr>ri_entry = 1\<rparr>)] 0 both_heap (\<lambda>i. []))"
    by (simp add: served_def SharedReader_new_def)
  finally show "?p SharedReader_new both_feed [] =
      ?p (rs_reader (served both_wire [?m, (test_addr 12345, \<lparr>ri_entry = 1\<rparr>)] 0 both_heap (\<lambda>i. [])))
        (feed [] both_wire [0] 0 ([?m, (test_addr 12345, \<lparr>ri_entry = 1\<rparr>)], 0)) [Noop, Noop, Noop, Noop]" .
qed

lemma both_awaited:
  "sample_awaited (read_start both_feed) (test_conn (test_addr 12346) 0) (both_served 1 both_heap (\<lambda>i. []))"
  "sample_awaited (both_served 1 both_heap (\<lambda>i. [])) (test_conn (test_addr 12345) 1) (both_served 2 both_heap (\<lambda>i. []))"
  "sample_end (test_conn (test_addr 12345) 1) first (both_served 2 both_heap (\<lambda>i. []))
     (both_served 2 half_heap ((\<lambda>i. [])(1 := first)))"
  "sample_end (test_conn (test_addr 12346) 0) second (both_served 2 half_heap ((\<lambda>i. [])(1 := first)))
     (both_served 2 (half_heap(0 \<mapsto> drained_arc second)) ((\<lambda>i. [])(1 := first, 0 := second)))"
proof -
  let ?ms = "[(test_addr 12346, \<lparr>ri_entry = 0\<rparr>), (test_addr 12345, \<lparr>ri_entry = 1\<rparr>)]"
  show "sample_awaited (read_start both_feed) (test_conn (test_addr 12346) 0) (both_served 1 both_heap (\<lambda>i. []))"
    using served_accept [OF both_poll [unfolded both_served_def]] by (simp add: read_start_def both_served_def)
  show "sample_awaited (both_served 1 both_heap (\<lambda>i. [])) (test_conn (test_addr 12345) 1) (both_served 2 both_heap (\<lambda>i. []))"
    using served_accept [OF rtranclp.rtrancl_refl, of both_wire ?ms 1 both_heap "\<lambda>i. []"]
    by (simp add: both_served_def numeral_2_eq_2) (simp add: served_def)
  show "sample_end (test_conn (test_addr 12345) 1) first (both_served 2 both_heap (\<lambda>i. []))
     (both_served 2 half_heap ((\<lambda>i. [])(1 := first)))"
    using served_read [OF both_facts(1,2), of both_heap 1 "\<lambda>i. []"] by (simp add: both_served_def)
  show "sample_end (test_conn (test_addr 12346) 0) second (both_served 2 half_heap ((\<lambda>i. [])(1 := first)))
     (both_served 2 (half_heap(0 \<mapsto> drained_arc second)) ((\<lambda>i. [])(1 := first, 0 := second)))"
    unfolding both_served_def by (rule served_read [OF both_facts(4,5)]) simp_all
qed

lemma handle_sends: "data \<noteq> [] \<Longrightarrow> sends (handle data) [(data, Ready (Inr (length data)), False)]"
  using sends_all [OF offer_taken [of "length data" data "[]" False] sends_flush [OF sends_shutdown [OF sends_Nil]]]
  by (simp add: all_written handle_def)

lemma both_calls_facts:
  "aw_accept both_calls (read_start both_feed) = (Inr (test_conn (test_addr 12346) 0), both_served 1 both_heap (\<lambda>i. []))"
  "aw_accept both_calls (both_served 1 both_heap (\<lambda>i. [])) = (Inr (test_conn (test_addr 12345) 1), both_served 2 both_heap (\<lambda>i. []))"
  "aw_read_to_end both_calls (test_conn (test_addr 12345) 1) buf (both_served 2 both_heap (\<lambda>i. [])) =
     (Inr (length first), buf @ first, both_served 2 half_heap ((\<lambda>i. [])(1 := first)))"
  "aw_read_to_end both_calls (test_conn (test_addr 12346) 0) buf (both_served 2 half_heap ((\<lambda>i. [])(1 := first))) =
     (Inr (length second), buf @ second,
      both_served 2 (half_heap(0 \<mapsto> drained_arc second)) ((\<lambda>i. [])(1 := first, 0 := second)))"
proof -
  have k: "(test_conn (test_addr 12346) 0, R) \<noteq> (test_conn (test_addr 12345) 1, R')" for R R' :: "(socket_addr \<times> reader_inner, mock_world) read_sys"
    by (metis prod.inject reader_inner.select_convs(1) test_conn_facts(2) zero_neq_one)
  have R: "read_start both_feed \<noteq> both_served 1 both_heap (\<lambda>i. [])"
    using arg_cong [of "read_start both_feed" "both_served 1 both_heap (\<lambda>i. [])" "\<lambda>R. mw_handed (rs_world R)"]
    by (auto simp: read_start_def both_feed_def both_served_def served_def feed_def)
  show "aw_accept both_calls (read_start both_feed) = (Inr (test_conn (test_addr 12346) 0), both_served 1 both_heap (\<lambda>i. []))"
    using R by (simp add: both_calls_def calls_def)
  show "aw_accept both_calls (both_served 1 both_heap (\<lambda>i. [])) = (Inr (test_conn (test_addr 12345) 1), both_served 2 both_heap (\<lambda>i. []))"
    by (simp add: both_calls_def calls_def)
  show "aw_read_to_end both_calls (test_conn (test_addr 12345) 1) buf (both_served 2 both_heap (\<lambda>i. [])) =
     (Inr (length first), buf @ first, both_served 2 half_heap ((\<lambda>i. [])(1 := first)))"
    using k [symmetric] by (simp add: both_calls_def calls_def)
  show "aw_read_to_end both_calls (test_conn (test_addr 12346) 0) buf (both_served 2 half_heap ((\<lambda>i. [])(1 := first))) =
     (Inr (length second), buf @ second,
      both_served 2 (half_heap(0 \<mapsto> drained_arc second)) ((\<lambda>i. [])(1 := first, 0 := second)))"
    by (simp add: both_calls_def calls_def)
qed

theorem multiple_test_passes_witness:
  "\<exists>R. multiple_test_server both_calls (test_addr 12345) (test_addr 12346) (read_start both_feed) = (Done (Inr ()), R)"
proof -
  let ?a1 = "test_addr 12345" and ?a2 = "test_addr 12346"
  let ?c1 = "ActGone True ?a1 :: (unit, unit, byte list) actor" and ?c2 = "ActGone True ?a2 :: (unit, unit, byte list) actor"
  have laws: "await_laws view_api (mock_api True) mock_channel uninit_writer \<lparr>ml_pipe = \<lparr>mp_write = 0\<rparr>\<rparr> id mw_seen mw_sent mw_handed both_calls"
    unfolding both_calls_def by (rule calls_laws) (use both_awaited in \<open>auto split: if_splits\<close>)
  have S: "sy_actors both_sys = [0 \<mapsto> ?c1, 1 \<mapsto> ?c2]" "0 \<noteq> (1 :: nat)" by (simp_all add: both_sys_def fun_upd_twist)
  have 1: "actor_addr ?c1 = ?a1" "actor_shook ?c1 = Some True" "\<not> actor_dropped ?c1"
    "sends (handle (byte_string ''first connection'')) (sy_events both_sys 0)"
    using handle_sends [OF both_facts(1)] by (simp_all add: both_sys_def first_def)
  have 2: "actor_addr ?c2 = ?a2" "actor_shook ?c2 = Some True" "\<not> actor_dropped ?c2"
    "sends (handle (byte_string ''second connection'')) (sy_events both_sys 1)"
    using handle_sends [OF both_facts(4)] by (simp_all add: both_sys_def second_def)
  have v: "mw_seen both_feed = []" "mw_sent both_feed = []" by (simp_all add: both_feed_def feed_def)
  have ne: "?a1 \<noteq> ?a2" by (rule test_addrs_differ [OF test_parse_facts])
  have seen: "mw_seen (rs_world (both_served h H t)) = both_wire" for h H t by (simp add: both_served_def served_def feed_def)
  obtain r R where server: "multiple_test_server both_calls ?a1 ?a2 (read_start both_feed) = (r, R)" by fastforce
  then have "mw_seen (rs_world R) = both_wire" "\<forall>e. r \<noteq> Done (Inl e)"
    using ne seen by (auto simp: multiple_test_server_def both_calls_facts match_connections_def read_and_assert_def
        simp del: One_nat_def split: run.splits)
  moreover from this have lag: "prefix (mw_seen (rs_world R)) (lb_wire (sy_world both_sys))" by (simp add: both_sys_def)
  from multiple_test_passes [OF sample_facts(1) both_run sample_facts(2,3) test_parse_facts S 1 2 mock_laws mock_budget sample_facts(4)
      mock_delivery mock_channel_laws v laws server lag]
  have "r = Done (Inr ()) \<or> (\<exists>e. r = Done (Inl e))" .
  ultimately show ?thesis using server by auto
qed

end
