(* ===== verification/Spec2Isabelle.thy ===== *)
theory Spec2Isabelle
  imports Write_End_Props Write_Safety Write_Live Mux_Props Read_Safety Delivery_Props Test_Packet_Buffer Test_Read_Buffer Test_Mux_Props
begin

text \<open>
  A verification of \<open>vt-muxer\<close>, which carries many logical connections over one TCP stream.

  \<^bold>\<open>The program.\<close> Every byte of a connection travels in frames: a header of 20 bytes (16 of address, 2 of port,
  2 of length, big endian) and up to 65535 bytes of payload. A frame without payload opens a connection
  at the other end, or closes the one that is open. The writers of a stream take turns under an asynchronous mutex,
  which a writer keeps while a frame of it is partly sent. At the other end one shared reader, driven by
  whoever polls it, parses the stream and puts the payloads into one buffer per connection.

  \<^bold>\<open>Theories and sources\<close> (files under \<open>src/src\<close>).
  \<^item> \<open>Mux_Prelude\<close>: results of a run (\<open>Done\<close>, \<open>Panicked\<close>, \<open>Undefined\<close> for undefined behaviour), \<open>Poll\<close>,
    \<open>io::Error\<close>, wakers, memory of which cells may be uninitialised.
  \<^item> \<open>Integers\<close> (\<open>integers.rs\<close>), \<open>Constructor\<close> (\<open>constructor.rs\<close>), \<open>Thin_Addr\<close> (\<open>thin_addr.rs\<close>),
    \<open>Protocol\<close> (\<open>protocol.rs\<close> and the wire format as a sequence of frames).
  \<^item> \<open>Packet_Buffer\<close> (\<open>packet_buffer.rs\<close>): the frame a connection is filling, which may grow while it is being sent.
  \<^item> \<open>Poll_Mutex\<close> (\<open>poll_mutex.rs\<close>), over a parameter for tokio's mutex.
  \<^item> \<open>Write_Model\<close> (\<open>write.rs\<close>): the state machine of a writing connection, its \<open>poll_write\<close>, \<open>poll_flush\<close>,
    \<open>poll_shutdown\<close>, \<open>handshake\<close>, \<open>Drop\<close> and the task that \<open>Drop\<close> spawns. \<open>Write_Flush\<close>, \<open>Write_Poll\<close>,
    \<open>Write_Shutdown\<close> and \<open>Write_Drop\<close> prove what each does; \<open>Loopback\<close> is a concrete stream;
    \<open>Write_Props\<close> and \<open>Write_End_Props\<close> state the contract.
  \<^item> \<open>Read_Buffer\<close> (\<open>read/read_buffer.rs\<close>): the buffer of one connection.
  \<^item> \<open>Read_Model\<close> (\<open>read.rs\<close>): the shared reader and the reading half, with the \<open>Arc\<close> and \<open>Weak\<close> counts of the
    entries as a heap. \<open>Demux\<close> is the abstract specification, an automaton on bytes; \<open>Read_Refine\<close> and
    \<open>Read_Poll\<close> show that the reader implements it; \<open>Mock_Stream\<close> is a concrete stream;
    \<open>Read_Props\<close> and \<open>Conn_Props\<close> state the contract.
  \<^item> \<open>Mux_Model\<close> (\<open>lib.rs\<close>): connections, the pipe and the listener; \<open>add_connection\<close> and \<open>accept\<close> as
    futures. \<open>Mux_Conn\<close> proves what they do and \<open>Mux_Props\<close> states the contract.
  \<^item> \<open>Shared_Wire\<close>, \<open>Write_System\<close>: all writers of a stream as a transition system, in which one of them moves at a time
    in any order; \<open>Lone_Writer\<close>: a writer that has the stream for itself; \<open>First_Write\<close>: the first write of a connection; \<open>Write_Live\<close>: calls on a stream
    that takes bytes. \<open>Read_Safety\<close> and \<open>Write_Safety\<close>: any calls at the reading
    end and on one connection at the writing end, whatever they return. \<open>Conn_View\<close>: what the bytes on the stream mean for one address. \<open>Read_System\<close>: any sequence of polls, reads,
    \<open>add_connection\<close>s and drops at the reading end, in which the connection of an address follows that view. \<open>Mux_Demux\<close> puts
    the two ends together. \<open>Accepting\<close>: the listening end as its user sees it, where connections come out of \<open>accept\<close>: each connection that the other end
    opens is handed to the channel once, with its reader. \<open>Delivery_Props\<close> states the service of a connection; \<open>Mux_Sample\<close>, \<open>Delivery_Sample\<close> and
    \<open>Mux_Run\<close> have concrete runs.
  \<^item> \<open>Test_Packet_Buffer\<close>, \<open>Test_Read_Buffer\<close>, \<open>Test_Write\<close>, \<open>Test_Send\<close>, \<open>Test_Mux\<close> and \<open>Test_Mux_Props\<close>: the unit tests of \<open>packet_buffer.rs\<close>,
    \<open>read/read_buffer.rs\<close>, \<open>write.rs\<close> and \<open>lib.rs\<close>, which are shown to pass.

  \<^bold>\<open>State and effects.\<close> An operation of the code is a function that takes the state it borrows and the world
  \<open>'w\<close> outside the program and returns both, together with its result; the wakers it woke are returned as a list. Code outside
  the repository is a parameter: \<open>writer_api\<close> (the write half of the TCP stream, the mutex, \<open>write_all\<close>), \<open>readbuf_api\<close>
  (tokio's \<open>ReadBuf\<close>), \<open>reader_api\<close> (the buffered read half, \<open>take\<close>, the sender of the channel, the cooperative
  budget, the allocator), \<open>channel_api\<close> (the receiver), and functions for the formatter, parser and hasher of \<open>std\<close>. What the
  code relies on are the predicates \<open>lock_laws\<close>, \<open>write_laws\<close>, \<open>readbuf_laws\<close>, \<open>fills\<close>, \<open>reader_laws\<close>,
  \<open>budget_laws\<close>, \<open>recv_laws\<close>, \<open>queue_laws\<close>, \<open>channel_laws\<close>, \<open>alloc_quiet\<close>, \<open>try_lock_succeeds\<close>, \<open>lock_turns\<close>, \<open>stream_ready\<close>, \<open>stream_laws\<close> and \<open>await_laws\<close>, which the theorems have as hypotheses and the sample
  streams satisfy. An \<open>async fn\<close> is a data type with one constructor per await point and a function that polls it.

  \<^bold>\<open>Loops.\<close> The loops of \<open>flush_buf\<close>, \<open>poll_write\<close> and the poll of the shared reader are
  \<open>partial_function (option)\<close>: \<open>None\<close> is a call that never returns. The theorems show that they return: the
  first two because every round sends or accepts a byte, the last because a round takes one unit of the budget
  (\<open>budget_laws\<close> has a measure that it lowers), which is how the code itself bounds it. The loop of \<open>poll_shutdown\<close> has
  a termination proof by the rank of its state.

  \<^bold>\<open>What is shown.\<close>
  \<^item> Both ends together: the theorems of this theory and of \<open>Delivery_Props\<close>, by the locale \<open>shared_wire\<close>, whose
    laws the writers satisfy, and the simulation of the reader by the automaton. A connection that \<open>accept\<close> returns gets in order and unchanged what the writer of its
    address accepted, at every moment and however far it lags behind; it sees the end of the stream only after all of it;
    and this holds in both directions of a connection, whatever the other connections do within the limits below.
  \<^item> Safety: after any calls at the reading end or on a connection at the writing end, failed ones included, nothing panics and no
    undefined behaviour is reached.
  \<^item> Writing: every operation returns without panic, keeps the frames on the wire whole, loses no accepted byte, and
    answers as documented in each state, and is through at once while nobody else has the lock or waits for it and the stream takes bytes; a shutdown is final;
    the empty frames of handshake, shutdown and drop; poisoning after a panic.
  \<^item> Reading: refinement of the automaton, in-order delivery, back pressure, and the behaviour of a read on one connection;
    no undefined behaviour in the buffers, which are first in, first out.
  \<^item> Opening and accepting connections, on every branch.
  \<^item> Data: round trips of headers, addresses and integers, the orders, and that the wire format is unambiguous.
  \<^item> Tests: the receiver of \<open>write.rs\<close> decodes every complete session, \<open>test_write\<close> and the parallel test pass for everything they
    draw at random, a reader built on \<open>ReadBuffer\<close> reads what it would read without it, whatever the sizes, and the tests of \<open>lib.rs\<close> with
    one and with two connections pass in every interleaving of their tasks.
  \<^item> Corners where the code departs from what it promises, each a theorem about the state in which it happens: the
    partial order of addresses ignores the port; \<open>poll_write\<close> may accept bytes and answer \<open>Pending\<close>; dropping a connection in the middle of a shutdown, or a future of
    \<open>add_connection\<close> in the middle of the handshake, truncates a frame; a header that arrives in pieces
    leaves the reader pending without a waker; a closed connection may report an error of the stream, its end for example, before the bytes that are
    there to be read; and without memory for a new connection the header is not left.

  \<^bold>\<open>Limits.\<close> The theorems on both ends are about runs without I/O errors, panics and cancelled
  handshakes, and without drops in the middle of a shutdown, which leave a truncated frame; they need that no two writers of a stream use the same address.
  The theorems on safety have none of these limits. The \<open>world\<close> of a multithreaded run is one sequence of calls, as the mutexes around
  the writer and the reader make it.

  \<^bold>\<open>Not modelled.\<close> The \<open>Debug\<close> impl of the borrow struct \<open>ReaderMut\<close>; the thread and runtime on which the task of \<open>Drop\<close>
  runs (any sequence of polls of the task is covered); \<open>Clone\<close> of a pipe, which shares the state that the model passes along; aborts when
  \<open>Box\<close> or \<open>Arc\<close> cannot allocate; and the parts of the tests that set up sockets, spawn tasks and join them.
\<close>

section \<open>The whole stream\<close>

text \<open>
  C4. Whatever the connections, handshakes and drop tasks of a stream do, in any interleaving and without an
  I/O error, the wire holds whole frames of at most 65535 bytes and, while somebody has the lock, a part
  of the next ones: frames of different connections never mix. The frames of an open connection,
  followed by its buffer, are exactly what was accepted from its user: all of every write
  that was answered \<open>Ready(Ok(k))\<close>, byte for byte and in order, after the empty frame of the
  handshake and before the one of the shutdown.
\<close>

theorem wire_is_framed:
  assumes "wire_laws W m wire holder rest" and "(sys_step (actor_step W) (fresh_actor m))\<^sup>*\<^sup>* (sys_start w) S"
    and "wire w = []" and "holder w = None"
  shows "\<exists>F bs. wire (sy_world S) = log_bytes actor_addr (sy_actors S) F @ bs \<and>
    (holder (sy_world S) = None \<longrightarrow> bs = []) \<and> (\<forall>f \<in> set F. length (snd f) \<le> 65535) \<and>
    (\<forall>i opened c. sy_actors S i = Some (ActConn opened c) \<longrightarrow>
       accepted (sy_events S i) (concat (share i F) @ wi_payload c) \<and>
       (if wi_state c = Shutdown ShutDone then ended_session opened (share i F) else session opened (share i F)))"
proof -
  obtain F bs where fr: "wire_system.framed wire holder m rest F bs S" by (rule writers_framed [OF assms])
  note F = wire_system.framedD [OF fr]
  have conn: "accepted (sy_events S i) (concat (share i F) @ wi_payload c) \<and>
      (if wi_state c = Shutdown ShutDone then ended_session opened (share i F) else session opened (share i F))"
    if "sy_actors S i = Some (ActConn opened c)" for i opened c
    using F(3) [OF that] by simp
  show ?thesis by (intro exI [of _ F] exI [of _ bs] conjI) (use F(1,2,5) conn in blast)+
qed

theorem wire_is_framed_witness:
  "\<exists>F bs. sample_wire = log_bytes actor_addr (sy_actors sample_sys) F @ bs \<and> bs = [] \<and>
     accepted [([1, 2, 3], Ready (Inr 3), False)] (concat (share 0 F))"
proof -
  have laws: "wire_laws loopback 0 lb_wire lb_holder id" by (simp add: wire_laws_def loopback_laws)
  have start: "lb_wire (lb_start []) = []" "lb_holder (lb_start []) = None" by (simp_all add: lb_start_def lb_holder_def)
  from wire_is_framed [OF laws sample_sys_run start] obtain F bs
    where F: "lb_wire (sy_world sample_sys) = log_bytes actor_addr (sy_actors sample_sys) F @ bs"
      "lb_holder (sy_world sample_sys) = None \<longrightarrow> bs = []"
      and conn: "\<forall>i opened c. sy_actors sample_sys i = Some (ActConn opened c) \<longrightarrow>
        accepted (sy_events sample_sys i) (concat (share i F) @ wi_payload c) \<and>
        (if wi_state c = Shutdown ShutDone then ended_session opened (share i F) else session opened (share i F))"
    by (elim exE conjE)
  have "accepted [([1, 2, 3], Ready (Inr 3), False)] (concat (share 0 F))"
    using conn [rule_format, OF sample_sys_facts(2)] by (simp add: sample_sys_facts(4) wr2_facts)
  with F show ?thesis by (auto simp: sample_sys_facts)
qed

text \<open>
  C1. From one end of the stream to the other: let a connection that shook hands be the only one with its
  address, and let no frame be half sent. When the other end, which listens, accepts, and opens and drops
  other connections as it likes, has read everything, it has handed exactly one connection of this address to its listener. What this
  connection has handed out and still buffers, unless its reader was dropped, is exactly what the writer accepted, less what that has in its own
  buffer; and it is the open connection of the address there, unless the writer was shut down: then it has left the map. All this in runs without I/O errors,
  cancelled handshakes and drops in the middle of a shutdown.
\<close>

theorem mux_demux:
  fixes R :: "('l, 'v) read_sys"
  assumes "wire_laws W m wire holder rest" and "(sys_step (actor_step W) (fresh_actor m))\<^sup>*\<^sup>* (sys_start w) S"
    and "wire w = []" and "holder w = None" and "holder (sy_world S) = None"
    and "sy_actors S i = Some (ActConn True c)" and "WriteInner_addr c = a"
    and "\<forall>j d. sy_actors S j = Some d \<longrightarrow> actor_addr d = a \<longrightarrow> j = i"
    and "reader_laws B A view src" and "budget_laws A fuel" and "listener_stays A" and "channel_laws A X sent handed" and "recv_laws X src"
    and "a \<notin> mine" and "src v = []" and "sent v = []"
    and "(listen_step B A X u view src sent handed mine)\<^sup>*\<^sup>* (read_start v) R" and "src (rs_world R) = wire (sy_world S)"
  shows "\<exists>k bs. filter (\<lambda>m. fst m = a) (sent (rs_world R)) = [(a, \<lparr>ri_entry = k\<rparr>)] \<and> accepted (sy_events S i) (bs @ wi_payload c) \<and>
    (live (rs_reader R) k \<longrightarrow> abs_got (rs_taken R) (rs_reader R) k = bs) \<and>
    (if wi_state c = Shutdown ShutDone then lr_map (rs_reader R) a = None \<and> k \<notin> ran (lr_map (rs_reader R))
     else lr_map (rs_reader R) a = Some k)"
  by (rule end_to_end [OF assms])

text \<open>The sample connection, shut down by its writer, accepted and read to its end.\<close>

theorem mux_demux_witness:
  "accepted [([1, 2, 3], Ready (Inr 3), False)] (abs_got (rs_taken (gone_reader drained [1, 2, 3])) (rs_reader (gone_reader drained [1, 2, 3])) 0) \<and>
   lr_map (rs_reader (gone_reader drained [1, 2, 3])) addr1 = None"
proof -
  let ?R = "gone_reader drained [1, 2, 3]" and ?v = "feed closed_wire [] [20, 20, 3, 0, 20, 0] 10 ([], 0)"
  have s: "lb_holder (sy_world closed_sys) = None" "sy_actors closed_sys 0 = Some (ActConn True wr3)" "WriteInner_addr wr3 = addr1"
    "\<forall>j d. sy_actors closed_sys j = Some d \<longrightarrow> actor_addr d = addr1 \<longrightarrow> j = 0"
    by (simp_all add: closed_sys_facts) (simp add: closed_sys_def lb_start_def lb_holder_def)
  have v: "addr1 \<notin> {}" "mw_seen ?v = []" "mw_sent ?v = []" "mw_seen (rs_world ?R) = lb_wire (sy_world closed_sys)"
    by (simp_all add: feed_def closed_sys_facts gone_reader_def)
  have sent: "mw_sent (rs_world ?R) = [(addr1, \<lparr>ri_entry = 0\<rparr>)]" and live: "live (rs_reader ?R) 0"
    by (simp_all add: gone_reader_def feed_def live_def gone_conn_def)
  have wr: "wi_state wr3 = Shutdown ShutDone" "wi_payload wr3 = []" by (simp_all add: wr3_def wi_payload_def)
  from mux_demux [OF sample_facts(1) closed_sys_run sample_facts(2,3) s mock_laws mock_budget sample_facts(4) mock_delivery mock_channel_laws
      v(1-3) gone_run v(4)]
  obtain k bs where k: "filter (\<lambda>m. fst m = addr1) (mw_sent (rs_world ?R)) = [(addr1, \<lparr>ri_entry = k\<rparr>)]"
    "accepted [([1, 2, 3], Ready (Inr 3), False)] bs" "live (rs_reader ?R) k \<longrightarrow> abs_got (rs_taken ?R) (rs_reader ?R) k = bs"
    "lr_map (rs_reader ?R) addr1 = None"
    by (auto simp: wr closed_sys_facts)
  from k(1) sent have "k = 0" by simp
  with k live show ?thesis by simp
qed

end
